(* ===== verification/Prelude.thy ===== *)
theory Prelude
  imports Main "HOL-Library.Word"
begin

text \<open>
  Prelude of the development: the result type of fallible Rust code, byte strings,
  fixed-width integer codecs and the list facts that the components share.

  A Rust \<^verbatim>\<open>u8\<close> of a byte string is a \<^typ>\<open>char\<close> (256 values), so that \<^verbatim>\<open>&[u8]\<close>, \<^verbatim>\<open>Vec<u8>\<close>
  and the UTF-8 bytes of a \<^verbatim>\<open>String\<close> are all of type \<open>bytes\<close> and byte-string literals can be
  written as in the source.  A \<^verbatim>\<open>usize\<close> or \<^verbatim>\<open>u64\<close> that is only a length or a position is a
  \<^typ>\<open>nat\<close>; saturating and truncating operations are written out.
\<close>

unbundle bit_operations_syntax

type_synonym byte = char
type_synonym bytes = "byte list"

text \<open>Fallible code: \<^verbatim>\<open>Result<T, String>\<close> is a sum with the error text on the left.\<close>

type_synonym 'a res = "string + 'a"

text \<open>
  The cancellation callback \<^verbatim>\<open>&dyn Fn() -> Result<(), String>\<close> is called with the number of the
  call, so that it may start to fail at any point.
\<close>

type_synonym check = "nat \<Rightarrow> unit res"

named_theorems res_iff \<open>inversion of successful results\<close>
named_theorems codec \<open>decoding an encoded value gives it back\<close>
named_theorems lens \<open>lengths of encodings\<close>

section \<open>Results\<close>

definition bind_res :: "'a res \<Rightarrow> ('a \<Rightarrow> 'b res) \<Rightarrow> 'b res" where
  "bind_res r f = (case r of Inl e \<Rightarrow> Inl e | Inr x \<Rightarrow> f x)"

lemma bind_res_simps [simp]:
  "bind_res (Inl e) f = Inl e"
  "bind_res (Inr x) f = f x"
  by (simp_all add: bind_res_def)

lemma bind_res_Inr [res_iff]:
  "bind_res r f = Inr y \<longleftrightarrow> (\<exists>x. r = Inr x \<and> f x = Inr y)"
  by (cases r) auto

lemma bind_res_Inl:
  "bind_res r f = Inl e \<longleftrightarrow> r = Inl e \<or> (\<exists>x. r = Inr x \<and> f x = Inl e)"
  by (cases r) auto

lemma bind_res_cong [fundef_cong]:
  "r = r' \<Longrightarrow> (\<And>x. r' = Inr x \<Longrightarrow> f x = f' x) \<Longrightarrow> bind_res r f = bind_res r' f'"
  by (cases r') auto

definition ok_or :: "'a option \<Rightarrow> string \<Rightarrow> 'a res" where
  "ok_or x e = (case x of None \<Rightarrow> Inl e | Some y \<Rightarrow> Inr y)"

lemma ok_or_simps [simp]: "ok_or None e = Inl e" "ok_or (Some x) e = Inr x"
  by (simp_all add: ok_or_def)

lemma ok_or_Inr [res_iff]: "ok_or x e = Inr y \<longleftrightarrow> x = Some y"
  by (cases x) auto

definition res_ok :: "'a res \<Rightarrow> 'a option" where
  "res_ok r = (case r of Inl _ \<Rightarrow> None | Inr x \<Rightarrow> Some x)"

lemma res_ok_simps [simp]: "res_ok (Inl e) = None" "res_ok (Inr x) = Some x"
  by (simp_all add: res_ok_def)

section \<open>Bytes and machine integers\<close>

abbreviation u8 :: "byte \<Rightarrow> nat" where "u8 \<equiv> of_char"

lemma u8_less [simp]: "u8 c < 256"
  by (rule nat_of_char_less_256)

lemma u8_le [simp]: "u8 c \<le> 255"
  using u8_less [of c] by linarith

definition usize_max :: nat where "usize_max = 2 ^ 64 - 1"

definition sat_add :: "nat \<Rightarrow> nat \<Rightarrow> nat" where
  "sat_add a b = min (a + b) usize_max"

lemma sat_add_small [simp]: "a + b \<le> usize_max \<Longrightarrow> sat_add a b = a + b"
  by (simp add: sat_add_def)

text \<open>The base-256 digits of a number, least significant first: \<^verbatim>\<open>to_le_bytes\<close>.\<close>

fun put_le :: "nat \<Rightarrow> nat \<Rightarrow> bytes" where
  "put_le 0 n = []"
| "put_le (Suc k) n = char_of n # put_le k (n div 256)"

fun get_le :: "bytes \<Rightarrow> nat" where
  "get_le [] = 0"
| "get_le (b # bs) = u8 b + 256 * get_le bs"

definition put_be :: "nat \<Rightarrow> nat \<Rightarrow> bytes" where
  "put_be k n = rev (put_le k n)"

definition get_be :: "bytes \<Rightarrow> nat" where
  "get_be bs = get_le (rev bs)"

lemma length_put_le [simp, lens]: "length (put_le k n) = k"
  by (induction k arbitrary: n) auto

lemma length_put_be [simp, lens]: "length (put_be k n) = k"
  by (simp add: put_be_def)

lemma get_put_le: "get_le (put_le k n) = n mod 256 ^ k"
proof (induction k arbitrary: n)
  case 0
  then show ?case by simp
next
  case (Suc k)
  have "get_le (put_le (Suc k) n) = n mod 256 + 256 * (n div 256 mod 256 ^ k)"
    by (simp add: Suc.IH)
  also have "\<dots> = n mod 256 ^ Suc k"
    by (simp add: mod_mult2_eq)
  finally show ?case .
qed

lemma get_put_be: "get_be (put_be k n) = n mod 256 ^ k"
  by (simp add: get_be_def put_be_def get_put_le)

lemma char_of_add_mult [simp]: "char_of (u8 c + 256 * n) = c"
  by (rule of_char_eqI [where 'a = nat]) simp

lemma put_get_le: "put_le (length bs) (get_le bs) = bs"
  by (induction bs) auto

lemma put_get_be: "put_be (length bs) (get_be bs) = bs"
  using put_get_le [of "rev bs"] by (simp add: put_be_def get_be_def)

lemma get_le_bound: "get_le bs < 256 ^ length bs"
proof (induction bs)
  case Nil
  then show ?case by simp
next
  case (Cons b bs)
  have "u8 b + 256 * get_le bs < 256 + 256 * get_le bs"
    by simp
  also have "\<dots> \<le> 256 * 256 ^ length bs"
    using Cons.IH by simp
  finally show ?case by simp
qed

lemma get_be_bound: "get_be bs < 256 ^ length bs"
  using get_le_bound [of "rev bs"] by (simp add: get_be_def)

lemma get_le_inj: "length bs = length cs \<Longrightarrow> get_le bs = get_le cs \<Longrightarrow> bs = cs"
  by (metis put_get_le)

text \<open>\<^verbatim>\<open>u32::to_le_bytes\<close>, \<^verbatim>\<open>from_le_bytes\<close> and the big-endian pair.\<close>

abbreviation put_le32 :: "nat \<Rightarrow> bytes" where "put_le32 \<equiv> put_le 4"
abbreviation put_be32 :: "nat \<Rightarrow> bytes" where "put_be32 \<equiv> put_be 4"
abbreviation put_be24 :: "nat \<Rightarrow> bytes" where "put_be24 \<equiv> put_be 3"

lemma get_put_le32 [simp, codec]: "n < 2 ^ 32 \<Longrightarrow> get_le (put_le32 n) = n"
  by (simp add: get_put_le)

lemma get_put_be32 [simp, codec]: "n < 2 ^ 32 \<Longrightarrow> get_be (put_be32 n) = n"
  by (simp add: get_put_be)

lemma get_put_be24 [simp, codec]: "n < 2 ^ 24 \<Longrightarrow> get_be (put_be24 n) = n"
  by (simp add: get_put_be)

lemma get_le4_bound: "length bs = 4 \<Longrightarrow> get_le bs < 2 ^ 32"
  using get_le_bound [of bs] by simp

lemma get_be4_bound: "length bs = 4 \<Longrightarrow> get_be bs < 2 ^ 32"
  using get_be_bound [of bs] by simp

section \<open>Slices\<close>

text \<open>\<^verbatim>\<open>data.get(a..b)\<close>: \<^verbatim>\<open>None\<close> when the range is not inside the slice.\<close>

definition get_range :: "'a list \<Rightarrow> nat \<Rightarrow> nat \<Rightarrow> 'a list option" where
  "get_range d a b = (if a \<le> b \<and> b \<le> length d then Some (take (b - a) (drop a d)) else None)"

text \<open>\<^verbatim>\<open>&data[a..b]\<close> where the caller has established the bounds.\<close>

definition slice :: "'a list \<Rightarrow> nat \<Rightarrow> nat \<Rightarrow> 'a list" where
  "slice d a b = take (b - a) (drop a d)"

lemma get_range_Some:
  "get_range d a b = Some x \<longleftrightarrow> a \<le> b \<and> b \<le> length d \<and> x = slice d a b"
  by (auto simp: get_range_def slice_def)

lemma get_range_None: "get_range d a b = None \<longleftrightarrow> \<not> (a \<le> b \<and> b \<le> length d)"
  by (auto simp: get_range_def)

lemma length_slice [simp]: "b \<le> length d \<Longrightarrow> length (slice d a b) = b - a"
  by (simp add: slice_def)

lemma slice_append_mid: "slice (xs @ ys @ zs) (length xs) (length xs + length ys) = ys"
  by (simp add: slice_def)

lemma get_range_append_mid:
  "a = length xs \<Longrightarrow> b = a + length ys \<Longrightarrow> get_range (xs @ ys @ zs) a b = Some ys"
  by (simp add: get_range_def)

text \<open>\<^verbatim>\<open>iter().position(|b| b == c)\<close>\<close>

fun position :: "('a \<Rightarrow> bool) \<Rightarrow> 'a list \<Rightarrow> nat option" where
  "position p [] = None"
| "position p (x # xs) = (if p x then Some 0 else map_option Suc (position p xs))"

lemma position_None: "position p xs = None \<longleftrightarrow> (\<forall>x \<in> set xs. \<not> p x)"
  by (induction xs) auto

lemma position_Some:
  "position p xs = Some i \<Longrightarrow> i < length xs \<and> p (xs ! i) \<and> (\<forall>j < i. \<not> p (xs ! j))"
proof (induction xs arbitrary: i)
  case Nil
  then show ?case by simp
next
  case (Cons x xs)
  show ?case
  proof (cases "p x")
    case True
    then show ?thesis using Cons.prems by auto
  next
    case False
    with Cons.prems obtain k where k: "position p xs = Some k" "i = Suc k" by auto
    from Cons.IH [OF k(1)] False k(2) show ?thesis
      by (auto simp: nth_Cons split: nat.splits)
  qed
qed

lemma position_append: "(\<forall>x \<in> set xs. \<not> p x) \<Longrightarrow> p y \<Longrightarrow>
  position p (xs @ y # ys) = Some (length xs)"
  by (induction xs) auto

definition starts_with :: "'a list \<Rightarrow> 'a list \<Rightarrow> bool" where
  "starts_with xs p \<longleftrightarrow> take (length p) xs = p"

lemma starts_with_append [simp]: "starts_with (p @ xs) p"
  by (simp add: starts_with_def)

lemma starts_with_split: "starts_with xs p \<longleftrightarrow> (\<exists>ys. xs = p @ ys)"
  by (auto simp: starts_with_def) (metis append_take_drop_id)

section \<open>Counting in updated lists\<close>

lemma length_filter_update_same:
  "i < length xs \<Longrightarrow> P x = P (xs ! i) \<Longrightarrow> length (filter P (xs[i := x])) = length (filter P xs)"
  by (induction xs arbitrary: i) (auto simp: nth_Cons split: nat.splits)

lemma length_filter_update_drop:
  "i < length xs \<Longrightarrow> P (xs ! i) \<Longrightarrow> \<not> P x \<Longrightarrow>
     Suc (length (filter P (xs[i := x]))) = length (filter P xs)"
  by (induction xs arbitrary: i) (auto simp: nth_Cons split: nat.splits)

end
