(* ===== verification/Utf8.thy ===== *)
theory Utf8
  imports Prelude
begin

text \<open>
  Strings.  The standard library's UTF-8 validation (\<^verbatim>\<open>str::from_utf8\<close>), \<^verbatim>\<open>chars\<close>,
  \<^verbatim>\<open>trim\<close> and \<^verbatim>\<open>String::from_utf8_lossy\<close>, and the repository's own lossy decoder
  \<^verbatim>\<open>text::utf8\<close> (rust\_backend/crates/core/src/text.rs), which replaces every malformed
  byte separately.
\<close>

section \<open>Validation\<close>

definition cont_byte :: "byte \<Rightarrow> bool" where
  "cont_byte b \<longleftrightarrow> 128 \<le> u8 b \<and> u8 b \<le> 191"

definition second_ok :: "nat \<Rightarrow> byte \<Rightarrow> bool" where
  "second_ok a b =
     (if a = 0xE0 then 0xA0 \<le> u8 b \<and> u8 b \<le> 0xBF
      else if a = 0xED then 0x80 \<le> u8 b \<and> u8 b \<le> 0x9F
      else if a = 0xF0 then 0x90 \<le> u8 b \<and> u8 b \<le> 0xBF
      else if a = 0xF4 then 0x80 \<le> u8 b \<and> u8 b \<le> 0x8F
      else cont_byte b)"

text \<open>Length of the well-formed character at the start of a byte string.\<close>

fun char_len :: "bytes \<Rightarrow> nat option" where
  "char_len [] = None"
| "char_len (b0 # r) =
     (if u8 b0 < 0x80 then Some 1
      else if 0xC2 \<le> u8 b0 \<and> u8 b0 \<le> 0xDF then
        (case r of b1 # _ \<Rightarrow> if cont_byte b1 then Some 2 else None | _ \<Rightarrow> None)
      else if 0xE0 \<le> u8 b0 \<and> u8 b0 \<le> 0xEF then
        (case r of b1 # b2 # _ \<Rightarrow>
           if second_ok (u8 b0) b1 \<and> cont_byte b2 then Some 3 else None | _ \<Rightarrow> None)
      else if 0xF0 \<le> u8 b0 \<and> u8 b0 \<le> 0xF4 then
        (case r of b1 # b2 # b3 # _ \<Rightarrow>
           if second_ok (u8 b0) b1 \<and> cont_byte b2 \<and> cont_byte b3 then Some 4 else None
         | _ \<Rightarrow> None)
      else None)"

lemma char_len_bounds: "char_len bs = Some n \<Longrightarrow> 0 < n \<and> n \<le> 4 \<and> n \<le> length bs"
  by (cases bs) (auto split: if_splits list.splits)

lemma char_len_append: "char_len xs = Some n \<Longrightarrow> char_len (xs @ ys) = Some n"
  by (cases xs) (auto split: if_splits list.splits)

text \<open>\<^verbatim>\<open>str::from_utf8(bytes)\<close>: the error's \<^verbatim>\<open>valid_up_to\<close> is the longest valid prefix.\<close>

function valid_up_to :: "bytes \<Rightarrow> nat" where
  "valid_up_to bs = (case char_len bs of None \<Rightarrow> 0 | Some n \<Rightarrow> n + valid_up_to (drop n bs))"
  by pat_completeness auto
termination
  by (relation "measure length") (auto dest: char_len_bounds)

declare valid_up_to.simps [simp del]

definition is_utf8 :: "bytes \<Rightarrow> bool" where
  "is_utf8 bs \<longleftrightarrow> valid_up_to bs = length bs"

lemma valid_up_to_Nil [simp]: "valid_up_to [] = 0"
  by (simp add: valid_up_to.simps)

lemma valid_up_to_None: "char_len bs = None \<Longrightarrow> valid_up_to bs = 0"
  by (simp add: valid_up_to.simps)

lemma valid_up_to_Some: "char_len bs = Some n \<Longrightarrow> valid_up_to bs = n + valid_up_to (drop n bs)"
  by (simp add: valid_up_to.simps)

lemma valid_up_to_le: "valid_up_to bs \<le> length bs"
proof (induction bs rule: valid_up_to.induct)
  case (1 bs)
  show ?case
  proof (cases "char_len bs")
    case None
    then show ?thesis by (simp add: valid_up_to_None)
  next
    case (Some n)
    with 1 [OF Some] char_len_bounds [OF Some] show ?thesis
      unfolding valid_up_to_Some [OF Some] length_drop by linarith
  qed
qed

lemma is_utf8_Nil [simp]: "is_utf8 []"
  by (simp add: is_utf8_def)

lemma is_utf8_step: "char_len bs = Some n \<Longrightarrow> is_utf8 bs \<longleftrightarrow> is_utf8 (drop n bs)"
  using char_len_bounds [of bs n] by (auto simp: is_utf8_def valid_up_to_Some)

lemma is_utf8_bad: "char_len bs = None \<Longrightarrow> is_utf8 bs \<longleftrightarrow> bs = []"
  by (auto simp: is_utf8_def valid_up_to_None)

lemma is_utf8_append: "is_utf8 xs \<Longrightarrow> is_utf8 ys \<Longrightarrow> is_utf8 (xs @ ys)"
proof (induction xs rule: valid_up_to.induct)
  case (1 xs)
  show ?case
  proof (cases "char_len xs")
    case None
    with 1 show ?thesis by (simp add: is_utf8_bad)
  next
    case (Some n)
    with 1 char_len_bounds [OF Some] show ?thesis
      by (simp add: is_utf8_step [OF Some] is_utf8_step [OF char_len_append [OF Some]])
  qed
qed

lemma is_utf8_cancel: "is_utf8 xs \<Longrightarrow> is_utf8 (xs @ ys) \<longleftrightarrow> is_utf8 ys"
proof (induction xs rule: valid_up_to.induct)
  case (1 xs)
  show ?case
  proof (cases "char_len xs")
    case None
    with 1 show ?thesis by (simp add: is_utf8_bad)
  next
    case (Some n)
    with 1 char_len_bounds [OF Some] show ?thesis
      by (simp add: is_utf8_step [OF Some] is_utf8_step [OF char_len_append [OF Some]])
  qed
qed

lemma is_utf8_prefix: "is_utf8 (take (valid_up_to bs) bs)"
proof (induction bs rule: valid_up_to.induct)
  case (1 bs)
  show ?case
  proof (cases "char_len bs")
    case None
    then show ?thesis by (simp add: valid_up_to_None)
  next
    case (Some n)
    let ?r = "take (valid_up_to (drop n bs)) (drop n bs)"
    have eq: "take (valid_up_to bs) bs = take n bs @ ?r"
      by (simp add: valid_up_to_Some [OF Some] take_add)
    have "char_len (take n bs) = Some n"
      using Some by (cases bs) (auto split: if_splits list.splits)
    then have "is_utf8 (take n bs)"
      by (simp add: is_utf8_step)
    with 1 [OF Some] show ?thesis
      unfolding eq by (simp add: is_utf8_append)
  qed
qed

definition ascii_str :: "bytes \<Rightarrow> bool" where
  "ascii_str bs \<longleftrightarrow> list_all (\<lambda>b. u8 b < 128) bs"

lemma ascii_utf8: "ascii_str bs \<Longrightarrow> is_utf8 bs"
proof (induction bs)
  case Nil
  then show ?case by simp
next
  case (Cons b bs)
  then have "char_len (b # bs) = Some 1" by (simp add: ascii_str_def)
  with Cons show ?case by (simp add: is_utf8_step ascii_str_def)
qed

section \<open>The repository's lossy decoder\<close>

text \<open>U+FFFD in UTF-8.\<close>

definition repl :: bytes where "repl = [CHR 0xEF, CHR 0xBF, CHR 0xBD]"

lemma repl_utf8 [simp]: "is_utf8 repl"
proof -
  have "char_len repl = Some 3" by (simp add: repl_def second_ok_def cont_byte_def)
  then show ?thesis by (simp add: is_utf8_step) (simp add: repl_def)
qed

function utf8 :: "bytes \<Rightarrow> bytes" where
  "utf8 bs =
     (if bs = [] then []
      else if is_utf8 bs then bs
      else take (valid_up_to bs) bs @ repl @ utf8 (drop (valid_up_to bs + 1) bs))"
  by pat_completeness auto
termination
  by (relation "measure length") auto

declare utf8.simps [simp del]

lemma utf8_Nil [simp]: "utf8 [] = []"
  by (simp add: utf8.simps)

lemma utf8_valid [simp]: "is_utf8 bs \<Longrightarrow> utf8 bs = bs"
  by (simp add: utf8.simps)

lemma utf8_invalid:
  "\<not> is_utf8 bs \<Longrightarrow>
     utf8 bs = take (valid_up_to bs) bs @ repl @ utf8 (drop (valid_up_to bs + 1) bs)"
  by (subst utf8.simps) auto

lemma utf8_is_utf8 [simp]: "is_utf8 (utf8 bs)"
proof (induction bs rule: utf8.induct)
  case (1 bs)
  show ?case
  proof (cases "is_utf8 bs")
    case True
    then show ?thesis by simp
  next
    case False
    moreover from False have "bs \<noteq> []" by auto
    ultimately show ?thesis
      using 1 by (simp add: utf8_invalid is_utf8_append is_utf8_prefix)
  qed
qed

text \<open>Reference: one character at a time, every byte that starts none replaced.\<close>

function utf8_ref :: "bytes \<Rightarrow> bytes" where
  "utf8_ref bs =
     (if bs = [] then []
      else case char_len bs of
        None \<Rightarrow> repl @ utf8_ref (tl bs)
      | Some n \<Rightarrow> take n bs @ utf8_ref (drop n bs))"
  by pat_completeness auto
termination
  by (relation "measure length") (auto dest: char_len_bounds)

declare utf8_ref.simps [simp del]

lemma utf8_ref_Nil [simp]: "utf8_ref [] = []"
  by (simp add: utf8_ref.simps)

lemma utf8_char: "char_len bs = Some n \<Longrightarrow> utf8 bs = take n bs @ utf8 (drop n bs)"
proof -
  assume n: "char_len bs = Some n"
  from char_len_bounds [OF n] have le: "n \<le> length bs" by simp
  show ?thesis
  proof (cases "is_utf8 bs")
    case True
    with n show ?thesis by (simp add: is_utf8_step [OF n])
  next
    case False
    then have "\<not> is_utf8 (drop n bs)" by (simp add: is_utf8_step [OF n])
    with False show ?thesis
      by (simp add: utf8_invalid valid_up_to_Some [OF n] take_add add.commute)
  qed
qed

lemma utf8_bad: "char_len bs = None \<Longrightarrow> bs \<noteq> [] \<Longrightarrow> utf8 bs = repl @ utf8 (tl bs)"
  by (simp add: utf8_invalid is_utf8_bad valid_up_to_None drop_Suc)

lemma utf8_eq_ref: "utf8 bs = utf8_ref bs"
proof (induction bs rule: utf8_ref.induct)
  case (1 bs)
  show ?case
  proof (cases "char_len bs")
    case None
    with 1 show ?thesis by (cases "bs = []") (simp_all add: utf8_bad utf8_ref.simps [of bs])
  next
    case (Some n)
    then have "bs \<noteq> []" by auto
    with 1 Some show ?thesis by (simp add: utf8_char utf8_ref.simps [of bs])
  qed
qed

section \<open>Characters\<close>

text \<open>The code point of a well-formed character of \<open>n\<close> bytes.\<close>

definition decode_char :: "nat \<Rightarrow> bytes \<Rightarrow> nat" where
  "decode_char n bs =
     (case take n bs of
        [b0] \<Rightarrow> u8 b0
      | [b0, b1] \<Rightarrow> (u8 b0 - 0xC0) * 64 + (u8 b1 - 128)
      | [b0, b1, b2] \<Rightarrow> (u8 b0 - 0xE0) * 4096 + (u8 b1 - 128) * 64 + (u8 b2 - 128)
      | [b0, b1, b2, b3] \<Rightarrow>
          (u8 b0 - 0xF0) * 262144 + (u8 b1 - 128) * 4096 + (u8 b2 - 128) * 64 + (u8 b3 - 128)
      | _ \<Rightarrow> 0xFFFD)"

definition encode_char :: "nat \<Rightarrow> bytes" where
  "encode_char c =
     (if c < 0x80 then [char_of c]
      else if c < 0x800 then [char_of (0xC0 + c div 64), char_of (128 + c mod 64)]
      else if c < 0x10000 then
        [char_of (0xE0 + c div 4096), char_of (128 + c div 64 mod 64), char_of (128 + c mod 64)]
      else
        [char_of (0xF0 + c div 262144), char_of (128 + c div 4096 mod 64),
         char_of (128 + c div 64 mod 64), char_of (128 + c mod 64)])"

definition encode_chars :: "nat list \<Rightarrow> bytes" where
  "encode_chars cs = concat (map encode_char cs)"

text \<open>\<^verbatim>\<open>str::chars\<close> as a list of code points; a \<^verbatim>\<open>str\<close> is valid, so the other branch
  only makes the function total.\<close>

function chars :: "bytes \<Rightarrow> nat list" where
  "chars bs =
     (if bs = [] then []
      else case char_len bs of
        None \<Rightarrow> 0xFFFD # chars (tl bs)
      | Some n \<Rightarrow> decode_char n bs # chars (drop n bs))"
  by pat_completeness auto
termination
  by (relation "measure length") (auto dest: char_len_bounds)

declare chars.simps [simp del]

lemma chars_Nil [simp]: "chars [] = []"
  by (simp add: chars.simps)

lemma chars_Some: "char_len bs = Some n \<Longrightarrow> chars bs = decode_char n bs # chars (drop n bs)"
  by (cases "bs = []") (simp_all add: chars.simps [of bs])

definition scalar :: "nat \<Rightarrow> bool" where
  "scalar c \<longleftrightarrow> c < 0xD800 \<or> 0xE000 \<le> c \<and> c < 0x110000"

lemma encode_chars_simps [simp]:
  "encode_chars [] = []"
  "encode_chars (c # cs) = encode_char c @ encode_chars cs"
  by (simp_all add: encode_chars_def)

lemma encode_chars_append [simp]: "encode_chars (xs @ ys) = encode_chars xs @ encode_chars ys"
  by (induction xs) auto

lemma u8_add: "n + m < 256 \<Longrightarrow> u8 (char_of (n + m)) = n + m"
  by simp

lemma len2: "2 \<le> (x::nat) \<Longrightarrow> x < 32 \<Longrightarrow> (y::nat) < 64 \<Longrightarrow>
  char_len [char_of (0xC0 + x), char_of (128 + y)] = Some 2"
  by (simp add: u8_add cont_byte_def del: of_char_of)

lemma len3: "(x::nat) < 16 \<Longrightarrow> (y::nat) < 64 \<Longrightarrow> (z::nat) < 64 \<Longrightarrow> (x = 0 \<Longrightarrow> 32 \<le> y) \<Longrightarrow> (x = 13 \<Longrightarrow> y < 32) \<Longrightarrow>
  char_len [char_of (0xE0 + x), char_of (128 + y), char_of (128 + z)] = Some 3"
  by (auto simp: u8_add cont_byte_def second_ok_def simp del: of_char_of)

lemma len4: "(x::nat) < 5 \<Longrightarrow> (y::nat) < 64 \<Longrightarrow> (z::nat) < 64 \<Longrightarrow> (w::nat) < 64 \<Longrightarrow> (x = 0 \<Longrightarrow> 16 \<le> y) \<Longrightarrow> (x = 4 \<Longrightarrow> y < 16) \<Longrightarrow>
  char_len [char_of (0xF0 + x), char_of (128 + y), char_of (128 + z), char_of (128 + w)] = Some 4"
  by (auto simp: u8_add cont_byte_def second_ok_def simp del: of_char_of)

lemma digits3: "(c::nat) = c div 4096 * 4096 + c div 64 mod 64 * 64 + c mod 64"
proof -
  have "c div 4096 = c div 64 div 64" by (simp add: div_mult2_eq [symmetric])
  moreover have "c div 64 = c div 64 div 64 * 64 + c div 64 mod 64" by simp
  moreover have "c = c div 64 * 64 + c mod 64" by simp
  ultimately show ?thesis by linarith
qed

lemma digits4:
  "(c::nat) = c div 262144 * 262144 + c div 4096 mod 64 * 4096 + c div 64 mod 64 * 64 + c mod 64"
proof -
  have "c div 262144 = c div 4096 div 64" by (simp add: div_mult2_eq [symmetric])
  moreover have "c div 4096 = c div 4096 div 64 * 64 + c div 4096 mod 64" by simp
  ultimately show ?thesis using digits3 [of c] by linarith
qed

lemma encode_cases:
  obtains "c < 0x80" "encode_char c = [char_of c]"
  | x y where "2 \<le> x" "x < 32" "y < 64" "c = x * 64 + y"
      "encode_char c = [char_of (0xC0 + x), char_of (128 + y)]"
  | x y z where "x < 16" "y < 64" "z < 64" "c = x * 4096 + y * 64 + z" "x = 0 \<Longrightarrow> 32 \<le> y"
      "encode_char c = [char_of (0xE0 + x), char_of (128 + y), char_of (128 + z)]"
  | x y z w where "y < 64" "z < 64" "w < 64"
      "c = x * 262144 + y * 4096 + z * 64 + w" "x = 0 \<Longrightarrow> 16 \<le> y"
      "encode_char c = [char_of (0xF0 + x), char_of (128 + y), char_of (128 + z), char_of (128 + w)]"
proof -
  consider "c < 0x80" | "0x80 \<le> c" "c < 0x800" | "0x800 \<le> c" "c < 0x10000" | "0x10000 \<le> c"
    by linarith
  then show thesis
  proof cases
    case 1
    with that(1) show thesis by (simp add: encode_char_def)
  next
    case 2
    show thesis
      by (rule that(2) [of "c div 64" "c mod 64"]) (use 2 in \<open>auto simp: encode_char_def\<close>)
  next
    case 3
    have "c div 4096 = 0 \<Longrightarrow> 32 \<le> c div 64 mod 64"
      using 3 digits3 [of c] mod_less_divisor [of 64 c] by linarith
    with 3 digits3 [of c] show thesis
      by (intro that(3) [of "c div 4096" "c div 64 mod 64" "c mod 64"]) (simp_all add: encode_char_def)
  next
    case 4
    have "c div 262144 = 0 \<Longrightarrow> 16 \<le> c div 4096 mod 64"
      using 4 digits4 [of c] mod_less_divisor [of 64 c] mod_less_divisor [of 64 "c div 64"]
      by linarith
    with 4 digits4 [of c] show thesis
      by (intro that(4) [of "c div 4096 mod 64" "c div 64 mod 64" "c mod 64" "c div 262144"])
        (simp_all add: encode_char_def)
  qed
qed

lemma char_len_encode: "scalar c \<Longrightarrow> char_len (encode_char c) = Some (length (encode_char c))"
proof (cases c rule: encode_cases)
  case 1
  then show ?thesis by simp
next
  case (2 x y)
  then show ?thesis by (simp add: len2 del: char_len.simps)
next
  case (3 x y z)
  assume "scalar c"
  with 3 have "x = 13 \<Longrightarrow> y < 32" by (auto simp: scalar_def)
  with 3 show ?thesis by (simp add: len3 del: char_len.simps)
next
  case (4 x y z w)
  assume "scalar c"
  with 4 have "x < 5" "x = 4 \<Longrightarrow> y < 16" by (auto simp: scalar_def)
  with 4 show ?thesis by (simp add: len4 del: char_len.simps)
qed

lemma decode_encode: "scalar c \<Longrightarrow> decode_char (length (encode_char c)) (encode_char c @ r) = c"
proof (cases c rule: encode_cases)
  case 1
  then show ?thesis by (simp add: decode_char_def)
next
  case (2 x y)
  then show ?thesis by (simp add: u8_add decode_char_def del: of_char_of)
next
  case (3 x y z)
  then show ?thesis by (simp add: u8_add decode_char_def del: of_char_of)
next
  case (4 x y z w)
  assume "scalar c"
  with 4 have "x < 5" by (auto simp: scalar_def)
  with 4 show ?thesis by (simp add: u8_add decode_char_def del: of_char_of)
qed

lemma encode_char_ne [simp]: "encode_char c \<noteq> []"
  by (simp add: encode_char_def)

lemma chars_encode_char: "scalar c \<Longrightarrow> chars (encode_char c @ r) = c # chars r"
  using char_len_append [OF char_len_encode, of c r]
  by (simp add: chars_Some decode_encode)

lemma chars_encode: "list_all scalar cs \<Longrightarrow> chars (encode_chars cs) = cs"
  by (induction cs) (auto simp: chars_encode_char)

lemma encode_utf8: "list_all scalar cs \<Longrightarrow> is_utf8 (encode_chars cs)"
proof (induction cs)
  case Nil
  then show ?case by simp
next
  case (Cons c cs)
  then have "is_utf8 (encode_char c)"
    by (simp add: is_utf8_step [OF char_len_encode])
  with Cons show ?case by (simp add: is_utf8_append)
qed

end
