(* ===== verification/Strings.thy ===== *)
theory Strings
  imports Utf8
begin

text \<open>
  String operations: the standard-library calls the tag code makes (\<^verbatim>\<open>trim\<close>,
  \<^verbatim>\<open>parse::<i64>\<close>, \<^verbatim>\<open>to_string\<close>, \<^verbatim>\<open>from_utf8_lossy\<close>, ASCII case folding) and the Go-compatible
  case mapping of rust\_backend/crates/core/src/matching.rs.  The Unicode case tables of the
  toolchain are the parameter \<open>case_tables\<close>; ASCII is computed.
\<close>

section \<open>Trimming\<close>

text \<open>\<^verbatim>\<open>char::is_whitespace\<close>: the Unicode property \<^verbatim>\<open>White_Space\<close>.\<close>

definition is_white :: "nat \<Rightarrow> bool" where
  "is_white c \<longleftrightarrow> 9 \<le> c \<and> c \<le> 13 \<or> c = 0x20 \<or> c = 0x85 \<or> c = 0xA0 \<or> c = 0x1680 \<or>
     0x2000 \<le> c \<and> c \<le> 0x200A \<or> c = 0x2028 \<or> c = 0x2029 \<or> c = 0x202F \<or> c = 0x205F \<or> c = 0x3000"

definition trim_list :: "('a \<Rightarrow> bool) \<Rightarrow> 'a list \<Rightarrow> 'a list" where
  "trim_list p xs = rev (dropWhile p (rev (dropWhile p xs)))"

definition trim :: "bytes \<Rightarrow> bytes" where
  "trim s = encode_chars (trim_list is_white (chars s))"

text \<open>\<^verbatim>\<open>trim_end_matches\<close> with ASCII characters works byte by byte.\<close>

definition trim_end_bytes :: "(byte \<Rightarrow> bool) \<Rightarrow> bytes \<Rightarrow> bytes" where
  "trim_end_bytes p s = rev (dropWhile p (rev s))"

lemma trim_list_Nil [simp]: "trim_list p [] = []"
  by (simp add: trim_list_def)

lemma trim_list_id: "xs = [] \<or> \<not> p (hd xs) \<and> \<not> p (last xs) \<Longrightarrow> trim_list p xs = xs"
  by (cases "xs = []") (simp_all add: trim_list_def dropWhile_eq_self_iff [THEN iffD2] hd_rev)

lemma trim_list_idem [simp]: "trim_list p (trim_list p xs) = trim_list p xs"
proof -
  let ?ys = "dropWhile p (rev (dropWhile p xs))"
  have "?ys = [] \<or> \<not> p (hd (rev ?ys)) \<and> \<not> p (last (rev ?ys))"
  proof (cases "?ys = []")
    case False
    then have ne: "dropWhile p xs \<noteq> []" by (metis dropWhile.simps(1) rev.simps(1))
    have "last ?ys = last (rev (dropWhile p xs))"
      using False by (metis last_appendR takeWhile_dropWhile_id)
    also have "\<dots> = hd (dropWhile p xs)" using ne by (simp add: last_rev)
    finally have "\<not> p (last ?ys)" using hd_dropWhile [OF ne] by simp
    moreover have "\<not> p (hd ?ys)" using False by (rule hd_dropWhile)
    ultimately show ?thesis using False by (simp add: hd_rev last_rev)
  next
    case True
    then show ?thesis by simp
  qed
  then show ?thesis
    by (intro trim_list_id) (auto simp: trim_list_def)
qed

lemma set_trim_list: "set (trim_list p xs) \<subseteq> set xs"
  unfolding trim_list_def by (metis order_trans set_dropWhileD set_rev subsetI)

lemma trim_Nil [simp]: "trim [] = []"
  by (simp add: trim_def)

lemma chars_ascii: "ascii_str s \<Longrightarrow> chars s = map of_char s"
proof (induction s)
  case Nil
  then show ?case by simp
next
  case (Cons b s)
  then have "char_len (b # s) = Some 1" by (simp add: ascii_str_def)
  with Cons show ?case by (simp add: chars_Some decode_char_def ascii_str_def)
qed

lemma encode_ascii: "ascii_str s \<Longrightarrow> encode_chars (map of_char s) = s"
  by (induction s) (auto simp: ascii_str_def encode_char_def)

lemma trim_ascii: "ascii_str s \<Longrightarrow> trim s = trim_list (\<lambda>b. is_white (u8 b)) s"
proof -
  assume s: "ascii_str s"
  have "trim_list is_white (map of_char s) = map of_char (trim_list (\<lambda>b. is_white (u8 b)) s)"
    by (simp add: trim_list_def rev_map dropWhile_map o_def)
  moreover have "ascii_str (trim_list (\<lambda>b. is_white (u8 b)) s)"
    using s set_trim_list [of "\<lambda>b. is_white (u8 b)" s] by (auto simp: ascii_str_def list_all_iff)
  ultimately show ?thesis using s by (simp add: trim_def chars_ascii encode_ascii)
qed

section \<open>ASCII case\<close>

definition ascii_lower :: "byte \<Rightarrow> byte" where
  "ascii_lower b = (if 65 \<le> u8 b \<and> u8 b \<le> 90 then char_of (u8 b + 32) else b)"

definition ascii_upper :: "byte \<Rightarrow> byte" where
  "ascii_upper b = (if 97 \<le> u8 b \<and> u8 b \<le> 122 then char_of (u8 b - 32) else b)"

definition eq_ignore_ascii_case :: "bytes \<Rightarrow> bytes \<Rightarrow> bool" where
  "eq_ignore_ascii_case a b \<longleftrightarrow> map ascii_lower a = map ascii_lower b"

section \<open>Go-compatible case mapping\<close>

text \<open>\<^verbatim>\<open>char::to_lowercase\<close> and \<^verbatim>\<open>char::to_uppercase\<close> beyond ASCII.\<close>

record case_tables =
  to_lower :: "nat \<Rightarrow> nat list"
  to_upper :: "nat \<Rightarrow> nat list"

definition char_to_lowercase :: "case_tables \<Rightarrow> nat \<Rightarrow> nat list" where
  "char_to_lowercase T c =
     (if c < 128 then [u8 (ascii_lower (char_of c))] else to_lower T c)"

definition char_to_uppercase :: "case_tables \<Rightarrow> nat \<Rightarrow> nat list" where
  "char_to_uppercase T c =
     (if c < 128 then [u8 (ascii_upper (char_of c))] else to_upper T c)"

definition lower_char :: "case_tables \<Rightarrow> nat \<Rightarrow> nat" where
  "lower_char T c =
     (if c \<in> {0x1C89, 0xA7CB, 0xA7CC, 0xA7CE, 0xA7D2, 0xA7D4, 0xA7DA, 0xA7DC} \<or>
         0x10D50 \<le> c \<and> c \<le> 0x10D65 \<or> 0x16EA0 \<le> c \<and> c \<le> 0x16EB8 then c
      else hd (char_to_lowercase T c))"

definition lowercase :: "case_tables \<Rightarrow> bytes \<Rightarrow> bytes" where
  "lowercase T s = encode_chars (map (lower_char T) (chars s))"

definition upper_char :: "case_tables \<Rightarrow> nat \<Rightarrow> nat" where
  "upper_char T c =
     (if c \<in> {0x19B, 0x264, 0x1C8A, 0xA7CD, 0xA7CF, 0xA7D3, 0xA7D5, 0xA7DB} \<or>
         0x10D70 \<le> c \<and> c \<le> 0x10D85 \<or> 0x16EBB \<le> c \<and> c \<le> 0x16ED3 then c
      else if 0x1F80 \<le> c \<and> c \<le> 0x1F87 \<or> 0x1F90 \<le> c \<and> c \<le> 0x1F97 \<or> 0x1FA0 \<le> c \<and> c \<le> 0x1FA7
        then c + 8
      else if c = 0x1FB3 then 0x1FBC
      else if c = 0x1FC3 then 0x1FCC
      else if c = 0x1FF3 then 0x1FFC
      else case char_to_uppercase T c of [u] \<Rightarrow> u | _ \<Rightarrow> c)"

definition uppercase :: "case_tables \<Rightarrow> bytes \<Rightarrow> bytes" where
  "uppercase T s = encode_chars (map (upper_char T) (chars s))"

lemma u8_ascii_upper: "u8 b < 128 \<Longrightarrow> u8 (ascii_upper b) < 128"
  by (auto simp: ascii_upper_def intro: le_less_trans [OF diff_le_self])

lemma u8_ascii_lower: "u8 b < 128 \<Longrightarrow> u8 (ascii_lower b) < 128"
  by (simp add: ascii_lower_def)

lemma upper_char_ascii: "u8 b < 128 \<Longrightarrow> upper_char T (u8 b) = u8 (ascii_upper b)"
  by (simp add: upper_char_def char_to_uppercase_def)

lemma lower_char_ascii: "u8 b < 128 \<Longrightarrow> lower_char T (u8 b) = u8 (ascii_lower b)"
  by (simp add: lower_char_def char_to_lowercase_def)

lemma uppercase_ascii: "ascii_str s \<Longrightarrow> uppercase T s = map ascii_upper s"
proof -
  assume s: "ascii_str s"
  have "map (upper_char T) (chars s) = map of_char (map ascii_upper s)"
    using s by (auto simp: chars_ascii ascii_str_def list_all_iff upper_char_ascii)
  moreover have "ascii_str (map ascii_upper s)"
    using s by (auto simp: ascii_str_def list_all_iff u8_ascii_upper)
  ultimately show ?thesis by (simp only: uppercase_def encode_ascii)
qed

lemma lowercase_ascii: "ascii_str s \<Longrightarrow> lowercase T s = map ascii_lower s"
proof -
  assume s: "ascii_str s"
  have "map (lower_char T) (chars s) = map of_char (map ascii_lower s)"
    using s by (auto simp: chars_ascii ascii_str_def list_all_iff lower_char_ascii)
  moreover have "ascii_str (map ascii_lower s)"
    using s by (auto simp: ascii_str_def list_all_iff u8_ascii_lower)
  ultimately show ?thesis by (simp only: lowercase_def encode_ascii)
qed

section \<open>Case mapping of strings\<close>

text \<open>\<^verbatim>\<open>str::to_uppercase\<close>, and \<^verbatim>\<open>str::to_lowercase\<close> with its rule for the final sigma.\<close>

definition str_upper :: "case_tables \<Rightarrow> bytes \<Rightarrow> bytes" where
  "str_upper T s = encode_chars (concat (map (char_to_uppercase T) (chars s)))"

definition str_lower :: "case_tables \<Rightarrow> (nat list \<Rightarrow> nat \<Rightarrow> bool) \<Rightarrow> bytes \<Rightarrow> bytes" where
  "str_lower T final_sigma s =
     (let cs = chars s
      in encode_chars (concat (map (\<lambda>i. if cs ! i = 0x3A3 then [if final_sigma cs i then 0x3C2 else 0x3C3]
           else char_to_lowercase T (cs ! i)) [0..<length cs])))"

lemma str_upper_ascii:
  assumes "ascii_str s"
  shows "str_upper T s = map ascii_upper s"
proof -
  have "concat (map (char_to_uppercase T) (map of_char s)) = map of_char (map ascii_upper s)"
    using assms by (induction s) (simp_all add: ascii_str_def char_to_uppercase_def)
  then have "concat (map (char_to_uppercase T) (chars s)) = map of_char (map ascii_upper s)"
    using assms by (simp only: chars_ascii)
  moreover have "ascii_str (map ascii_upper s)"
    using assms by (auto simp: ascii_str_def list_all_iff u8_ascii_upper)
  ultimately show ?thesis by (simp only: str_upper_def encode_ascii)
qed

lemma str_lower_ascii:
  assumes "ascii_str s"
  shows "str_lower T sigma s = map ascii_lower s"
proof -
  let ?cs = "map of_char s :: nat list"
  have "map (\<lambda>i. if ?cs ! i = 0x3A3 then [if sigma ?cs i then 0x3C2 else 0x3C3] else char_to_lowercase T (?cs ! i)) [0..<length ?cs] =
      map (\<lambda>c. [u8 (ascii_lower c)]) s"
    (is "?l = ?r")
  proof (rule nth_equalityI)
    fix i
    assume "i < length ?l"
    then have i: "i < length s" by simp
    then have "u8 (s ! i) < 128" using assms by (simp add: ascii_str_def list_all_length)
    then show "?l ! i = ?r ! i" using i by (simp add: char_to_lowercase_def)
  qed simp
  then have "str_lower T sigma s = encode_chars (concat (map (\<lambda>c. [u8 (ascii_lower c)]) s))"
    using chars_ascii [OF assms] by (simp only: str_lower_def Let_def length_map)
  also have "\<dots> = encode_chars (map of_char (map ascii_lower s))"
    by (simp add: concat_map_singleton o_def)
  also have "\<dots> = map ascii_lower s"
    using assms by (intro encode_ascii) (auto simp: ascii_str_def list_all_iff u8_ascii_lower)
  finally show ?thesis .
qed

section \<open>Hexadecimal digits, joining\<close>

text \<open>\<^verbatim>\<open>char::to_digit(16)\<close>\<close>

definition hex_value :: "byte \<Rightarrow> nat option" where
  "hex_value b =
     (if 48 \<le> u8 b \<and> u8 b \<le> 57 then Some (u8 b - 48)
      else if 65 \<le> u8 b \<and> u8 b \<le> 70 then Some (u8 b - 55)
      else if 97 \<le> u8 b \<and> u8 b \<le> 102 then Some (u8 b - 87)
      else None)"

fun join :: "bytes \<Rightarrow> bytes list \<Rightarrow> bytes" where
  "join sep [] = []"
| "join sep [v] = v"
| "join sep (v # vs) = v @ sep @ join sep vs"

section \<open>Integers in decimal\<close>

datatype int_error = EmptyInt | InvalidDigit | PosOverflow | NegOverflow

definition is_digit :: "byte \<Rightarrow> bool" where
  "is_digit b \<longleftrightarrow> 48 \<le> u8 b \<and> u8 b \<le> 57"

fun parse_digits :: "bool \<Rightarrow> int \<Rightarrow> int \<Rightarrow> int \<Rightarrow> bytes \<Rightarrow> int_error + int" where
  "parse_digits neg lo hi acc [] = Inr acc"
| "parse_digits neg lo hi acc (c # cs) =
     (if \<not> is_digit c then Inl InvalidDigit
      else let overflow = (if neg then NegOverflow else PosOverflow);
               a = acc * 10;
               a' = (if neg then a - int (u8 c - 48) else a + int (u8 c - 48))
           in if a < lo \<or> hi < a \<or> a' < lo \<or> hi < a' then Inl overflow
              else parse_digits neg lo hi a' cs)"

text \<open>\<^verbatim>\<open>str::parse\<close> for an integer type with the range \<open>lo\<close> to \<open>hi\<close>.\<close>

definition parse_int :: "int \<Rightarrow> int \<Rightarrow> bytes \<Rightarrow> int_error + int" where
  "parse_int lo hi s =
     (case s of
        [] \<Rightarrow> Inl EmptyInt
      | c # cs \<Rightarrow>
          if cs = [] \<and> (c = CHR ''+'' \<or> c = CHR ''-'') then Inl InvalidDigit
          else if c = CHR ''+'' then parse_digits False lo hi 0 cs
          else if c = CHR ''-'' \<and> lo < 0 then parse_digits True lo hi 0 cs
          else parse_digits False lo hi 0 s)"

definition i64_min :: int where "i64_min = - (2 ^ 63)"
definition i64_max :: int where "i64_max = 2 ^ 63 - 1"

text \<open>Two's-complement wrap-around.\<close>

definition wrap_i64 :: "int \<Rightarrow> int" where
  "wrap_i64 x = (x + 2 ^ 63) mod 2 ^ 64 - 2 ^ 63"

lemma wrap_i64_id: "i64_min \<le> x \<Longrightarrow> x \<le> i64_max \<Longrightarrow> wrap_i64 x = x"
  by (simp add: wrap_i64_def i64_min_def i64_max_def)

abbreviation parse_i64 :: "bytes \<Rightarrow> int_error + int" where
  "parse_i64 \<equiv> parse_int i64_min i64_max"

definition unwrap_or :: "'e + 'a \<Rightarrow> 'a \<Rightarrow> 'a" where
  "unwrap_or r d = (case r of Inl _ \<Rightarrow> d | Inr x \<Rightarrow> x)"

fun show_nat :: "nat \<Rightarrow> bytes" where
  "show_nat n = (if n < 10 then [char_of (48 + n)] else show_nat (n div 10) @ [char_of (48 + n mod 10)])"

declare show_nat.simps [simp del]

definition show_int :: "int \<Rightarrow> bytes" where
  "show_int i = (if i < 0 then CHR ''-'' # show_nat (nat (- i)) else show_nat (nat i))"

lemma show_nat_digits: "list_all is_digit (show_nat n)"
proof (induction n rule: show_nat.induct)
  case (1 n)
  show ?case
  proof (cases "n < 10")
    case True
    then show ?thesis by (simp add: show_nat.simps [of n] is_digit_def)
  next
    case False
    have "n mod 10 < 10" by simp
    then have "is_digit (char_of (48 + n mod 10))" by (simp add: is_digit_def)
    with False 1 show ?thesis by (simp add: show_nat.simps [of n])
  qed
qed

lemma show_nat_ne [simp]: "show_nat n \<noteq> []"
  by (simp add: show_nat.simps)

lemma parse_digits_append:
  "parse_digits neg lo hi acc (xs @ ys) =
     (case parse_digits neg lo hi acc xs of Inl e \<Rightarrow> Inl e | Inr a \<Rightarrow> parse_digits neg lo hi a ys)"
  by (induction xs arbitrary: acc) (auto simp: Let_def)

lemma parse_show_nat: "int n \<le> hi \<Longrightarrow> lo \<le> 0 \<Longrightarrow> parse_digits False lo hi 0 (show_nat n) = Inr (int n)"
proof (induction n rule: show_nat.induct)
  case (1 n)
  show ?case
  proof (cases "n < 10")
    case True
    with 1 show ?thesis by (simp add: show_nat.simps [of n] is_digit_def Let_def)
  next
    case False
    have m: "n mod 10 < 10" by simp
    have n: "int (n div 10) * 10 + int (n mod 10) = int n"
      using div_mult_mod_eq [of n 10] by (metis of_nat_add of_nat_mult of_nat_numeral)
    with 1 False have "parse_digits False lo hi 0 (show_nat (n div 10)) = Inr (int (n div 10))"
      by simp
    moreover have "is_digit (char_of (48 + n mod 10))" using m by (simp add: is_digit_def)
    moreover have "int (n div 10) * 10 \<le> hi" "int (n div 10) * 10 + int (n mod 10) \<le> hi"
      using n 1 by linarith+
    ultimately show ?thesis
      using False m n "1.prems" by (simp add: show_nat.simps [of n] parse_digits_append Let_def)
  qed
qed

lemma parse_show_nat_i64: "int n \<le> i64_max \<Longrightarrow> parse_i64 (show_nat n) = Inr (int n)"
proof -
  assume n: "int n \<le> i64_max"
  obtain c cs where s: "show_nat n = c # cs" by (cases "show_nat n") auto
  have "is_digit c" using show_nat_digits [of n] s by simp
  then have "c \<noteq> CHR ''+''" "c \<noteq> CHR ''-''" by (auto simp: is_digit_def)
  moreover have "parse_digits False i64_min i64_max 0 (show_nat n) = Inr (int n)"
    by (rule parse_show_nat) (use n in \<open>auto simp: i64_min_def\<close>)
  ultimately show ?thesis by (simp add: parse_int_def s)
qed

lemma parse_digits_range: "parse_digits neg lo hi acc s = Inr x \<Longrightarrow> lo \<le> acc \<Longrightarrow> acc \<le> hi \<Longrightarrow> lo \<le> x \<and> x \<le> hi"
proof (induction s arbitrary: acc)
  case (Cons c s)
  from Cons.prems(1) obtain a' where "parse_digits neg lo hi a' s = Inr x" "lo \<le> a'" "a' \<le> hi"
    by (auto simp: Let_def not_less split: if_splits)
  then show ?case by (rule Cons.IH)
qed auto

lemma parse_i64_range: "parse_i64 s = Inr x \<Longrightarrow> i64_min \<le> x \<and> x \<le> i64_max"
proof -
  assume "parse_i64 s = Inr x"
  then obtain neg r where "parse_digits neg i64_min i64_max 0 r = Inr x"
    by (cases s) (auto simp: parse_int_def simp del: parse_digits.simps split: if_splits)
  then show ?thesis by (rule parse_digits_range) (simp_all add: i64_min_def i64_max_def)
qed

lemma ascii_digits: "list_all is_digit s \<Longrightarrow> ascii_str s"
  by (auto simp: ascii_str_def list_all_iff is_digit_def)

lemma trim_digits: "list_all is_digit s \<Longrightarrow> trim s = s"
proof -
  assume s: "list_all is_digit s"
  have "\<not> is_white (u8 b)" if "b \<in> set s" for b
    using s that by (auto simp: list_all_iff is_digit_def is_white_def)
  then have "s = [] \<or> \<not> is_white (u8 (hd s)) \<and> \<not> is_white (u8 (last s))"
    by (cases "s = []") auto
  then show ?thesis by (simp add: trim_ascii [OF ascii_digits [OF s]] trim_list_id)
qed

section \<open>The standard lossy decoder\<close>

text \<open>
  \<^verbatim>\<open>String::from_utf8_lossy\<close> replaces each maximal prefix of an ill-formed sequence
  once, unlike \<^const>\<open>utf8\<close>.
\<close>

definition bad_len :: "bytes \<Rightarrow> nat" where
  "bad_len bs =
     (case bs of
        [] \<Rightarrow> 0
      | [b0] \<Rightarrow> 1
      | b0 # b1 # r \<Rightarrow>
          if 0xE0 \<le> u8 b0 \<and> u8 b0 \<le> 0xF4 \<and> second_ok (u8 b0) b1 then
            (if u8 b0 \<le> 0xEF then 2
             else case r of [] \<Rightarrow> 2 | b2 # _ \<Rightarrow> if cont_byte b2 then 3 else 2)
          else 1)"

lemma bad_len_pos: "bs \<noteq> [] \<Longrightarrow> 0 < bad_len bs"
  by (auto simp: bad_len_def split: list.splits)

function from_utf8_lossy :: "bytes \<Rightarrow> bytes" where
  "from_utf8_lossy bs =
     (if bs = [] then []
      else case char_len bs of
        None \<Rightarrow> repl @ from_utf8_lossy (drop (bad_len bs) bs)
      | Some n \<Rightarrow> take n bs @ from_utf8_lossy (drop n bs))"
  by pat_completeness auto
termination
  by (relation "measure length") (auto dest: char_len_bounds simp: bad_len_pos)

declare from_utf8_lossy.simps [simp del]

lemma from_utf8_lossy_valid: "is_utf8 bs \<Longrightarrow> from_utf8_lossy bs = bs"
proof (induction bs rule: from_utf8_lossy.induct)
  case (1 bs)
  show ?case
  proof (cases "char_len bs")
    case None
    with 1 have "bs = []" by (simp add: is_utf8_bad)
    then show ?thesis by (simp add: from_utf8_lossy.simps)
  next
    case (Some n)
    then have "bs \<noteq> []" by auto
    with 1 Some show ?thesis by (simp add: is_utf8_step from_utf8_lossy.simps [of bs])
  qed
qed

lemma char_len_take: "char_len bs = Some n \<Longrightarrow> is_utf8 (take n bs)"
proof -
  assume n: "char_len bs = Some n"
  then have "char_len (take n bs) = Some n"
    by (cases bs) (auto split: if_splits list.splits)
  then show ?thesis by (simp add: is_utf8_step)
qed

lemma from_utf8_lossy_Nil [simp]: "from_utf8_lossy [] = []"
  by (simp add: from_utf8_lossy.simps)

lemma from_utf8_lossy_utf8: "is_utf8 (from_utf8_lossy bs)"
proof (induction bs rule: from_utf8_lossy.induct)
  case (1 bs)
  then show ?case
    by (cases "bs = []"; cases "char_len bs")
      (simp_all add: from_utf8_lossy.simps [of bs] is_utf8_append char_len_take)
qed

lemma from_utf8_lossy_set: "c \<in> set (from_utf8_lossy bs) \<Longrightarrow> c \<in> set bs \<or> c \<in> set repl"
proof (induction bs rule: from_utf8_lossy.induct)
  case (1 bs)
  show ?case
  proof (cases "bs = []")
    case False
    then show ?thesis
      using 1 by (cases "char_len bs") (auto simp: from_utf8_lossy.simps [of bs] dest: in_set_takeD in_set_dropD)
  qed (use 1 in \<open>simp add: from_utf8_lossy.simps [of bs]\<close>)
qed

end
