(* ===== verification/BTree.thy ===== *)
theory BTree
  imports Prelude "HOL-Library.List_Lexorder" "HOL-Library.Char_ord"
begin

text \<open>
  The standard library's \<^verbatim>\<open>BTreeMap<String, V>\<close> as an association list sorted by key, so
  that iteration order is part of the model, and the interface its users rely on as a locale.
\<close>

type_synonym ('k, 'v) btree = "('k \<times> 'v) list"

abbreviation bt_get :: "('k::linorder, 'v) btree \<Rightarrow> 'k \<Rightarrow> 'v option" where
  "bt_get \<equiv> map_of"

fun bt_insert :: "'k::linorder \<Rightarrow> 'v \<Rightarrow> ('k, 'v) btree \<Rightarrow> ('k, 'v) btree" where
  "bt_insert k v [] = [(k, v)]"
| "bt_insert k v ((k', v') # m) =
     (if k < k' then (k, v) # (k', v') # m
      else if k = k' then (k, v) # m
      else (k', v') # bt_insert k v m)"

definition bt_remove :: "'k::linorder \<Rightarrow> ('k, 'v) btree \<Rightarrow> ('k, 'v) btree" where
  "bt_remove k m = filter (\<lambda>(k', _). k' \<noteq> k) m"

definition bt_keys :: "('k::linorder, 'v) btree \<Rightarrow> 'k list" where
  "bt_keys m = map fst m"

definition bt_ok :: "('k::linorder, 'v) btree \<Rightarrow> bool" where
  "bt_ok m \<longleftrightarrow> sorted_wrt (<) (map fst m)"

text \<open>\<^verbatim>\<open>retain\<close>\<close>

definition bt_retain :: "('k \<Rightarrow> 'v \<Rightarrow> bool) \<Rightarrow> ('k::linorder, 'v) btree \<Rightarrow> ('k, 'v) btree" where
  "bt_retain p m = filter (\<lambda>(k, v). p k v) m"

section \<open>The interface\<close>

locale ordered_map =
  fixes empty :: "'m"
    and lookup :: "'m \<Rightarrow> 'k::linorder \<Rightarrow> 'v option"
    and insert :: "'k \<Rightarrow> 'v \<Rightarrow> 'm \<Rightarrow> 'm"
    and delete :: "'k \<Rightarrow> 'm \<Rightarrow> 'm"
    and keys :: "'m \<Rightarrow> 'k list"
    and inv :: "'m \<Rightarrow> bool"
  assumes lookup_empty: "lookup empty k = None"
    and lookup_insert: "inv m \<Longrightarrow> lookup (insert k v m) k' = (if k' = k then Some v else lookup m k')"
    and lookup_delete: "inv m \<Longrightarrow> lookup (delete k m) k' = (if k' = k then None else lookup m k')"
    and keys_lookup: "inv m \<Longrightarrow> k \<in> set (keys m) \<longleftrightarrow> lookup m k \<noteq> None"
    and keys_sorted: "inv m \<Longrightarrow> sorted_wrt (<) (keys m)"
    and inv_empty: "inv empty"
    and inv_insert: "inv m \<Longrightarrow> inv (insert k v m)"
    and inv_delete: "inv m \<Longrightarrow> inv (delete k m)"
begin

lemma keys_distinct: "inv m \<Longrightarrow> distinct (keys m)"
  using keys_sorted [of m] by (simp add: strict_sorted_iff)

lemma keys_insert: "inv m \<Longrightarrow> set (keys (insert k v m)) = {k} \<union> set (keys m)"
  by (auto simp: keys_lookup inv_insert lookup_insert split: if_splits)

lemma keys_delete: "inv m \<Longrightarrow> set (keys (delete k m)) = set (keys m) - {k}"
  by (auto simp: keys_lookup inv_delete lookup_delete split: if_splits)

lemma insert_then_delete:
  "inv m \<Longrightarrow> lookup m k = None \<Longrightarrow> lookup (delete k (insert k v m)) k' = lookup m k'"
  by (simp add: inv_insert lookup_delete lookup_insert)

text \<open>The keys are determined by what is looked up: two maps agree on their iteration order.\<close>

lemma keys_unique:
  assumes "inv m" and "inv m'" and "\<And>k. lookup m k = None \<longleftrightarrow> lookup m' k = None"
  shows "keys m = keys m'"
proof (rule sorted_distinct_set_unique)
  show "sorted (keys m)" "sorted (keys m')"
    using keys_sorted assms by (auto simp: strict_sorted_iff)
  show "distinct (keys m)" "distinct (keys m')"
    using keys_distinct assms by auto
  show "set (keys m) = set (keys m')"
    using keys_lookup assms by blast
qed

end

section \<open>The sorted association list provides it\<close>

lemma fst_bt_insert: "fst ` set (bt_insert k v m) = {k} \<union> fst ` set m"
  by (induction k v m rule: bt_insert.induct) auto

lemma bt_ok_Cons: "bt_ok ((k, v) # m) \<longleftrightarrow> (\<forall>k' \<in> fst ` set m. k < k') \<and> bt_ok m"
  by (auto simp: bt_ok_def)

lemma bt_ok_insert: "bt_ok m \<Longrightarrow> bt_ok (bt_insert k v m)"
proof (induction m)
  case Nil
  then show ?case by (simp add: bt_ok_def)
next
  case (Cons p m)
  obtain k' v' where p: "p = (k', v')" by (cases p)
  from Cons show ?case
    by (auto simp: p bt_ok_Cons fst_bt_insert simp del: bt_insert.simps(1))
qed

lemma bt_get_insert: "bt_ok m \<Longrightarrow> bt_get (bt_insert k v m) k' = (if k' = k then Some v else bt_get m k')"
  by (induction m) (auto simp: bt_ok_Cons)

lemma bt_get_remove: "bt_get (bt_remove k m) k' = (if k' = k then None else bt_get m k')"
  by (induction m) (auto simp: bt_remove_def)

lemma bt_ok_filter: "bt_ok m \<Longrightarrow> bt_ok (filter p m)"
  by (induction m) (auto simp: bt_ok_def)

lemma bt_ok_remove: "bt_ok m \<Longrightarrow> bt_ok (bt_remove k m)"
  by (simp add: bt_remove_def bt_ok_filter)

lemma bt_ok_retain: "bt_ok m \<Longrightarrow> bt_ok (bt_retain p m)"
  by (simp add: bt_retain_def bt_ok_filter)

lemma bt_ok_Nil [simp]: "bt_ok []"
  by (simp add: bt_ok_def)

lemma bt_distinct: "bt_ok m \<Longrightarrow> distinct (map fst m)"
  by (simp add: bt_ok_def strict_sorted_iff)

lemma bt_get_retain: "bt_ok m \<Longrightarrow>
  bt_get (bt_retain p m) k = (case bt_get m k of None \<Rightarrow> None | Some v \<Rightarrow> if p k v then Some v else None)"
proof (induction m)
  case Nil
  then show ?case by (simp add: bt_retain_def)
next
  case (Cons q m)
  obtain k' v' where q: "q = (k', v')" by (cases q)
  from Cons.prems have "k = k' \<Longrightarrow> bt_get m k = None"
    by (auto simp: q bt_ok_Cons map_of_eq_None_iff)
  with Cons show ?case by (auto simp: q bt_retain_def bt_ok_Cons)
qed

interpretation bt: ordered_map "[]" bt_get bt_insert bt_remove bt_keys bt_ok
proof unfold_locales
  fix m :: "('a \<times> 'b) list" and k :: 'a
  assume "bt_ok m"
  show "k \<in> set (bt_keys m) \<longleftrightarrow> bt_get m k \<noteq> None"
    by (simp add: bt_keys_def map_of_eq_None_iff)
qed (auto simp: bt_get_insert bt_get_remove bt_ok_insert bt_ok_remove bt_keys_def bt_ok_def [symmetric])

text \<open>Updating every value keeps keys and order.\<close>

definition bt_map :: "('k \<Rightarrow> 'v \<Rightarrow> 'w) \<Rightarrow> ('k::linorder, 'v) btree \<Rightarrow> ('k, 'w) btree" where
  "bt_map f m = map (\<lambda>(k, v). (k, f k v)) m"

lemma bt_get_map: "bt_get (bt_map f m) k = map_option (f k) (bt_get m k)"
  by (induction m) (auto simp: bt_map_def)

lemma bt_ok_map [simp]: "bt_ok (bt_map f m) \<longleftrightarrow> bt_ok m"
  by (simp add: bt_ok_def bt_map_def case_prod_beta o_def)

end
