(* ===== verification/Lifecycle.thy ===== *)
theory Lifecycle
  imports Prelude
begin

text \<open>
  The shutdown contract that the request registry and the progress registry share: an owner
  closes the object once, and from then on every fallible call is rejected, whatever handles
  are still around.  Its clients are proved against the locale; each registry interprets it.
\<close>

fun run_ops :: "('op \<Rightarrow> 'st \<Rightarrow> 'out \<times> 'st) \<Rightarrow> 'op list \<Rightarrow> 'st \<Rightarrow> 'out list \<times> 'st" where
  "run_ops step [] s = ([], s)"
| "run_ops step (op # ops) s =
     (let (out, s') = step op s; (outs, s'') = run_ops step ops s' in (out # outs, s''))"

locale closable =
  fixes step :: "'op \<Rightarrow> 'st \<Rightarrow> 'out \<times> 'st"
    and closed :: "'st \<Rightarrow> bool"
    and rejected :: "'op \<Rightarrow> 'out \<Rightarrow> bool"
    and shut :: "'st \<Rightarrow> 'st"
  assumes shut_closes: "closed (shut s)"
    and closed_stays: "closed s \<Longrightarrow> closed (snd (step op s))"
    and closed_rejects: "closed s \<Longrightarrow> rejected op (fst (step op s))"
begin

lemma run_closed: "closed s \<Longrightarrow> closed (snd (run_ops step ops s))"
  by (induction ops arbitrary: s) (auto simp: Let_def case_prod_beta dest: closed_stays)

lemma run_rejected: "closed s \<Longrightarrow> list_all2 rejected ops (fst (run_ops step ops s))"
  by (induction ops arbitrary: s)
    (auto simp: Let_def case_prod_beta closed_rejects dest: closed_stays)

theorem after_shutdown: "list_all2 rejected ops (fst (run_ops step ops (shut s)))"
  by (rule run_rejected) (rule shut_closes)

end

end
