(* ===== verification/RequestCancellation.thy ===== *)
theory RequestCancellation
  imports Strings BTree Lifecycle
begin

text \<open>
  Request cancellation (rust\_backend/crates/core/src/cancellation.rs): a registry of
  reference-counted entries, each with a cancellation flag shared with the leases acquired
  for it.

  The shared \<^verbatim>\<open>Arc<AtomicBool>\<close> flags are cells of an explicit store (\<open>flags\<close>, indexed by
  address), so that a lease and an entry may or may not alias.  The leases the callers hold
  are the list \<open>leases\<close>; a lease handle is an index into it.  Each operation runs under the
  registry's lock, so a run is a sequence of operations.  \<open>wakes\<close> counts the calls of
  \<^verbatim>\<open>Shared::notify\<close> (condition variable, parked threads and waker).
\<close>

section \<open>State\<close>

datatype cancellation_domain = Download | ExtensionRequest

datatype cancellation_error =
  DownloadCancelled | ExtensionRequestCancelled | RegistryClosed | LeaseReleased

record entry =
  e_cancelled :: nat
  e_references :: nat

record lease =
  l_id :: bytes
  l_cancelled :: nat
  l_released :: bool

record registry =
  r_domain :: cancellation_domain
  r_closed :: bool
  r_entries :: "(bytes, entry) btree"
  r_flags :: "bool list"
  r_leases :: "lease list"
  r_wakes :: nat

definition new_registry :: "cancellation_domain \<Rightarrow> registry" where
  "new_registry d = \<lparr>r_domain = d, r_closed = False, r_entries = [], r_flags = [],
     r_leases = [], r_wakes = 0\<rparr>"

text \<open>Results of the operations; \<open>OPanic\<close> is an arithmetic underflow.\<close>

datatype c_out =
  OUnit | OBool bool | OIds "bytes list" | OLease nat | OErr cancellation_error | OPanic

section \<open>Registry operations\<close>

definition notify :: "registry \<Rightarrow> registry" where
  "notify s = s\<lparr>r_wakes := Suc (r_wakes s)\<rparr>"

text \<open>\<^verbatim>\<open>entries.entry(id).or_default()\<close>: the entry and the state that holds it.\<close>

definition entry_or_default :: "bytes \<Rightarrow> registry \<Rightarrow> entry \<times> registry" where
  "entry_or_default i s =
     (case bt_get (r_entries s) i of
        Some e \<Rightarrow> (e, s)
      | None \<Rightarrow>
          let e = \<lparr>e_cancelled = length (r_flags s), e_references = 0\<rparr>
          in (e, s\<lparr>r_entries := bt_insert i e (r_entries s), r_flags := r_flags s @ [False]\<rparr>))"

definition acquire :: "bytes \<Rightarrow> registry \<Rightarrow> c_out \<times> registry" where
  "acquire i s =
     (if r_closed s then (OErr RegistryClosed, s)
      else
        let (a, s1) =
          (if i = [] then (length (r_flags s), s\<lparr>r_flags := r_flags s @ [False]\<rparr>)
           else let (e, s') = entry_or_default i s
                in (e_cancelled e,
                    s'\<lparr>r_entries := bt_insert i (e\<lparr>e_references := e_references e + 1\<rparr>) (r_entries s')\<rparr>))
        in (OLease (length (r_leases s1)),
            s1\<lparr>r_leases := r_leases s1 @ [\<lparr>l_id = i, l_cancelled = a, l_released = False\<rparr>]\<rparr>))"

definition cancel :: "bytes \<Rightarrow> registry \<Rightarrow> c_out \<times> registry" where
  "cancel i s =
     (if r_closed s then (OErr RegistryClosed, s)
      else if i = [] then (OUnit, s)
      else let (e, s1) = entry_or_default i s
           in (OUnit, notify (s1\<lparr>r_flags := (r_flags s1)[e_cancelled e := True]\<rparr>)))"

fun set_flags :: "bool list \<Rightarrow> nat list \<Rightarrow> bool list" where
  "set_flags fs [] = fs"
| "set_flags fs (a # as) = set_flags (fs[a := True]) as"

definition cancel_active :: "registry \<Rightarrow> c_out \<times> registry" where
  "cancel_active s =
     (if r_closed s then (OErr RegistryClosed, s)
      else
        let active = filter (\<lambda>(i, e). 0 < e_references e) (r_entries s)
        in (OIds (map fst active),
            notify (s\<lparr>r_flags := set_flags (r_flags s) (map (\<lambda>(i, e). e_cancelled e) active)\<rparr>)))"

definition is_cancelled :: "bytes \<Rightarrow> registry \<Rightarrow> c_out" where
  "is_cancelled i s =
     (if r_closed s then OErr RegistryClosed
      else OBool (case bt_get (r_entries s) i of None \<Rightarrow> False | Some e \<Rightarrow> r_flags s ! e_cancelled e))"

definition reset_if_idle :: "bytes \<Rightarrow> registry \<Rightarrow> c_out \<times> registry" where
  "reset_if_idle i s =
     (if r_closed s then (OErr RegistryClosed, s)
      else case bt_get (r_entries s) i of
          Some e \<Rightarrow>
            if e_references e = 0 then (OUnit, s\<lparr>r_entries := bt_remove i (r_entries s)\<rparr>)
            else (OUnit, s)
        | None \<Rightarrow> (OUnit, s))"

definition shutdown :: "registry \<Rightarrow> registry" where
  "shutdown s = notify (s\<lparr>r_closed := True, r_entries := []\<rparr>)"

section \<open>Lease operations\<close>

definition check_live :: "nat \<Rightarrow> registry \<Rightarrow> cancellation_error option" where
  "check_live h s =
     (if r_closed s then Some RegistryClosed
      else if l_released (r_leases s ! h) then Some LeaseReleased
      else None)"

definition lease_is_cancelled :: "nat \<Rightarrow> registry \<Rightarrow> c_out" where
  "lease_is_cancelled h s =
     (case check_live h s of
        Some e \<Rightarrow> OErr e
      | None \<Rightarrow> OBool (r_flags s ! l_cancelled (r_leases s ! h)))"

definition check_active :: "nat \<Rightarrow> registry \<Rightarrow> c_out" where
  "check_active h s =
     (case lease_is_cancelled h s of
        OBool True \<Rightarrow>
          OErr (case r_domain s of
                  Download \<Rightarrow> DownloadCancelled
                | ExtensionRequest \<Rightarrow> ExtensionRequestCancelled)
      | OBool False \<Rightarrow> OUnit
      | out \<Rightarrow> out)"

definition active_request_cancelled :: "nat \<Rightarrow> registry \<Rightarrow> bool" where
  "active_request_cancelled h s =
     (let i = l_id (r_leases s ! h) in
      if r_domain s \<noteq> ExtensionRequest \<or> trim i = [] then False
      else case bt_get (r_entries s) (trim i) of
             None \<Rightarrow> False
           | Some e \<Rightarrow> r_flags s ! e_cancelled e)"

definition release :: "nat \<Rightarrow> registry \<Rightarrow> c_out \<times> registry" where
  "release h s =
     (let l = r_leases s ! h in
      if l_released l then (OUnit, s)
      else
        let s1 = s\<lparr>r_leases := (r_leases s)[h := l\<lparr>l_released := True\<rparr>]\<rparr> in
        case bt_get (r_entries s1) (l_id l) of
          None \<Rightarrow> (OUnit, notify s1)
        | Some e \<Rightarrow>
            if e_references e = 0 then (OPanic, s1)
            else if e_references e - 1 = 0
              then (OUnit, notify (s1\<lparr>r_entries := bt_remove (l_id l) (r_entries s1)\<rparr>))
            else (OUnit, notify (s1\<lparr>r_entries :=
                    bt_insert (l_id l) (e\<lparr>e_references := e_references e - 1\<rparr>) (r_entries s1)\<rparr>)))"

text \<open>
  \<^verbatim>\<open>wait_cancelled\<close>: one pass of its loop over the state it finds under the lock, with the
  milliseconds elapsed since the call; the condition variable hands it later states.
\<close>

definition wait_timeout :: "int \<Rightarrow> nat" where
  "wait_timeout ms = nat (if ms \<le> 0 then 15000 else min ms 60000)"

datatype wait_step = Return c_out | Block nat

definition wait_pass :: "nat \<Rightarrow> int \<Rightarrow> nat \<Rightarrow> registry \<Rightarrow> wait_step" where
  "wait_pass h ms elapsed s =
     (case check_live h s of
        Some e \<Rightarrow> Return (OErr e)
      | None \<Rightarrow>
          if r_flags s ! l_cancelled (r_leases s ! h) then Return (OBool True)
          else let remaining = wait_timeout ms - elapsed in
               if remaining = 0 then Return (OBool False) else Block remaining)"

fun wait_cancelled :: "nat \<Rightarrow> int \<Rightarrow> (nat \<times> registry) list \<Rightarrow> c_out option" where
  "wait_cancelled h ms [] = None"
| "wait_cancelled h ms ((elapsed, s) # rest) =
     (case wait_pass h ms elapsed s of
        Return out \<Rightarrow> Some out
      | Block _ \<Rightarrow> wait_cancelled h ms rest)"

section \<open>The machine\<close>

datatype c_op =
  Acquire bytes | Cancel bytes | CancelActive | IsCancelled bytes | ResetIfIdle bytes
| Shutdown | LeaseIsCancelled nat | CheckActive nat | ActiveRequestCancelled nat | Release nat

fun c_step :: "c_op \<Rightarrow> registry \<Rightarrow> c_out \<times> registry" where
  "c_step (Acquire i) s = acquire i s"
| "c_step (Cancel i) s = cancel i s"
| "c_step CancelActive s = cancel_active s"
| "c_step (IsCancelled i) s = (is_cancelled i s, s)"
| "c_step (ResetIfIdle i) s = reset_if_idle i s"
| "c_step Shutdown s = (OUnit, shutdown s)"
| "c_step (LeaseIsCancelled h) s = (lease_is_cancelled h s, s)"
| "c_step (CheckActive h) s = (check_active h s, s)"
| "c_step (ActiveRequestCancelled h) s = (OBool (active_request_cancelled h s), s)"
| "c_step (Release h) s = release h s"

text \<open>A handle can only be used once it has been handed out.\<close>

fun has_handle :: "c_op \<Rightarrow> registry \<Rightarrow> bool" where
  "has_handle (LeaseIsCancelled h) s = (h < length (r_leases s))"
| "has_handle (CheckActive h) s = (h < length (r_leases s))"
| "has_handle (ActiveRequestCancelled h) s = (h < length (r_leases s))"
| "has_handle (Release h) s = (h < length (r_leases s))"
| "has_handle _ s = True"

inductive c_reach :: "cancellation_domain \<Rightarrow> registry \<Rightarrow> bool" for d where
  init: "c_reach d (new_registry d)"
| step: "c_reach d s \<Longrightarrow> has_handle op s \<Longrightarrow> c_reach d (snd (c_step op s))"

section \<open>The invariant\<close>

text \<open>Acquisitions of \<open>i\<close> that have not been released.\<close>

definition live :: "lease list \<Rightarrow> bytes \<Rightarrow> nat" where
  "live L i = length (filter (\<lambda>l. l_id l = i \<and> \<not> l_released l) L)"

definition lease_ok :: "(bytes \<Rightarrow> entry option) \<Rightarrow> bool list \<Rightarrow> lease \<Rightarrow> bool" where
  "lease_ok E F l \<longleftrightarrow> l_cancelled l < length F \<and>
     (if l_id l = [] then \<not> F ! l_cancelled l \<and> (\<forall>i e. E i = Some e \<longrightarrow> e_cancelled e \<noteq> l_cancelled l)
      else \<not> l_released l \<longrightarrow> (\<exists>e. E (l_id l) = Some e \<and> e_cancelled e = l_cancelled l))"

definition open_inv :: "(bytes \<Rightarrow> entry option) \<Rightarrow> bool list \<Rightarrow> lease list \<Rightarrow> bool" where
  "open_inv E F L \<longleftrightarrow>
     E [] = None \<and>
     (\<forall>i e. E i = Some e \<longrightarrow> e_cancelled e < length F \<and> e_references e = live L i) \<and>
     (\<forall>i. i \<noteq> [] \<and> E i = None \<longrightarrow> live L i = 0) \<and>
     (\<forall>i j e e'. E i = Some e \<and> E j = Some e' \<and> e_cancelled e = e_cancelled e' \<longrightarrow> i = j) \<and>
     (\<forall>l \<in> set L. lease_ok E F l)"

definition c_inv :: "registry \<Rightarrow> bool" where
  "c_inv s \<longleftrightarrow> bt_ok (r_entries s) \<and>
     (if r_closed s then r_entries s = [] else open_inv (bt_get (r_entries s)) (r_flags s) (r_leases s))"

lemma live_Nil [simp]: "live [] i = 0"
  by (simp add: live_def)

lemma live_append [simp]: "live (L @ [l]) i = live L i + (if l_id l = i \<and> \<not> l_released l then 1 else 0)"
  by (simp add: live_def)

lemma live_release_other:
  "h < length L \<Longrightarrow> l_id (L ! h) \<noteq> i \<Longrightarrow> live (L[h := (L ! h)\<lparr>l_released := True\<rparr>]) i = live L i"
  unfolding live_def by (rule length_filter_update_same) auto

lemma live_release_same:
  "h < length L \<Longrightarrow> \<not> l_released (L ! h) \<Longrightarrow>
     Suc (live (L[h := (L ! h)\<lparr>l_released := True\<rparr>]) (l_id (L ! h))) = live L (l_id (L ! h))"
  unfolding live_def by (rule length_filter_update_drop) auto

lemma open_invI:
  assumes "E [] = None"
    and "\<And>i e. E i = Some e \<Longrightarrow> e_cancelled e < length F"
    and "\<And>i e. E i = Some e \<Longrightarrow> e_references e = live L i"
    and "\<And>i. i \<noteq> [] \<Longrightarrow> E i = None \<Longrightarrow> live L i = 0"
    and "\<And>i j e e'. E i = Some e \<Longrightarrow> E j = Some e' \<Longrightarrow> e_cancelled e = e_cancelled e' \<Longrightarrow> i = j"
    and "\<And>l. l \<in> set L \<Longrightarrow> lease_ok E F l"
  shows "open_inv E F L"
  using assms unfolding open_inv_def by blast

lemma open_invD:
  assumes "open_inv E F L"
  shows open_anon: "E [] = None"
    and open_addr: "E i = Some e \<Longrightarrow> e_cancelled e < length F"
    and open_refs: "E i = Some e \<Longrightarrow> e_references e = live L i"
    and open_gone: "i \<noteq> [] \<Longrightarrow> E i = None \<Longrightarrow> live L i = 0"
    and open_inj: "E i = Some e \<Longrightarrow> E j = Some e' \<Longrightarrow> e_cancelled e = e_cancelled e' \<Longrightarrow> i = j"
    and open_lease: "l \<in> set L \<Longrightarrow> lease_ok E F l"
  using assms unfolding open_inv_def by blast+

lemma open_ne: "open_inv E F L \<Longrightarrow> E i = Some e \<Longrightarrow> i \<noteq> []"
  using open_anon by fastforce

lemma live_pos: "l \<in> set L \<Longrightarrow> \<not> l_released l \<Longrightarrow> 0 < live L (l_id l)"
  by (auto simp: live_def filter_empty_conv)

lemma lease_ok_grow: "lease_ok E F l \<Longrightarrow> lease_ok E (F @ [False]) l"
  by (auto simp: lease_ok_def nth_append split: if_splits)

lemma lease_ok_same_addr:
  "lease_ok E F l \<Longrightarrow> E i = Some e \<Longrightarrow> e_cancelled e' = e_cancelled e \<Longrightarrow> lease_ok (E(i \<mapsto> e')) F l"
  by (auto simp: lease_ok_def split: if_splits)

lemma lease_ok_new_addr:
  "lease_ok E F l \<Longrightarrow> E i = None \<Longrightarrow> length F \<le> e_cancelled e \<Longrightarrow> lease_ok (E(i \<mapsto> e)) F l"
  by (auto simp: lease_ok_def split: if_splits)

lemma open_inv_default:
  assumes inv: "open_inv E F L" and i: "i \<noteq> []" and new: "E i = None"
  shows "open_inv (E(i \<mapsto> \<lparr>e_cancelled = length F, e_references = 0\<rparr>)) (F @ [False]) L"
proof (rule open_invI)
  fix j j' d d'
  assume "(E(i \<mapsto> \<lparr>e_cancelled = length F, e_references = 0\<rparr>)) j = Some d"
    "(E(i \<mapsto> \<lparr>e_cancelled = length F, e_references = 0\<rparr>)) j' = Some d'" "e_cancelled d = e_cancelled d'"
  then show "j = j'"
    using open_addr [OF inv] open_inj [OF inv] by (fastforce split: if_splits)
next
  fix l assume "l \<in> set L"
  then show "lease_ok (E(i \<mapsto> \<lparr>e_cancelled = length F, e_references = 0\<rparr>)) (F @ [False]) l"
    using open_lease [OF inv] by (simp add: lease_ok_grow lease_ok_new_addr new)
qed (use i open_anon [OF inv] open_gone [OF inv i new] open_gone [OF inv] open_refs [OF inv]
  in \<open>auto simp: less_Suc_eq split: if_splits dest: open_addr [OF inv]\<close>)

lemma open_inv_refs:
  assumes inv: "open_inv E F L" and e: "E i = Some e" and addr: "e_cancelled e' = e_cancelled e"
    and refs: "e_references e' = live L' i" and other: "\<And>j. j \<noteq> i \<Longrightarrow> j \<noteq> [] \<Longrightarrow> live L' j = live L j"
    and leases: "\<And>l. l \<in> set L' \<Longrightarrow> lease_ok E F l"
  shows "open_inv (E(i \<mapsto> e')) F L'"
proof (rule open_invI)
  show "(E(i \<mapsto> e')) [] = None"
    using open_anon [OF inv] open_ne [OF inv e] by simp
next
  fix j d assume j: "(E(i \<mapsto> e')) j = Some d"
  then show "e_cancelled d < length F"
    using open_addr [OF inv] e addr by (auto split: if_splits)
  show "e_references d = live L' j"
  proof (cases "j = i")
    case True
    with j refs show ?thesis by simp
  next
    case False
    with j have "E j = Some d" by simp
    with False other open_ne [OF inv] open_refs [OF inv] show ?thesis by simp
  qed
next
  fix j assume "j \<noteq> []" "(E(i \<mapsto> e')) j = None"
  then show "live L' j = 0"
    using other open_gone [OF inv] by (auto split: if_splits)
next
  fix j j' d d'
  assume "(E(i \<mapsto> e')) j = Some d" "(E(i \<mapsto> e')) j' = Some d'" "e_cancelled d = e_cancelled d'"
  then show "j = j'"
    using open_inj [OF inv] e addr by (auto split: if_splits)
next
  fix l assume "l \<in> set L'"
  then show "lease_ok (E(i \<mapsto> e')) F l"
    using leases e addr by (blast intro: lease_ok_same_addr)
qed

lemma open_inv_acquire:
  assumes inv: "open_inv E F L" and e: "E i = Some e"
  shows "open_inv (E(i \<mapsto> e\<lparr>e_references := e_references e + 1\<rparr>)) F
           (L @ [\<lparr>l_id = i, l_cancelled = e_cancelled e, l_released = False\<rparr>])"
proof (rule open_inv_refs [OF inv e])
  fix l assume "l \<in> set (L @ [\<lparr>l_id = i, l_cancelled = e_cancelled e, l_released = False\<rparr>])"
  then show "lease_ok E F l"
    using open_lease [OF inv] open_addr [OF inv e] open_ne [OF inv e] e
    by (auto simp: lease_ok_def)
qed (use open_refs [OF inv e] in auto)

lemma open_inv_same_entries:
  assumes inv: "open_inv E F L" and len: "length F \<le> length F'"
    and live: "\<And>j. j \<noteq> [] \<Longrightarrow> live L' j = live L j" and leases: "\<And>l. l \<in> set L' \<Longrightarrow> lease_ok E F' l"
  shows "open_inv E F' L'"
proof (rule open_invI)
  show "E [] = None" by (rule open_anon [OF inv])
next
  fix i e assume e: "E i = Some e"
  show "e_cancelled e < length F'" using open_addr [OF inv e] len by simp
  show "e_references e = RequestCancellation.live L' i" using open_refs [OF inv e] open_ne [OF inv e] live by simp
next
  fix i assume "i \<noteq> []" "E i = None"
  then show "RequestCancellation.live L' i = 0" using open_gone [OF inv] live by simp
next
  fix i j e e' assume "E i = Some e" "E j = Some e'" "e_cancelled e = e_cancelled e'"
  then show "i = j" by (rule open_inj [OF inv])
next
  fix l assume "l \<in> set L'"
  then show "lease_ok E F' l" by (rule leases)
qed

lemma open_inv_anonymous:
  assumes inv: "open_inv E F L"
  shows "open_inv E (F @ [False]) (L @ [\<lparr>l_id = [], l_cancelled = length F, l_released = False\<rparr>])"
proof (rule open_inv_same_entries [OF inv])
  fix l assume "l \<in> set (L @ [\<lparr>l_id = [], l_cancelled = length F, l_released = False\<rparr>])"
  moreover have "lease_ok E (F @ [False]) \<lparr>l_id = [], l_cancelled = length F, l_released = False\<rparr>"
    using open_addr [OF inv] by (fastforce simp: lease_ok_def)
  ultimately show "lease_ok E (F @ [False]) l"
    using open_lease [OF inv] by (auto simp: lease_ok_grow)
qed auto

lemma open_inv_set_flag:
  assumes inv: "open_inv E F L" and e: "E i = Some e"
  shows "open_inv E (F[e_cancelled e := True]) L"
proof (rule open_inv_same_entries [OF inv])
  fix l assume "l \<in> set L"
  from open_lease [OF inv this] show "lease_ok E (F[e_cancelled e := True]) l"
    using e by (auto simp: lease_ok_def nth_list_update split: if_splits)
qed auto

lemma open_inv_remove:
  assumes inv: "open_inv E F L" and gone: "live L i = 0"
  shows "open_inv (E(i := None)) F L"
proof (rule open_invI)
  show "(E(i := None)) [] = None" using open_anon [OF inv] by simp
next
  fix j j' d d' assume "(E(i := None)) j = Some d" "(E(i := None)) j' = Some d'"
    "e_cancelled d = e_cancelled d'"
  then show "j = j'" using open_inj [OF inv] by (simp split: if_splits)
next
  fix l assume l: "l \<in> set L"
  with gone live_pos [OF l] have "l_id l = i \<Longrightarrow> l_released l" by auto
  with open_lease [OF inv l] show "lease_ok (E(i := None)) F l"
    by (auto simp: lease_ok_def split: if_splits)
qed (use open_gone [OF inv] gone in
  \<open>auto split: if_splits dest: open_addr [OF inv] open_refs [OF inv]\<close>)

lemma lease_ok_release:
  "lease_ok E F l \<Longrightarrow> lease_ok E F (l\<lparr>l_released := True\<rparr>)"
  by (auto simp: lease_ok_def split: if_splits)

lemma lease_ok_released_list:
  assumes "open_inv E F L" and "h < length L"
    and "l \<in> set (L[h := (L ! h)\<lparr>l_released := True\<rparr>])"
  shows "lease_ok E F l"
proof -
  have "l = (L ! h)\<lparr>l_released := True\<rparr> \<or> l \<in> set L"
    using assms(3) set_update_subset_insert [of L h] by blast
  then show ?thesis
    using open_lease [OF assms(1)] assms(2) by (auto intro: lease_ok_release)
qed

lemma open_inv_release_none:
  assumes inv: "open_inv E F L" and h: "h < length L" and live: "\<not> l_released (L ! h)"
    and none: "E (l_id (L ! h)) = None"
  shows "open_inv E F (L[h := (L ! h)\<lparr>l_released := True\<rparr>])"
proof (rule open_inv_same_entries [OF inv])
  have "0 < RequestCancellation.live L (l_id (L ! h))" using h live by (simp add: live_pos)
  with open_gone [OF inv _ none] have anon: "l_id (L ! h) = []" by auto
  fix j :: bytes assume "j \<noteq> []"
  with anon show "RequestCancellation.live (L[h := (L ! h)\<lparr>l_released := True\<rparr>]) j = RequestCancellation.live L j"
    using live_release_other [OF h] by simp
qed (use lease_ok_released_list [OF inv h] in auto)

lemma open_inv_release_some:
  assumes inv: "open_inv E F L" and h: "h < length L" and live: "\<not> l_released (L ! h)"
    and e: "E (l_id (L ! h)) = Some e"
  shows "open_inv (E(l_id (L ! h) \<mapsto> e\<lparr>e_references := e_references e - 1\<rparr>)) F
           (L[h := (L ! h)\<lparr>l_released := True\<rparr>])"
proof (rule open_inv_refs [OF inv e])
  show "e_references (e\<lparr>e_references := e_references e - 1\<rparr>) =
      RequestCancellation.live (L[h := (L ! h)\<lparr>l_released := True\<rparr>]) (l_id (L ! h))"
    using live_release_same [OF h live] open_refs [OF inv e] by simp
next
  fix l assume "l \<in> set (L[h := (L ! h)\<lparr>l_released := True\<rparr>])"
  with inv h show "lease_ok E F l" by (rule lease_ok_released_list)
qed (simp_all add: live_release_other [OF h])

section \<open>Every operation keeps it\<close>

lemmas registry_ops = acquire_def cancel_def cancel_active_def reset_if_idle_def shutdown_def
  release_def notify_def entry_or_default_def Let_def

lemma map_of_bt_insert: "bt_ok m \<Longrightarrow> bt_get (bt_insert k v m) = (bt_get m)(k \<mapsto> v)"
  by (auto simp: bt.lookup_insert)

lemma map_of_bt_remove: "bt_get (bt_remove k m) = (bt_get m)(k := None)"
  by (auto simp: bt_get_remove)

lemmas bt_maps = map_of_bt_insert map_of_bt_remove bt_ok_insert bt_ok_remove

lemma c_inv_new: "c_inv (new_registry d)"
  by (simp add: c_inv_def new_registry_def open_inv_def)

lemma c_inv_default:
  assumes "c_inv s" and "\<not> r_closed s" and "i \<noteq> []" and "entry_or_default i s = (e, s')"
  shows "c_inv s'" "\<not> r_closed s'" "bt_get (r_entries s') i = Some e" "bt_ok (r_entries s')"
    "r_leases s' = r_leases s" "r_domain s' = r_domain s"
proof -
  show "c_inv s'"
    using assms open_inv_default [of "bt_get (r_entries s)" "r_flags s" "r_leases s" i]
    by (auto simp: c_inv_def entry_or_default_def Let_def bt_maps split: option.splits)
qed (use assms in \<open>auto simp: c_inv_def entry_or_default_def Let_def bt_maps split: option.splits\<close>)

lemma c_inv_acquire: "c_inv s \<Longrightarrow> c_inv (snd (acquire i s))"
proof (cases "r_closed s \<or> i = []")
  case True
  assume "c_inv s"
  with True show ?thesis
    using open_inv_anonymous [of "bt_get (r_entries s)" "r_flags s" "r_leases s"]
    by (auto simp: c_inv_def acquire_def Let_def)
next
  case False
  assume "c_inv s"
  moreover obtain e s' where e: "entry_or_default i s = (e, s')" by (cases "entry_or_default i s")
  ultimately show ?thesis
    using False c_inv_default [of s i e s']
      open_inv_acquire [of "bt_get (r_entries s')" "r_flags s'" "r_leases s'" i e]
    by (auto simp: c_inv_def acquire_def Let_def bt_maps)
qed

lemma c_inv_cancel: "c_inv s \<Longrightarrow> c_inv (snd (cancel i s))"
proof (cases "r_closed s \<or> i = []")
  case True
  assume "c_inv s"
  with True show ?thesis by (auto simp: cancel_def)
next
  case False
  assume "c_inv s"
  moreover obtain e s' where e: "entry_or_default i s = (e, s')" by (cases "entry_or_default i s")
  ultimately show ?thesis
    using False c_inv_default [of s i e s']
      open_inv_set_flag [of "bt_get (r_entries s')" "r_flags s'" "r_leases s'" i e]
    by (auto simp: c_inv_def cancel_def notify_def Let_def)
qed

lemma open_inv_set_flags:
  "open_inv E F L \<Longrightarrow> (\<And>a. a \<in> set as \<Longrightarrow> \<exists>i e. E i = Some e \<and> e_cancelled e = a) \<Longrightarrow>
     open_inv E (set_flags F as) L"
proof (induction as arbitrary: F)
  case Nil
  then show ?case by simp
next
  case (Cons a as)
  then obtain i e where "E i = Some e" "e_cancelled e = a" by (meson list.set_intros(1))
  with Cons.prems(1) have "open_inv E (F[a := True]) L" using open_inv_set_flag by blast
  with Cons show ?case by simp
qed

lemma bt_mem: "bt_ok m \<Longrightarrow> (k, v) \<in> set m \<longleftrightarrow> bt_get m k = Some v"
  using bt_distinct [of m] by (metis map_of_eq_Some_iff)

lemma c_inv_cancel_active: "c_inv s \<Longrightarrow> c_inv (snd (cancel_active s))"
proof (cases "r_closed s")
  case True
  assume "c_inv s"
  with True show ?thesis by (simp add: cancel_active_def)
next
  case False
  assume s: "c_inv s"
  with False have ok: "bt_ok (r_entries s)"
    and inv: "open_inv (bt_get (r_entries s)) (r_flags s) (r_leases s)" by (simp_all add: c_inv_def)
  let ?as = "map (\<lambda>(i, e). e_cancelled e) (filter (\<lambda>(i, e). 0 < e_references e) (r_entries s))"
  have "\<exists>i e. bt_get (r_entries s) i = Some e \<and> e_cancelled e = a" if "a \<in> set ?as" for a
    using that bt_mem [OF ok] by fastforce
  with inv have "open_inv (bt_get (r_entries s)) (set_flags (r_flags s) ?as) (r_leases s)"
    by (rule open_inv_set_flags)
  with ok False show ?thesis
    by (simp add: c_inv_def cancel_active_def notify_def Let_def)
qed

lemma c_inv_reset: "c_inv s \<Longrightarrow> c_inv (snd (reset_if_idle i s))"
proof -
  assume s: "c_inv s"
  have "open_inv ((bt_get (r_entries s))(i := None)) (r_flags s) (r_leases s)"
    if "\<not> r_closed s" "bt_get (r_entries s) i = Some e" "e_references e = 0" for e
  proof (rule open_inv_remove)
    show inv: "open_inv (bt_get (r_entries s)) (r_flags s) (r_leases s)"
      using s that by (simp add: c_inv_def)
    show "live (r_leases s) i = 0"
      using inv that by (auto simp: open_inv_def)
  qed
  with s show ?thesis
    by (auto simp: c_inv_def reset_if_idle_def bt_maps split: option.splits)
qed

lemma c_inv_shutdown: "c_inv (shutdown s)"
  by (simp add: c_inv_def shutdown_def notify_def)

lemma c_inv_release:
  assumes s: "c_inv s" and h: "h < length (r_leases s)"
  shows "c_inv (snd (release h s)) \<and> fst (release h s) = OUnit"
proof (cases "l_released (r_leases s ! h) \<or> r_closed s")
  case True
  with s show ?thesis
    by (auto simp: c_inv_def release_def notify_def Let_def split: option.splits)
next
  case False
  then have live: "\<not> l_released (r_leases s ! h)" by simp
  from s False have ok: "bt_ok (r_entries s)"
    and inv: "open_inv (bt_get (r_entries s)) (r_flags s) (r_leases s)" by (simp_all add: c_inv_def)
  let ?i = "l_id (r_leases s ! h)"
  show ?thesis
  proof (cases "bt_get (r_entries s) ?i")
    case None
    with open_inv_release_none [OF inv h live] ok False show ?thesis
      by (simp add: c_inv_def release_def notify_def Let_def)
  next
    case (Some e)
    let ?L = "(r_leases s)[h := (r_leases s ! h)\<lparr>l_released := True\<rparr>]"
    let ?E = "(bt_get (r_entries s))(?i \<mapsto> e\<lparr>e_references := e_references e - 1\<rparr>)"
    have new: "open_inv ?E (r_flags s) ?L" by (rule open_inv_release_some [OF inv h live Some])
    have refs: "0 < e_references e"
      using open_refs [OF inv Some] live_pos [of "r_leases s ! h" "r_leases s"] h live by simp
    have "live ?L ?i = e_references e - 1" using open_refs [OF new, of ?i] by simp
    then have "e_references e - 1 = 0 \<Longrightarrow> open_inv ((bt_get (r_entries s))(?i := None)) (r_flags s) ?L"
      using open_inv_remove [OF new, of ?i] by simp
    with new refs Some ok False show ?thesis
      by (auto simp: c_inv_def release_def notify_def Let_def bt_maps)
  qed
qed

theorem c_inv_step: "c_inv s \<Longrightarrow> has_handle op s \<Longrightarrow> c_inv (snd (c_step op s))"
  by (cases op) (simp_all add: c_inv_acquire c_inv_cancel c_inv_cancel_active c_inv_reset
      c_inv_shutdown c_inv_release)

lemma reach_inv: "c_reach d s \<Longrightarrow> c_inv s"
  by (induction rule: c_reach.induct) (simp_all add: c_inv_new c_inv_step)

lemma reach_open:
  assumes "c_reach d s" and "\<not> r_closed s"
  shows "bt_ok (r_entries s)" and "open_inv (bt_get (r_entries s)) (r_flags s) (r_leases s)"
  using reach_inv [OF assms(1)] assms(2) by (simp_all add: c_inv_def)

lemma live_lease_entry:
  assumes "open_inv E F L" and "h < length L" and "\<not> l_released (L ! h)" and "l_id (L ! h) \<noteq> []"
  obtains e where "E (l_id (L ! h)) = Some e" and "e_cancelled e = l_cancelled (L ! h)"
  using open_lease [OF assms(1), of "L ! h"] assms by (auto simp: lease_ok_def)

lemma anonymous_lease:
  assumes "open_inv E F L" and "h < length L" and "l_id (L ! h) = []"
  shows "\<not> F ! l_cancelled (L ! h)" and "E i = Some e \<Longrightarrow> e_cancelled e \<noteq> l_cancelled (L ! h)"
  using open_lease [OF assms(1), of "L ! h"] assms by (auto simp: lease_ok_def)

section \<open>Properties\<close>

text \<open>
  C9.  In every reachable open registry, the reference count of a non-empty request id is the
  number of leases acquired for it and not yet released (zero when there is no entry).
\<close>

theorem references_count_live_leases:
  assumes "c_reach d s" and "\<not> r_closed s" and "i \<noteq> []"
  shows "(case bt_get (r_entries s) i of None \<Rightarrow> 0 | Some e \<Rightarrow> e_references e) = live (r_leases s) i"
  using open_gone [OF reach_open(2) [OF assms(1,2)] assms(3)] open_refs [OF reach_open(2) [OF assms(1,2)]]
  by (auto split: option.splits)

definition example_run :: "c_op list \<Rightarrow> registry" where
  "example_run ops = snd (run_ops c_step ops (new_registry Download))"

lemma reach_run:
  "c_reach d s \<Longrightarrow> (\<And>op s. op \<in> set ops \<Longrightarrow> has_handle op s) \<Longrightarrow> c_reach d (snd (run_ops c_step ops s))"
proof (induction ops arbitrary: s)
  case Nil
  then show ?case by simp
next
  case (Cons op ops)
  then have "c_reach d (snd (c_step op s))" by (auto intro: c_reach.step)
  with Cons show ?case by (simp add: Let_def case_prod_beta)
qed

lemma example_reach: "c_reach Download (example_run [Acquire ''a'', Acquire ''a'', Acquire ''b''])"
  unfolding example_run_def by (rule reach_run [OF c_reach.init]) auto

lemma example_state:
  "example_run [Acquire ''a'', Acquire ''a'', Acquire ''b''] =
     \<lparr>r_domain = Download, r_closed = False,
      r_entries = [(''a'', \<lparr>e_cancelled = 0, e_references = 2\<rparr>), (''b'', \<lparr>e_cancelled = 1, e_references = 1\<rparr>)],
      r_flags = [False, False],
      r_leases = [\<lparr>l_id = ''a'', l_cancelled = 0, l_released = False\<rparr>,
                  \<lparr>l_id = ''a'', l_cancelled = 0, l_released = False\<rparr>,
                  \<lparr>l_id = ''b'', l_cancelled = 1, l_released = False\<rparr>],
      r_wakes = 0\<rparr>"
  by code_simp

theorem references_count_witness:
  "(case bt_get (r_entries (example_run [Acquire ''a'', Acquire ''a'', Acquire ''b''])) ''a'' of
      None \<Rightarrow> 0 | Some e \<Rightarrow> e_references e) = (2::nat)"
  using references_count_live_leases [OF example_reach, of "''a''"]
  by (simp add: example_state live_def)

text \<open>
  Releasing any lease of a reachable registry never underflows a reference count, before
  or after shutdown.
\<close>

theorem release_never_panics:
  assumes "c_reach d s" and "h < length (r_leases s)"
  shows "fst (release h s) = OUnit"
  using c_inv_release [OF reach_inv [OF assms(1)] assms(2)] by simp

theorem release_never_panics_witness:
  "fst (release 1 (example_run [Acquire ''a'', Acquire ''a'', Acquire ''b''])) = OUnit"
  using release_never_panics [OF example_reach, of 1] by (simp add: example_state)

lemma lease_flag:
  "\<not> r_closed s \<Longrightarrow> \<not> l_released (r_leases s ! h) \<Longrightarrow>
     lease_is_cancelled h s = OBool (r_flags s ! l_cancelled (r_leases s ! h))"
  by (simp add: lease_is_cancelled_def check_live_def)

lemma entry_or_default_frame:
  "entry_or_default i s = (e, s') \<Longrightarrow> r_leases s' = r_leases s \<and> r_closed s' = r_closed s \<and>
     (\<exists>F. r_flags s' = r_flags s @ F)"
  by (auto simp: entry_or_default_def Let_def split: option.splits)

text \<open>
  Cancelling a request id makes every live lease of that id report cancellation and
  changes the answer of no other live lease.
\<close>

theorem cancel_exactly_the_id:
  assumes reach: "c_reach d s" and opened: "\<not> r_closed s" and i: "i \<noteq> []"
    and h: "h < length (r_leases s)" and live: "\<not> l_released (r_leases s ! h)"
  shows "lease_is_cancelled h (snd (cancel i s)) =
    (if l_id (r_leases s ! h) = i then OBool True else lease_is_cancelled h s)"
proof -
  obtain e s' where e: "entry_or_default i s = (e, s')" by (cases "entry_or_default i s")
  note s' = c_inv_default [OF reach_inv [OF reach] opened i e]
  from entry_or_default_frame [OF e] obtain F where F: "r_flags s' = r_flags s @ F" by blast
  have inv: "open_inv (bt_get (r_entries s')) (r_flags s') (r_leases s)"
    using s' by (simp add: c_inv_def)
  let ?l = "r_leases s ! h" and ?s2 = "snd (cancel i s)"
  have s2: "r_flags ?s2 = (r_flags s')[e_cancelled e := True]" "r_leases ?s2 = r_leases s" "\<not> r_closed ?s2"
    using opened i e s' by (simp_all add: cancel_def notify_def)
  have bound: "l_cancelled ?l < length (r_flags s)"
    using open_lease [OF reach_open(2) [OF reach opened]] h by (simp add: lease_ok_def)
  have addr: "l_cancelled ?l = e_cancelled e \<longleftrightarrow> l_id ?l = i"
  proof (cases "l_id ?l = []")
    case True
    with anonymous_lease(2) [OF inv h True s'(3)] i show ?thesis by auto
  next
    case False
    from live_lease_entry [OF inv h live False] obtain d where
      d: "bt_get (r_entries s') (l_id ?l) = Some d" "e_cancelled d = l_cancelled ?l" .
    with open_inj [OF inv d(1) s'(3)] s'(3) show ?thesis by auto
  qed
  have "r_flags ?s2 ! l_cancelled ?l = (l_id ?l = i \<or> r_flags s ! l_cancelled ?l)"
    using s2 bound addr F open_addr [OF inv s'(3)] by (auto simp: nth_list_update nth_append)
  then show ?thesis
    using live opened s2 by (simp add: lease_flag)
qed

theorem cancel_exactly_witness:
  "lease_is_cancelled 0 (snd (cancel ''a'' (example_run [Acquire ''a'', Acquire ''a'', Acquire ''b'']))) =
     OBool True \<and>
   lease_is_cancelled 2 (snd (cancel ''a'' (example_run [Acquire ''a'', Acquire ''a'', Acquire ''b'']))) =
     OBool False"
  using cancel_exactly_the_id [OF example_reach, of "''a''" 0]
    cancel_exactly_the_id [OF example_reach, of "''a''" 2]
  by (simp add: example_state lease_flag)

lemma release_frame:
  "r_flags (snd (release h s)) = r_flags s \<and> r_closed (snd (release h s)) = r_closed s \<and>
   r_domain (snd (release h s)) = r_domain s \<and> length (r_leases (snd (release h s))) = length (r_leases s)"
  by (auto simp: release_def notify_def Let_def split: option.splits)

lemma release_other: "k \<noteq> h \<Longrightarrow> r_leases (snd (release h s)) ! k = r_leases s ! k"
  by (auto simp: release_def notify_def Let_def split: option.splits)

lemma release_entries:
  assumes inv: "open_inv (bt_get (r_entries s)) (r_flags s) (r_leases s)" and h: "h < length (r_leases s)"
    and live: "\<not> l_released (r_leases s ! h)" and last: "RequestCancellation.live (r_leases s) (l_id (r_leases s ! h)) = 1"
  shows "bt_get (r_entries (snd (release h s))) (l_id (r_leases s ! h)) = None"
  using live last open_refs [OF inv, of "l_id (r_leases s ! h)"]
  by (auto simp: release_def notify_def Let_def map_of_bt_remove split: option.splits)

lemma acquire_new:
  "bt_get (r_entries s) i = None \<Longrightarrow> \<not> r_closed s \<Longrightarrow> i \<noteq> [] \<Longrightarrow>
     \<exists>k s'. acquire i s = (OLease k, s') \<and> lease_is_cancelled k s' = OBool False"
  by (simp add: acquire_def entry_or_default_def Let_def lease_is_cancelled_def check_live_def)

text \<open>
  Once the last lease of a request id is released, its cancellation is forgotten: the id
  is not cancelled, and a lease acquired for a retry reports no cancellation.
\<close>

theorem retry_starts_uncancelled:
  assumes reach: "c_reach d s" and opened: "\<not> r_closed s" and h: "h < length (r_leases s)"
    and live: "\<not> l_released (r_leases s ! h)" and i: "l_id (r_leases s ! h) = i" "i \<noteq> []"
    and last: "live (r_leases s) i = 1"
  shows "is_cancelled i (snd (release h s)) = OBool False \<and>
    (\<exists>k s'. acquire i (snd (release h s)) = (OLease k, s') \<and> lease_is_cancelled k s' = OBool False)"
proof -
  have "bt_get (r_entries (snd (release h s))) i = None"
    using release_entries [OF reach_open(2) [OF reach opened] h live] last i by simp
  moreover have "\<not> r_closed (snd (release h s))"
    using opened by (simp add: release_frame)
  ultimately show ?thesis
    using i(2) acquire_new by (simp add: is_cancelled_def)
qed

lemma example_cancelled_reach: "c_reach Download (example_run [Acquire ''a'', Cancel ''a''])"
  unfolding example_run_def by (rule reach_run [OF c_reach.init]) auto

lemma example_cancelled_state:
  "example_run [Acquire ''a'', Cancel ''a''] =
     \<lparr>r_domain = Download, r_closed = False,
      r_entries = [(''a'', \<lparr>e_cancelled = 0, e_references = 1\<rparr>)], r_flags = [True],
      r_leases = [\<lparr>l_id = ''a'', l_cancelled = 0, l_released = False\<rparr>], r_wakes = 1\<rparr>"
  by code_simp

theorem retry_starts_uncancelled_witness:
  "is_cancelled ''a'' (example_run [Acquire ''a'', Cancel ''a'']) = OBool True \<and>
   is_cancelled ''a'' (snd (release 0 (example_run [Acquire ''a'', Cancel ''a'']))) = OBool False"
  using retry_starts_uncancelled [OF example_cancelled_reach, of 0 "''a''"]
  by (simp add: example_cancelled_state live_def is_cancelled_def)

lemma live_id_cancelled:
  assumes s: "c_inv s" and opened: "\<not> r_closed s" and k: "k < length (r_leases s)"
    and live: "\<not> l_released (r_leases s ! k)"
  shows "is_cancelled (l_id (r_leases s ! k)) s =
    OBool (l_id (r_leases s ! k) \<noteq> [] \<and> r_flags s ! l_cancelled (r_leases s ! k))"
proof -
  have inv: "open_inv (bt_get (r_entries s)) (r_flags s) (r_leases s)"
    using s opened by (simp add: c_inv_def)
  show ?thesis
  proof (cases "l_id (r_leases s ! k) = []")
    case True
    with opened open_anon [OF inv] show ?thesis by (simp add: is_cancelled_def)
  next
    case False
    from live_lease_entry [OF inv k live False] obtain e where
      "bt_get (r_entries s) (l_id (r_leases s ! k)) = Some e"
      "e_cancelled e = l_cancelled (r_leases s ! k)" .
    with opened False show ?thesis by (simp add: is_cancelled_def)
  qed
qed

text \<open>
  Releasing one lease (an old handle dropped late, say) disturbs no other live lease: the
  other's checks answer as before, and its id is still known with the same cancellation.
\<close>

theorem release_keeps_other_leases:
  assumes reach: "c_reach d s" and opened: "\<not> r_closed s" and h: "h < length (r_leases s)"
    and k: "k < length (r_leases s)" "k \<noteq> h" and live: "\<not> l_released (r_leases s ! k)"
  shows "check_active k (snd (release h s)) = check_active k s \<and>
    is_cancelled (l_id (r_leases s ! k)) (snd (release h s)) = is_cancelled (l_id (r_leases s ! k)) s"
proof -
  let ?s = "snd (release h s)"
  have frame: "r_flags ?s = r_flags s" "r_closed ?s = r_closed s" "r_leases ?s ! k = r_leases s ! k"
      "length (r_leases ?s) = length (r_leases s)"
    using release_frame [of h s] release_other [OF k(2), of s] by simp_all
  have "c_inv ?s"
    using c_inv_release [OF reach_inv [OF reach] h] by simp
  from live_id_cancelled [OF this, of k] opened k(1) live
  have "is_cancelled (l_id (r_leases s ! k)) ?s =
      OBool (l_id (r_leases s ! k) \<noteq> [] \<and> r_flags s ! l_cancelled (r_leases s ! k))"
    unfolding frame by blast
  with live_id_cancelled [OF reach_inv [OF reach] opened k(1) live]
  have "is_cancelled (l_id (r_leases s ! k)) ?s = is_cancelled (l_id (r_leases s ! k)) s"
    by (rule trans [OF _ sym, rotated])
  moreover have "check_active k (snd (release h s)) = check_active k s"
    using opened k live
    by (auto simp: check_active_def lease_is_cancelled_def check_live_def release_frame release_other
        split: bool.splits)
  ultimately show ?thesis by simp
qed

theorem release_keeps_other_witness:
  "check_active 1 (snd (release 0 (example_run [Acquire ''a'', Acquire ''a'', Acquire ''b'']))) = OUnit"
  using release_keeps_other_leases [OF example_reach, of 0 1]
  by (simp add: example_state lease_flag check_active_def)

text \<open>Shutdown is terminal.\<close>

fun c_rejected :: "c_op \<Rightarrow> c_out \<Rightarrow> bool" where
  "c_rejected Shutdown out = (out = OUnit)"
| "c_rejected (Release h) out = (out = OUnit)"
| "c_rejected (ActiveRequestCancelled h) out = (out = OBool False)"
| "c_rejected _ out = (out = OErr RegistryClosed)"

definition c_closed :: "registry \<Rightarrow> bool" where
  "c_closed s \<longleftrightarrow> r_closed s \<and> r_entries s = []"

interpretation registry: closable c_step c_closed c_rejected shutdown
proof unfold_locales
  fix s :: registry and op
  show "c_closed (shutdown s)" by (simp add: c_closed_def shutdown_def notify_def)
  assume "c_closed s"
  then show "c_closed (snd (c_step op s))" and "c_rejected op (fst (c_step op s))"
    by (cases op; simp add: c_closed_def registry_ops is_cancelled_def lease_is_cancelled_def
        check_live_def check_active_def active_request_cancelled_def)+
qed

text \<open>
   After shutdown, every sequence of calls, through the registry or through leases still
  held, is rejected with \<open>RegistryClosed\<close> call by call (releases are accepted and do nothing).
\<close>

theorem shutdown_is_terminal:
  "list_all2 c_rejected ops (fst (run_ops c_step ops (shutdown s)))"
  by (rule registry.after_shutdown)

lemma length_set_flags [simp]: "length (set_flags F as) = length F"
  by (induction as arbitrary: F) auto

lemma nth_set_flags: "\<forall>b \<in> set as. b < length F \<Longrightarrow> a < length F \<Longrightarrow>
  set_flags F as ! a \<longleftrightarrow> F ! a \<or> a \<in> set as"
proof (induction as arbitrary: F)
  case Nil
  then show ?case by simp
next
  case (Cons c as)
  have "set_flags (F[c := True]) as ! a \<longleftrightarrow> F[c := True] ! a \<or> a \<in> set as"
    using Cons.prems by (intro Cons.IH) auto
  with Cons.prems show ?case by (auto simp: nth_list_update)
qed

text \<open>
  \<^verbatim>\<open>cancel_active\<close> returns, in order and without duplicates, exactly the ids with a live
  lease, and leaves every live lease cancelled except the anonymous ones.
\<close>

theorem cancel_active_cancels_live:
  assumes reach: "c_reach d s" and opened: "\<not> r_closed s"
  shows "\<exists>ids. fst (cancel_active s) = OIds ids \<and> sorted_wrt (<) ids \<and>
    set ids = {i. i \<noteq> [] \<and> 0 < live (r_leases s) i} \<and>
    (\<forall>h < length (r_leases s). \<not> l_released (r_leases s ! h) \<longrightarrow>
       lease_is_cancelled h (snd (cancel_active s)) = OBool (l_id (r_leases s ! h) \<noteq> []))"
proof -
  note ok = reach_open(1) [OF reach opened] and inv = reach_open(2) [OF reach opened]
  let ?act = "filter (\<lambda>(i, e). 0 < e_references e) (r_entries s)"
  let ?as = "map (\<lambda>(i, e). e_cancelled e) ?act"
  have mem: "(i, e) \<in> set ?act \<longleftrightarrow> bt_get (r_entries s) i = Some e \<and> 0 < live (r_leases s) i" for i e
    using bt_mem [OF ok] open_refs [OF inv] by auto
  have ids: "i \<in> fst ` set ?act \<longleftrightarrow> i \<noteq> [] \<and> 0 < live (r_leases s) i" for i
  proof
    assume "i \<in> fst ` set ?act"
    then obtain e where "(i, e) \<in> set ?act" by force
    with mem open_ne [OF inv] show "i \<noteq> [] \<and> 0 < live (r_leases s) i" by blast
  next
    assume i: "i \<noteq> [] \<and> 0 < live (r_leases s) i"
    with open_gone [OF inv, of i] obtain e where "bt_get (r_entries s) i = Some e" by fastforce
    with i mem show "i \<in> fst ` set ?act" by force
  qed
  have bound: "\<forall>b \<in> set ?as. b < length (r_flags s)"
    using mem open_addr [OF inv] by fastforce
  have lease: "lease_is_cancelled h (snd (cancel_active s)) = OBool (l_id (r_leases s ! h) \<noteq> [])"
    if h: "h < length (r_leases s)" and live: "\<not> l_released (r_leases s ! h)" for h
  proof -
    let ?l = "r_leases s ! h"
    have "l_cancelled ?l < length (r_flags s)"
      using open_lease [OF inv, of ?l] h by (simp add: lease_ok_def)
    then have flag: "set_flags (r_flags s) ?as ! l_cancelled ?l \<longleftrightarrow>
        r_flags s ! l_cancelled ?l \<or> l_cancelled ?l \<in> set ?as"
      by (rule nth_set_flags [OF bound])
    have "set_flags (r_flags s) ?as ! l_cancelled ?l \<longleftrightarrow> l_id ?l \<noteq> []"
    proof (cases "l_id ?l = []")
      case True
      have "l_cancelled ?l \<notin> set ?as"
        using anonymous_lease(2) [OF inv h True] mem by fastforce
      with True anonymous_lease(1) [OF inv h True] flag show ?thesis by simp
    next
      case False
      from live_lease_entry [OF inv h live False] obtain e where
        e: "bt_get (r_entries s) (l_id ?l) = Some e" "e_cancelled e = l_cancelled ?l" .
      with mem live_pos [of ?l "r_leases s"] h live have "(l_id ?l, e) \<in> set ?act" by auto
      then have "l_cancelled ?l \<in> set ?as" using e(2) by force
      with False flag show ?thesis by simp
    qed
    with opened live show ?thesis
      by (simp add: cancel_active_def notify_def Let_def lease_is_cancelled_def check_live_def)
  qed
  have "sorted_wrt (<) (map fst ?act)"
    using bt_ok_filter [OF ok] by (simp add: bt_ok_def)
  moreover have "fst (cancel_active s) = OIds (map fst ?act)"
    using opened by (simp add: cancel_active_def Let_def)
  ultimately show ?thesis
    using ids lease by (intro exI [of _ "map fst ?act"]) auto
qed

theorem cancel_active_witness:
  "\<exists>ids. fst (cancel_active (example_run [Acquire ''a'', Acquire ''a'', Acquire ''b''])) = OIds ids \<and>
     ''b'' \<in> set ids"
  using cancel_active_cancels_live [OF example_reach] by (auto simp: example_state live_def)

text \<open>
   A blocking wait returns: as soon as a wake-up finds the bounded timeout elapsed the call
  has an answer, the timeout is between one millisecond and one minute, and \<open>True\<close> is only
  answered when the lease's flag was set at some wake-up.
\<close>

theorem wait_cancelled_returns:
  assumes "(elapsed, s) \<in> set obs" and "wait_timeout ms \<le> elapsed"
  shows "\<exists>out. wait_cancelled h ms obs = Some out \<and> 1 \<le> wait_timeout ms \<and> wait_timeout ms \<le> 60000 \<and>
    (out = OBool True \<longrightarrow> (\<exists>(e, s') \<in> set obs. r_flags s' ! l_cancelled (r_leases s' ! h)))"
proof -
  have "\<exists>out. wait_cancelled h ms obs = Some out"
    using assms
    by (induction obs) (auto simp: wait_pass_def Let_def split: option.splits wait_step.splits if_splits)
  moreover have "wait_cancelled h ms obs = Some (OBool True) \<Longrightarrow>
      \<exists>(e, s') \<in> set obs. r_flags s' ! l_cancelled (r_leases s' ! h)" for obs
    by (induction obs) (auto simp: wait_pass_def Let_def split: option.splits wait_step.splits if_splits)
  moreover have "1 \<le> wait_timeout ms" "wait_timeout ms \<le> 60000"
    by (auto simp: wait_timeout_def)
  ultimately show ?thesis by auto
qed

theorem wait_cancelled_witness:
  "\<exists>out. wait_cancelled 0 5 [(0, example_run [Acquire ''a'']), (7, example_run [Acquire ''a''])] = Some out"
  using wait_cancelled_returns [of 7 "example_run [Acquire ''a'']"
      "[(0, example_run [Acquire ''a'']), (7, example_run [Acquire ''a''])]" 5 0]
  by (auto simp: wait_timeout_def)

end
