(* ===== verification/F64.thy ===== *)
theory F64
  imports Prelude Complex_Main "HOL-Library.Log_Nat"
begin

text \<open>
  IEEE 754 binary64 as the progress code uses it: a value is not a number, an infinity or an
  exact rational, every operation computes exactly and rounds to the nearest representable
  value (ties to even, gradual underflow, overflow to infinity).  The two zeros are one value,
  which nothing here distinguishes.
\<close>

datatype f64 = NaN | Infty bool | Fin rat

abbreviation pow2 :: "int \<Rightarrow> rat" where "pow2 k \<equiv> power_int 2 k"

text \<open>The binary exponent of a positive rational.\<close>

definition floor_log2 :: "rat \<Rightarrow> int" where
  "floor_log2 x =
     (let (p, q) = quotient_of x;
          e = int (floorlog 2 (nat p)) - int (floorlog 2 (nat q))
      in if pow2 e \<le> x then e else e - 1)"

definition round_even :: "rat \<Rightarrow> int" where
  "round_even x =
     (let n = \<lfloor>x\<rfloor>; d = x - of_int n
      in if d < 1 / 2 then n else if 1 / 2 < d then n + 1 else if even n then n else n + 1)"

definition fl :: "rat \<Rightarrow> f64" where
  "fl x =
     (if x = 0 then Fin 0
      else let q = max (floor_log2 \<bar>x\<bar> - 52) (- 1074);
               y = of_int (round_even (x / pow2 q)) * pow2 q
           in if pow2 1024 \<le> \<bar>y\<bar> then Infty (y < 0) else Fin y)"

definition is_nan :: "f64 \<Rightarrow> bool" where "is_nan x = (x = NaN)"

definition is_finite :: "f64 \<Rightarrow> bool" where
  "is_finite x = (case x of Fin _ \<Rightarrow> True | _ \<Rightarrow> False)"

fun f_le :: "f64 \<Rightarrow> f64 \<Rightarrow> bool" where
  "f_le NaN y = False"
| "f_le x NaN = False"
| "f_le (Infty True) y = True"
| "f_le (Infty False) y = (y = Infty False)"
| "f_le (Fin a) (Infty s) = (\<not> s)"
| "f_le (Fin a) (Fin b) = (a \<le> b)"

definition f_min :: "f64 \<Rightarrow> f64 \<Rightarrow> f64" where
  "f_min x y = (if is_nan x then y else if is_nan y then x else if f_le x y then x else y)"

text \<open>Multiplication by a positive constant and division by a positive integer are the two
  arithmetic operations of the progress code.\<close>

fun f_scale :: "f64 \<Rightarrow> rat \<Rightarrow> f64" where
  "f_scale NaN k = NaN"
| "f_scale (Infty s) k = Infty s"
| "f_scale (Fin a) k = fl (a * k)"

text \<open>\<^verbatim>\<open>i as f64\<close> and \<^verbatim>\<open>a as f64 / b as f64\<close> for integers with \<open>b > 0\<close>.\<close>

definition f_of_int :: "int \<Rightarrow> f64" where "f_of_int i = fl (of_int i)"

definition f_div_int :: "int \<Rightarrow> int \<Rightarrow> f64" where
  "f_div_int a b =
     (case (f_of_int a, f_of_int b) of
        (Fin x, Fin y) \<Rightarrow> fl (x / y)
      | _ \<Rightarrow> NaN)"

text \<open>Division by a positive number, and \<^verbatim>\<open>Duration::as_secs_f64\<close> of a duration in nanoseconds.\<close>

fun f_div :: "f64 \<Rightarrow> f64 \<Rightarrow> f64" where
  "f_div NaN y = NaN"
| "f_div x NaN = NaN"
| "f_div (Infty s) (Infty t) = NaN"
| "f_div (Infty s) (Fin b) = Infty s"
| "f_div (Fin a) (Infty t) = Fin 0"
| "f_div (Fin a) (Fin b) = (if b = 0 then (if a = 0 then NaN else Infty (a < 0)) else fl (a / b))"

definition as_secs_f64 :: "nat \<Rightarrow> f64" where
  "as_secs_f64 ns =
     (case (f_of_int (int (ns div 1000000000)), f_div_int (int (ns mod 1000000000)) 1000000000) of
        (Fin secs, Fin rest) \<Rightarrow> fl (secs + rest)
      | _ \<Rightarrow> NaN)"

text \<open>\<^verbatim>\<open>1.0 - x\<close>\<close>

fun f_one_minus :: "f64 \<Rightarrow> f64" where
  "f_one_minus NaN = NaN"
| "f_one_minus (Infty s) = Infty (\<not> s)"
| "f_one_minus (Fin a) = fl (1 - a)"

text \<open>\<^verbatim>\<open>round\<close> (half away from zero) and the saturating casts.\<close>

definition round_away :: "rat \<Rightarrow> int" where
  "round_away x = (if 0 \<le> x then \<lfloor>x + 1 / 2\<rfloor> else - \<lfloor>1 / 2 - x\<rfloor>)"

fun f_round :: "f64 \<Rightarrow> f64" where
  "f_round (Fin a) = Fin (of_int (round_away a))"
| "f_round x = x"

definition clamp_int :: "int \<Rightarrow> int \<Rightarrow> int \<Rightarrow> int" where
  "clamp_int lo hi i = max lo (min hi i)"

definition trunc_rat :: "rat \<Rightarrow> int" where
  "trunc_rat x = (if 0 \<le> x then \<lfloor>x\<rfloor> else - \<lfloor>- x\<rfloor>)"

fun f_to_int :: "int \<Rightarrow> int \<Rightarrow> f64 \<Rightarrow> int" where
  "f_to_int lo hi NaN = 0"
| "f_to_int lo hi (Infty s) = (if s then lo else hi)"
| "f_to_int lo hi (Fin a) = clamp_int lo hi (trunc_rat a)"

end
