(* ===== verification/Progress.thy ===== *)
theory Progress
  imports Strings BTree Lifecycle F64 "HOL-Library.Signed_Division"
begin

text \<open>
  Sparse download progress (rust\_backend/crates/core/src/progress/mod.rs and
  subscription.rs): a registry of items with a global revision counter, tombstones for removed
  items, and delta documents for clients that poll or wait.

  JSON documents are the values they serialise (\<open>delta_doc\<close>, the item map of a snapshot); the
  empty string is \<open>NoDelta\<close> or \<open>None\<close>.  Revisions are \<^verbatim>\<open>i64\<close> with the wrap-around written out.
\<close>

section \<open>Items\<close>

definition update_bytes :: int where "update_bytes = 128 * 1024"

record item =
  i_id :: bytes
  i_total :: int
  i_received :: int
  i_progress :: f64
  i_speed :: f64
  i_downloading :: bool
  i_status :: bytes
  i_stage :: bytes
  i_revision :: int

record bridge_state =
  b_bytes :: int
  b_total :: int
  b_percent :: int
  b_speed :: int
  b_downloading :: bool
  b_status :: bytes
  b_stage :: bytes

text \<open>The cast to \<^verbatim>\<open>i64\<close> follows the target architecture, as the Go backend does.\<close>

datatype target_arch = X86 | Arm | OtherArch

definition rounded_speed :: "target_arch \<Rightarrow> f64 \<Rightarrow> int" where
  "rounded_speed arch v =
     (let value = f_round v in
      if arch = X86 \<and> f_le (Fin (2 ^ 63)) value then i64_min
      else if arch = Arm \<and> (f_le (Fin (2 ^ 64)) value \<or> \<not> is_finite value)
        then wrap_i64 (f_to_int 0 (2 ^ 32 - 1) value * 2 ^ 32)
      else if arch = Arm \<and> f_le (Fin (2 ^ 63)) value
        then wrap_i64 (f_to_int 0 (2 ^ 64 - 1) value)
      else f_to_int i64_min i64_max value)"

definition bridge :: "target_arch \<Rightarrow> item \<Rightarrow> bridge_state" where
  "bridge arch it =
     (let progress = (if is_nan (i_progress it) \<or> f_le (i_progress it) (Fin 0) then Fin 0
                      else f_min (i_progress it) (Fin 1));
          speed = (if is_nan (i_speed it) \<or> f_le (i_speed it) (Fin 0) then Fin 0 else i_speed it)
      in \<lparr>b_bytes = i_received it sdiv update_bytes,
          b_total = i_total it,
          b_percent = f_to_int i64_min i64_max (f_round (f_scale progress 100)),
          b_speed = rounded_speed arch (f_scale speed 10),
          b_downloading = i_downloading it,
          b_status = i_status it,
          b_stage = i_stage it\<rparr>)"

definition finite_item :: "item \<Rightarrow> bool" where
  "finite_item it \<longleftrightarrow> is_finite (i_progress it) \<and> is_finite (i_speed it)"

section \<open>The registry\<close>

datatype progress_error = Closed | SubscriptionClosed

record progress =
  p_items :: "(bytes, item) btree"
  p_removed :: "(bytes, int) btree"
  p_seq :: int
  p_reset :: int
  p_dirty :: bool
  p_cached :: "(bytes, item) btree option"
  p_closed :: bool
  p_wakes :: nat

definition new_progress :: progress where
  "new_progress = \<lparr>p_items = [], p_removed = [], p_seq = 0, p_reset = 0, p_dirty = True,
     p_cached = Some [], p_closed = False, p_wakes = 0\<rparr>"

text \<open>\<^verbatim>\<open>State::next\<close>\<close>

definition next_rev :: "progress \<Rightarrow> int \<times> progress" where
  "next_rev s =
     (let seq = wrap_i64 (p_seq s + 1)
      in (seq, s\<lparr>p_seq := seq, p_dirty := True, p_wakes := Suc (p_wakes s)\<rparr>))"

datatype delta_doc =
  NoDelta
| Delta (d_seq: int) (d_reset: bool) (d_items: "(bytes, item) btree") (d_removed: "bytes list")

definition state_delta :: "progress \<Rightarrow> int \<Rightarrow> delta_doc" where
  "state_delta s since =
     (if p_seq s \<le> since then NoDelta
      else
        let reset = (since \<le> 0 \<or> since < p_reset s);
            items = filter (\<lambda>(_, it). reset \<or> since < i_revision it) (p_items s)
        in if list_ex (\<lambda>(_, it). \<not> finite_item it) items then NoDelta
           else Delta (p_seq s) reset items
             (if reset then [] else map fst (filter (\<lambda>(_, r). since < r) (p_removed s))))"

datatype p_out = PUnit | PErr progress_error | PDelta delta_doc
  | PItem "item option" | PSnapshot "(bytes, item) btree option" | PEmpty

definition start :: "bytes \<Rightarrow> progress \<Rightarrow> p_out \<times> progress" where
  "start i s =
     (if p_closed s then (PErr Closed, s)
      else
        let (revision, s1) = next_rev s;
            it = \<lparr>i_id = i, i_total = 0, i_received = 0, i_progress = Fin 0, i_speed = Fin 0,
                  i_downloading = False, i_status = ''preparing'', i_stage = [], i_revision = revision\<rparr>
        in (PUnit, s1\<lparr>p_items := bt_insert i it (p_items s1), p_removed := bt_remove i (p_removed s1)\<rparr>))"

definition update :: "target_arch \<Rightarrow> bytes \<Rightarrow> (item \<Rightarrow> item) \<Rightarrow> progress \<Rightarrow> p_out \<times> progress" where
  "update arch i f s =
     (if p_closed s then (PErr Closed, s)
      else case bt_get (p_items s) i of
          None \<Rightarrow> (PUnit, s)
        | Some it \<Rightarrow>
            let before = bridge arch it;
                it' = f it;
                s1 = s\<lparr>p_items := bt_insert i it' (p_items s)\<rparr>
            in if bridge arch it' \<noteq> before
               then let (revision, s2) = next_rev s1
                    in (PUnit, s2\<lparr>p_items := bt_insert i (it'\<lparr>i_revision := revision\<rparr>) (p_items s2)\<rparr>)
               else (PUnit, s1))"

definition mark_downloading :: "item \<Rightarrow> item" where
  "mark_downloading it = it\<lparr>i_downloading := True, i_status := ''downloading'', i_stage := []\<rparr>"

definition set_received_item :: "int \<Rightarrow> item \<Rightarrow> item" where
  "set_received_item received it =
     (let it1 = it\<lparr>i_received := received\<rparr>;
          it2 = (if 0 < i_total it1 then it1\<lparr>i_progress := f_div_int received (i_total it1)\<rparr> else it1)
      in if 0 < received then mark_downloading it2 else it2)"

definition set_progress_item :: "f64 \<Rightarrow> int \<Rightarrow> int \<Rightarrow> item \<Rightarrow> item" where
  "set_progress_item progress received total_b it =
     (let has_bytes = (0 < received \<or> 0 < total_b);
          done = f_le (Fin 1) progress;
          it1 = it\<lparr>i_progress :=
                  (if i_status it \<noteq> ''preparing'' \<or> has_bytes \<or> done then progress else Fin 0)\<rparr>;
          it2 = (if 0 < received then it1\<lparr>i_received := received\<rparr> else it1);
          it3 = (if 0 < total_b then it2\<lparr>i_total := total_b\<rparr> else it2)
      in if has_bytes \<or> done \<or> i_status it3 = ''downloading'' then mark_downloading it3 else it3)"

definition preparing :: "target_arch \<Rightarrow> bytes \<Rightarrow> bytes \<Rightarrow> progress \<Rightarrow> p_out \<times> progress" where
  "preparing arch i stage = update arch i (\<lambda>it. it\<lparr>i_progress := Fin 0, i_received := 0, i_total := 0,
     i_speed := Fin 0, i_downloading := True, i_status := ''preparing'', i_stage := stage\<rparr>)"

definition downloading :: "target_arch \<Rightarrow> bytes \<Rightarrow> progress \<Rightarrow> p_out \<times> progress" where
  "downloading arch i = update arch i mark_downloading"

definition set_total :: "target_arch \<Rightarrow> bytes \<Rightarrow> int \<Rightarrow> progress \<Rightarrow> p_out \<times> progress" where
  "set_total arch i total_b = update arch i (\<lambda>it. it\<lparr>i_total := total_b\<rparr>)"

definition set_received :: "target_arch \<Rightarrow> bytes \<Rightarrow> int \<Rightarrow> progress \<Rightarrow> p_out \<times> progress" where
  "set_received arch i received = update arch i (set_received_item received)"

definition set_received_with_speed ::
    "target_arch \<Rightarrow> bytes \<Rightarrow> int \<Rightarrow> f64 \<Rightarrow> progress \<Rightarrow> p_out \<times> progress" where
  "set_received_with_speed arch i received speed =
     update arch i (\<lambda>it. set_received_item received (it\<lparr>i_speed := speed\<rparr>))"

definition set_progress :: "target_arch \<Rightarrow> bytes \<Rightarrow> f64 \<Rightarrow> int \<Rightarrow> int \<Rightarrow> progress \<Rightarrow> p_out \<times> progress" where
  "set_progress arch i progress received total_b = update arch i (set_progress_item progress received total_b)"

definition finalizing :: "target_arch \<Rightarrow> bytes \<Rightarrow> progress \<Rightarrow> p_out \<times> progress" where
  "finalizing arch i =
     update arch i (\<lambda>it. it\<lparr>i_progress := Fin 1, i_status := ''finalizing'', i_stage := []\<rparr>)"

definition complete_item :: "target_arch \<Rightarrow> bytes \<Rightarrow> progress \<Rightarrow> p_out \<times> progress" where
  "complete_item arch i =
     update arch i (\<lambda>it. it\<lparr>i_progress := Fin 1, i_downloading := False,
       i_status := ''completed'', i_stage := []\<rparr>)"

text \<open>Tombstones beyond 512 are dropped up to the median revision, which becomes a reset.\<close>

definition compact :: "progress \<Rightarrow> progress" where
  "compact s =
     (if 512 < length (p_removed s)
      then let revisions = sort (map snd (p_removed s));
               cutoff = revisions ! (length revisions div 2)
           in s\<lparr>p_removed := bt_retain (\<lambda>_ r. cutoff < r) (p_removed s), p_reset := max (p_reset s) cutoff\<rparr>
      else s)"

definition remove_item :: "bytes \<Rightarrow> progress \<Rightarrow> p_out \<times> progress" where
  "remove_item i s =
     (if p_closed s then (PErr Closed, s)
      else
        let s1 = (case bt_get (p_items s) i of
                    None \<Rightarrow> s
                  | Some _ \<Rightarrow>
                      let (seq, s') = next_rev (s\<lparr>p_items := bt_remove i (p_items s)\<rparr>)
                      in compact (s'\<lparr>p_removed := bt_insert i seq (p_removed s')\<rparr>))
        in (PUnit, s1\<lparr>p_dirty := True\<rparr>))"

definition clear :: "progress \<Rightarrow> p_out \<times> progress" where
  "clear s =
     (if p_closed s then (PErr Closed, s)
      else let (seq, s1) = next_rev (s\<lparr>p_items := [], p_removed := []\<rparr>)
           in (PUnit, s1\<lparr>p_reset := seq\<rparr>))"

definition item_doc :: "bytes \<Rightarrow> progress \<Rightarrow> p_out" where
  "item_doc i s =
     (if p_closed s then PErr Closed
      else case bt_get (p_items s) i of
          Some it \<Rightarrow> if finite_item it then PItem (Some it) else PEmpty
        | None \<Rightarrow> PItem None)"

definition snapshot :: "progress \<Rightarrow> p_out \<times> progress" where
  "snapshot s =
     (if p_closed s then (PErr Closed, s)
      else if p_dirty s then
        (if list_ex (\<lambda>(_, it). \<not> finite_item it) (p_items s) then (PSnapshot (Some []), s)
         else let s1 = s\<lparr>p_cached := Some (p_items s), p_dirty := False\<rparr>
              in (PSnapshot (p_cached s1), s1))
      else (PSnapshot (p_cached s), s))"

definition delta :: "int \<Rightarrow> progress \<Rightarrow> p_out" where
  "delta since s = (if p_closed s then PErr Closed else PDelta (state_delta s since))"

definition p_shutdown :: "progress \<Rightarrow> progress" where
  "p_shutdown s = s\<lparr>p_closed := True, p_items := [], p_removed := [], p_cached := None,
     p_wakes := Suc (p_wakes s)\<rparr>"

section \<open>The machine\<close>

datatype p_op =
  OpStart bytes | OpPreparing bytes bytes | OpDownloading bytes | OpSetTotal bytes int
| OpSetReceived bytes int | OpSetReceivedWithSpeed bytes int f64
| OpSetProgress bytes f64 int int | OpFinalizing bytes | OpComplete bytes
| OpRemove bytes | OpClear | OpItem bytes | OpSnapshot | OpDelta int | OpShutdown

fun p_step :: "target_arch \<Rightarrow> p_op \<Rightarrow> progress \<Rightarrow> p_out \<times> progress" where
  "p_step arch (OpStart i) s = start i s"
| "p_step arch (OpPreparing i stage) s = preparing arch i stage s"
| "p_step arch (OpDownloading i) s = downloading arch i s"
| "p_step arch (OpSetTotal i t) s = set_total arch i t s"
| "p_step arch (OpSetReceived i r) s = set_received arch i r s"
| "p_step arch (OpSetReceivedWithSpeed i r v) s = set_received_with_speed arch i r v s"
| "p_step arch (OpSetProgress i p r t) s = set_progress arch i p r t s"
| "p_step arch (OpFinalizing i) s = finalizing arch i s"
| "p_step arch (OpComplete i) s = complete_item arch i s"
| "p_step arch (OpRemove i) s = remove_item i s"
| "p_step arch OpClear s = clear s"
| "p_step arch (OpItem i) s = (item_doc i s, s)"
| "p_step arch OpSnapshot s = snapshot s"
| "p_step arch (OpDelta since) s = (delta since s, s)"
| "p_step arch OpShutdown s = (PUnit, p_shutdown s)"

text \<open>
  Runs of the machine.  The revision counter is an \<^verbatim>\<open>i64\<close>; a run is one in which it has not
  reached its maximum (which takes \<open>2^63\<close> visible changes).
\<close>

inductive p_steps :: "target_arch \<Rightarrow> progress \<Rightarrow> progress \<Rightarrow> bool" for arch s0 where
  refl: "p_steps arch s0 s0"
| step: "p_steps arch s0 s \<Longrightarrow> p_seq s < i64_max \<Longrightarrow> p_steps arch s0 (snd (p_step arch op s))"

section \<open>The invariant\<close>

definition p_inv :: "progress \<Rightarrow> bool" where
  "p_inv s \<longleftrightarrow> bt_ok (p_items s) \<and> bt_ok (p_removed s) \<and> 0 \<le> p_seq s \<and> p_reset s \<le> p_seq s \<and>
     (\<forall>i it. bt_get (p_items s) i = Some it \<longrightarrow>
        i_id it = i \<and> 0 < i_revision it \<and> i_revision it \<le> p_seq s \<and> bt_get (p_removed s) i = None) \<and>
     (\<forall>i r. bt_get (p_removed s) i = Some r \<longrightarrow> 0 < r \<and> r \<le> p_seq s)"

lemma p_invD:
  assumes "p_inv s"
  shows p_items_ok: "bt_ok (p_items s)" and p_removed_ok: "bt_ok (p_removed s)"
    and p_seq_nonneg: "0 \<le> p_seq s" and p_reset_le: "p_reset s \<le> p_seq s"
    and p_item_id: "bt_get (p_items s) i = Some it \<Longrightarrow> i_id it = i"
    and p_item_pos: "bt_get (p_items s) i = Some it \<Longrightarrow> 0 < i_revision it"
    and p_item_le: "bt_get (p_items s) i = Some it \<Longrightarrow> i_revision it \<le> p_seq s"
    and p_item_live: "bt_get (p_items s) i = Some it \<Longrightarrow> bt_get (p_removed s) i = None"
    and p_removed_pos: "bt_get (p_removed s) i = Some r \<Longrightarrow> 0 < r"
    and p_removed_le: "bt_get (p_removed s) i = Some r \<Longrightarrow> r \<le> p_seq s"
  using assms unfolding p_inv_def by blast+

lemma p_invI:
  assumes "bt_ok (p_items s)" and "bt_ok (p_removed s)" and "0 \<le> p_seq s" and "p_reset s \<le> p_seq s"
    and "\<And>i it. bt_get (p_items s) i = Some it \<Longrightarrow>
      i_id it = i \<and> 0 < i_revision it \<and> i_revision it \<le> p_seq s \<and> bt_get (p_removed s) i = None"
    and "\<And>i r. bt_get (p_removed s) i = Some r \<Longrightarrow> 0 < r \<and> r \<le> p_seq s"
  shows "p_inv s"
  using assms unfolding p_inv_def by blast

lemma next_rev_eq: "p_inv s \<Longrightarrow> p_seq s < i64_max \<Longrightarrow>
  next_rev s = (p_seq s + 1, s\<lparr>p_seq := p_seq s + 1, p_dirty := True, p_wakes := Suc (p_wakes s)\<rparr>)"
proof -
  assume "p_inv s" "p_seq s < i64_max"
  then have "wrap_i64 (p_seq s + 1) = p_seq s + 1"
    using p_seq_nonneg [of s] by (intro wrap_i64_id) (auto simp: i64_min_def)
  then show ?thesis by (simp add: next_rev_def Let_def)
qed

text \<open>Every item update keeps the id and the revision.\<close>

definition keeps :: "(item \<Rightarrow> item) \<Rightarrow> bool" where
  "keeps f \<longleftrightarrow> (\<forall>it. i_id (f it) = i_id it \<and> i_revision (f it) = i_revision it)"

lemma keeps_updates [simp]:
  "keeps mark_downloading" "keeps (set_received_item r)" "keeps (set_progress_item p r t)"
  "keeps (\<lambda>it. set_received_item r (it\<lparr>i_speed := v\<rparr>))"
  "keeps (\<lambda>it. it\<lparr>i_total := t\<rparr>)"
  "keeps (\<lambda>it. it\<lparr>i_progress := p, i_received := r, i_total := t, i_speed := v,
            i_downloading := d, i_status := st, i_stage := sg\<rparr>)"
  "keeps (\<lambda>it. it\<lparr>i_progress := p, i_status := st, i_stage := sg\<rparr>)"
  "keeps (\<lambda>it. it\<lparr>i_progress := p, i_downloading := d, i_status := st, i_stage := sg\<rparr>)"
  by (auto simp: keeps_def mark_downloading_def set_received_item_def set_progress_item_def Let_def)

text \<open>What a step does to the fields that matter to clients.\<close>

datatype change =
  Quiet | Started bytes | Updated bytes "item \<Rightarrow> item" | Removed bytes | Cleared | ShutDown

fun change_of :: "p_op \<Rightarrow> change" where
  "change_of (OpStart i) = Started i"
| "change_of (OpPreparing i stage) = Updated i (\<lambda>it. it\<lparr>i_progress := Fin 0, i_received := 0,
     i_total := 0, i_speed := Fin 0, i_downloading := True, i_status := ''preparing'', i_stage := stage\<rparr>)"
| "change_of (OpDownloading i) = Updated i mark_downloading"
| "change_of (OpSetTotal i t) = Updated i (\<lambda>it. it\<lparr>i_total := t\<rparr>)"
| "change_of (OpSetReceived i r) = Updated i (set_received_item r)"
| "change_of (OpSetReceivedWithSpeed i r v) = Updated i (\<lambda>it. set_received_item r (it\<lparr>i_speed := v\<rparr>))"
| "change_of (OpSetProgress i p r t) = Updated i (set_progress_item p r t)"
| "change_of (OpFinalizing i) =
     Updated i (\<lambda>it. it\<lparr>i_progress := Fin 1, i_status := ''finalizing'', i_stage := []\<rparr>)"
| "change_of (OpComplete i) = Updated i (\<lambda>it. it\<lparr>i_progress := Fin 1, i_downloading := False,
     i_status := ''completed'', i_stage := []\<rparr>)"
| "change_of (OpRemove i) = Removed i"
| "change_of OpClear = Cleared"
| "change_of OpShutdown = ShutDown"
| "change_of _ = Quiet"

fun do_change :: "target_arch \<Rightarrow> change \<Rightarrow> progress \<Rightarrow> progress" where
  "do_change arch Quiet s = s"
| "do_change arch (Started i) s = snd (start i s)"
| "do_change arch (Updated i f) s = snd (update arch i f s)"
| "do_change arch (Removed i) s = snd (remove_item i s)"
| "do_change arch Cleared s = snd (clear s)"
| "do_change arch ShutDown s = p_shutdown s"

lemma change_keeps: "change_of op = Updated i f \<Longrightarrow> keeps f"
  by (cases op) auto

definition same_core :: "progress \<Rightarrow> progress \<Rightarrow> bool" where
  "same_core s t \<longleftrightarrow> p_items s = p_items t \<and> p_removed s = p_removed t \<and> p_seq s = p_seq t \<and>
     p_reset s = p_reset t \<and> p_closed s = p_closed t"

lemma step_change: "same_core (snd (p_step arch op s)) (do_change arch (change_of op) s)"
  by (cases op) (simp_all add: same_core_def preparing_def downloading_def set_total_def
      set_received_def set_received_with_speed_def set_progress_def finalizing_def
      complete_item_def snapshot_def Let_def)

lemma p_inv_core: "same_core s t \<Longrightarrow> p_inv s = p_inv t"
  by (simp add: p_inv_def same_core_def)

lemma p_maps: "bt_ok m \<Longrightarrow> bt_get (bt_insert k v m) = (bt_get m)(k \<mapsto> v)"
  "bt_get (bt_remove k m) = (bt_get m)(k := None)"
  by (auto simp: bt.lookup_insert bt_get_remove)

text \<open>The registry as its clients see it.\<close>

definition "item_map s = bt_get (p_items s)"
definition "removed_map s = bt_get (p_removed s)"

lemma start_effect:
  assumes inv: "p_inv s" and opened: "\<not> p_closed s" and seq: "p_seq s < i64_max"
  shows "\<exists>it. i_id it = i \<and> i_revision it = p_seq s + 1 \<and>
    item_map (snd (start i s)) = (item_map s)(i \<mapsto> it) \<and>
    removed_map (snd (start i s)) = (removed_map s)(i := None) \<and>
    bt_ok (p_items (snd (start i s))) \<and> bt_ok (p_removed (snd (start i s))) \<and>
    p_seq (snd (start i s)) = p_seq s + 1 \<and> p_reset (snd (start i s)) = p_reset s"
  using assms p_items_ok [OF inv] p_removed_ok [OF inv]
  by (intro exI [of _ "\<lparr>i_id = i, i_total = 0, i_received = 0, i_progress = Fin 0, i_speed = Fin 0,
      i_downloading = False, i_status = ''preparing'', i_stage = [], i_revision = p_seq s + 1\<rparr>"])
    (simp add: start_def next_rev_eq item_map_def removed_map_def p_maps bt_ok_insert bt_ok_remove Let_def)

lemma update_effect:
  assumes inv: "p_inv s" and opened: "\<not> p_closed s" and seq: "p_seq s < i64_max"
    and keeps: "keeps f" and it: "bt_get (p_items s) i = Some it"
  shows "\<exists>it'. item_map (snd (update arch i f s)) = (item_map s)(i \<mapsto> it') \<and> i_id it' = i_id it \<and>
    removed_map (snd (update arch i f s)) = removed_map s \<and>
    bt_ok (p_items (snd (update arch i f s))) \<and> bt_ok (p_removed (snd (update arch i f s))) \<and>
    p_reset (snd (update arch i f s)) = p_reset s \<and>
    (bridge arch it' = bridge arch it \<and> i_revision it' = i_revision it \<and>
       p_seq (snd (update arch i f s)) = p_seq s \<or>
     i_revision it' = p_seq s + 1 \<and> p_seq (snd (update arch i f s)) = p_seq s + 1)"
proof (cases "bridge arch (f it) = bridge arch it")
  case True
  then show ?thesis
    using assms p_items_ok [OF inv] p_removed_ok [OF inv]
    by (intro exI [of _ "f it"])
      (simp add: update_def item_map_def removed_map_def p_maps bt_ok_insert keeps_def Let_def)
next
  case False
  have "p_inv (s\<lparr>p_items := bt_insert i (f it) (p_items s)\<rparr>)"
    using inv it keeps p_items_ok [OF inv]
    by (auto simp: p_inv_def keeps_def p_maps bt_ok_insert)
  with False show ?thesis
    using assms p_items_ok [OF inv] p_removed_ok [OF inv]
    by (intro exI [of _ "(f it)\<lparr>i_revision := p_seq s + 1\<rparr>"])
      (simp add: update_def item_map_def removed_map_def p_maps bt_ok_insert keeps_def next_rev_eq Let_def)
qed

lemma compact_core: "p_items (compact s) = p_items s \<and> p_seq (compact s) = p_seq s \<and>
  p_closed (compact s) = p_closed s \<and> p_reset s \<le> p_reset (compact s)"
  by (simp add: compact_def Let_def)

lemma compact_effect:
  assumes ok: "bt_ok (p_removed s)"
  shows "bt_ok (p_removed (compact s))"
    and "removed_map (compact s) i = Some r \<Longrightarrow> removed_map s i = Some r"
    and "removed_map s i = Some r \<Longrightarrow> t < r \<Longrightarrow> t < p_reset (compact s) \<or> removed_map (compact s) i = Some r"
    and "p_reset (compact s) = p_reset s \<or> (\<exists>j. removed_map s j = Some (p_reset (compact s)))"
proof -
  let ?rs = "sort (map snd (p_removed s))" and ?cut = "sort (map snd (p_removed s)) ! (length (p_removed s) div 2)"
  show "bt_ok (p_removed (compact s))"
    using ok by (simp add: compact_def Let_def bt_ok_retain)
  show "removed_map (compact s) i = Some r \<Longrightarrow> removed_map s i = Some r"
    using ok by (auto simp: compact_def removed_map_def bt_get_retain Let_def split: option.splits if_splits)
  show "removed_map s i = Some r \<Longrightarrow> t < r \<Longrightarrow> t < p_reset (compact s) \<or> removed_map (compact s) i = Some r"
    using ok by (auto simp: compact_def removed_map_def bt_get_retain Let_def)
  show "p_reset (compact s) = p_reset s \<or> (\<exists>j. removed_map s j = Some (p_reset (compact s)))"
  proof (cases "512 < length (p_removed s) \<and> p_reset s < ?cut")
    case True
    then have "?cut \<in> set ?rs" by (intro nth_mem) auto
    then obtain j where "(j, ?cut) \<in> set (p_removed s)" by auto
    then have "removed_map s j = Some ?cut"
      using bt_distinct [OF ok] by (simp add: removed_map_def)
    with True show ?thesis by (auto simp: compact_def Let_def)
  next
    case False
    then show ?thesis by (auto simp: compact_def Let_def)
  qed
qed

lemma remove_missing:
  assumes "\<not> p_closed s" and "bt_get (p_items s) i = None"
  shows "same_core (snd (remove_item i s)) s"
  using assms by (simp add: remove_item_def same_core_def)

lemma remove_effect:
  assumes inv: "p_inv s" and opened: "\<not> p_closed s" and seq: "p_seq s < i64_max"
    and it: "bt_get (p_items s) i = Some it"
  shows "\<exists>s1. p_inv s1 \<and> removed_map s1 = (removed_map s)(i \<mapsto> p_seq s + 1) \<and>
    item_map s1 = (item_map s)(i := None) \<and> p_seq s1 = p_seq s + 1 \<and> p_reset s1 = p_reset s \<and>
    same_core (snd (remove_item i s)) (compact s1)"
proof -
  let ?s0 = "s\<lparr>p_items := bt_remove i (p_items s)\<rparr>"
  let ?s1 = "?s0\<lparr>p_seq := p_seq s + 1, p_dirty := True, p_wakes := Suc (p_wakes s),
    p_removed := bt_insert i (p_seq s + 1) (p_removed s)\<rparr>"
  have "p_inv ?s0"
    using inv p_items_ok [OF inv] by (auto simp: p_inv_def p_maps bt_ok_remove)
  then have nr: "next_rev ?s0 = (p_seq s + 1, ?s0\<lparr>p_seq := p_seq s + 1, p_dirty := True, p_wakes := Suc (p_wakes s)\<rparr>)"
    using seq by (simp add: next_rev_eq)
  have "p_inv ?s1"
  proof (rule p_invI)
    fix j d assume j: "bt_get (p_items ?s1) j = Some d"
    then have "j \<noteq> i" "bt_get (p_items s) j = Some d" by (auto simp: p_maps split: if_splits)
    then show "i_id d = j \<and> 0 < i_revision d \<and> i_revision d \<le> p_seq ?s1 \<and> bt_get (p_removed ?s1) j = None"
      using p_item_id [OF inv] p_item_pos [OF inv] p_item_le [OF inv, of j d] p_item_live [OF inv, of j d]
        p_removed_ok [OF inv] by (simp add: p_maps)
  next
    fix j r assume "bt_get (p_removed ?s1) j = Some r"
    then show "0 < r \<and> r \<le> p_seq ?s1"
      using p_removed_ok [OF inv] p_removed_pos [OF inv, of j r] p_removed_le [OF inv, of j r] p_seq_nonneg [OF inv]
      by (auto simp: p_maps split: if_splits)
  qed (use p_items_ok [OF inv] p_removed_ok [OF inv] p_seq_nonneg [OF inv] p_reset_le [OF inv]
      in \<open>auto simp: bt_ok_insert bt_ok_remove\<close>)
  moreover have "same_core (snd (remove_item i s)) (compact ?s1)"
    using opened it nr by (simp add: remove_item_def same_core_def Let_def)
  ultimately show ?thesis
    using p_removed_ok [OF inv]
    by (intro exI [of _ ?s1]) (simp add: removed_map_def item_map_def p_maps)
qed

section \<open>Clients\<close>

text \<open>
  A client that polls keeps a view of the items, the sequence number of the last delta it
  applied, and applies the next one.  Only what a client shows counts, the \<open>bridge\<close> of an item.
\<close>

fun apply_delta :: "(bytes \<rightharpoonup> item) \<Rightarrow> delta_doc \<Rightarrow> (bytes \<rightharpoonup> item)" where
  "apply_delta view NoDelta = view"
| "apply_delta view (Delta seq reset items removed) =
     (if reset then map_of items
      else (\<lambda>k. if k \<in> set removed then None else (view ++ map_of items) k))"

definition in_sync :: "target_arch \<Rightarrow> (bytes \<rightharpoonup> item) \<Rightarrow> progress \<Rightarrow> bool" where
  "in_sync arch view s \<longleftrightarrow>
     (\<forall>k. map_option (bridge arch) (view k) = map_option (bridge arch) (item_map s k))"

definition synced_key :: "target_arch \<Rightarrow> int \<Rightarrow> (bytes \<rightharpoonup> item) \<Rightarrow> progress \<Rightarrow> bytes \<Rightarrow> bool" where
  "synced_key arch t view s k \<longleftrightarrow>
     (\<forall>it. item_map s k = Some it \<longrightarrow> i_revision it \<le> t \<longrightarrow>
        (\<exists>v. view k = Some v \<and> bridge arch v = bridge arch it)) \<and>
     (item_map s k = None \<longrightarrow> view k \<noteq> None \<longrightarrow> (\<exists>r. removed_map s k = Some r \<and> t < r))"

definition synced :: "target_arch \<Rightarrow> int \<Rightarrow> (bytes \<rightharpoonup> item) \<Rightarrow> progress \<Rightarrow> bool" where
  "synced arch t view s \<longleftrightarrow> t \<le> p_seq s \<and> (t < p_reset s \<or> (\<forall>k. synced_key arch t view s k))"

text \<open>What one change does, as a client sees it.\<close>

inductive effect :: "target_arch \<Rightarrow> progress \<Rightarrow> progress \<Rightarrow> bool" for arch s s' where
  same: "item_map s' = item_map s \<Longrightarrow> removed_map s' = removed_map s \<Longrightarrow> p_seq s' = p_seq s \<Longrightarrow>
    p_reset s' = p_reset s \<Longrightarrow> effect arch s s'"
| fresh: "item_map s' = (item_map s)(i \<mapsto> it) \<Longrightarrow> removed_map s' = (removed_map s)(i := None) \<Longrightarrow>
    i_id it = i \<Longrightarrow> i_revision it = p_seq s + 1 \<Longrightarrow> p_seq s' = p_seq s + 1 \<Longrightarrow> p_reset s' = p_reset s \<Longrightarrow>
    effect arch s s'"
| silent: "item_map s i = Some it \<Longrightarrow> item_map s' = (item_map s)(i \<mapsto> it') \<Longrightarrow>
    removed_map s' = removed_map s \<Longrightarrow> i_id it' = i \<Longrightarrow> bridge arch it' = bridge arch it \<Longrightarrow>
    i_revision it' = i_revision it \<Longrightarrow> p_seq s' = p_seq s \<Longrightarrow> p_reset s' = p_reset s \<Longrightarrow> effect arch s s'"
| gone: "item_map s' = (item_map s)(i := None) \<Longrightarrow> p_seq s' = p_seq s + 1 \<Longrightarrow>
    p_reset s \<le> p_reset s' \<Longrightarrow> p_reset s' \<le> p_seq s' \<Longrightarrow>
    (\<And>k r. removed_map s' k = Some r \<Longrightarrow> ((removed_map s)(i \<mapsto> p_seq s + 1)) k = Some r) \<Longrightarrow>
    (\<And>t k r. ((removed_map s)(i \<mapsto> p_seq s + 1)) k = Some r \<Longrightarrow> t < r \<Longrightarrow>
       t < p_reset s' \<or> removed_map s' k = Some r) \<Longrightarrow> effect arch s s'"
| emptied: "item_map s' = Map.empty \<Longrightarrow> removed_map s' = Map.empty \<Longrightarrow> p_seq s' = p_seq s + 1 \<Longrightarrow>
    p_reset s' = p_seq s' \<Longrightarrow> effect arch s s'"

lemma removed_when_live: "p_inv s \<Longrightarrow> item_map s i = Some it \<Longrightarrow> removed_map s i = None"
  by (simp add: item_map_def removed_map_def p_item_live)

lemma change_effect:
  assumes inv: "p_inv s" and opened: "\<not> p_closed s" and seq: "p_seq s < i64_max"
    and keeps: "\<And>i f. c = Updated i f \<Longrightarrow> keeps f" and c: "c \<noteq> ShutDown"
  shows "effect arch s (do_change arch c s) \<and> bt_ok (p_items (do_change arch c s)) \<and>
    bt_ok (p_removed (do_change arch c s))"
proof (cases c)
  case Quiet
  then show ?thesis using p_items_ok [OF inv] p_removed_ok [OF inv] by (auto intro: effect.same)
next
  case (Started i)
  with start_effect [OF inv opened seq, of i] show ?thesis by (auto intro: effect.fresh)
next
  case (Updated i f)
  show ?thesis
  proof (cases "bt_get (p_items s) i")
    case None
    then show ?thesis using Updated opened p_items_ok [OF inv] p_removed_ok [OF inv]
      by (auto simp: update_def intro: effect.same)
  next
    case (Some it)
    have it: "item_map s i = Some it" using Some by (simp add: item_map_def)
    have rem: "removed_map s = (removed_map s)(i := None)"
      using removed_when_live [OF inv it] by auto
    obtain it' where e: "item_map (snd (update arch i f s)) = (item_map s)(i \<mapsto> it')" "i_id it' = i_id it"
      "removed_map (snd (update arch i f s)) = removed_map s"
      "bt_ok (p_items (snd (update arch i f s)))" "bt_ok (p_removed (snd (update arch i f s)))"
      "p_reset (snd (update arch i f s)) = p_reset s"
      "bridge arch it' = bridge arch it \<and> i_revision it' = i_revision it \<and>
         p_seq (snd (update arch i f s)) = p_seq s \<or>
       i_revision it' = p_seq s + 1 \<and> p_seq (snd (update arch i f s)) = p_seq s + 1"
      using update_effect [OF inv opened seq keeps [OF Updated] Some, of arch] by blast
    have id: "i_id it' = i" using e(2) p_item_id [OF inv Some] by simp
    from e(7) have "effect arch s (snd (update arch i f s))"
    proof
      assume "bridge arch it' = bridge arch it \<and> i_revision it' = i_revision it \<and>
         p_seq (snd (update arch i f s)) = p_seq s"
      then show ?thesis using effect.silent [OF it e(1,3) id] e(6) by blast
    next
      assume "i_revision it' = p_seq s + 1 \<and> p_seq (snd (update arch i f s)) = p_seq s + 1"
      then show ?thesis using effect.fresh [OF e(1) _ id] e(3,6) rem by metis
    qed
    with e(4,5) Updated show ?thesis by simp
  qed
next
  case (Removed i)
  show ?thesis
  proof (cases "bt_get (p_items s) i")
    case None
    then show ?thesis using Removed remove_missing [OF opened] p_items_ok [OF inv] p_removed_ok [OF inv]
      by (auto simp: same_core_def item_map_def removed_map_def intro!: effect.same)
  next
    case (Some it)
    obtain s1 where s1: "p_inv s1" "removed_map s1 = (removed_map s)(i \<mapsto> p_seq s + 1)"
      "item_map s1 = (item_map s)(i := None)" "p_seq s1 = p_seq s + 1" "p_reset s1 = p_reset s"
      and core: "same_core (snd (remove_item i s)) (compact s1)"
      using remove_effect [OF inv opened seq Some] by blast
    let ?s' = "snd (remove_item i s)"
    note ce = compact_effect [OF p_removed_ok [OF s1(1)]]
    have r: "removed_map ?s' = removed_map (compact s1)" "p_reset ?s' = p_reset (compact s1)"
      "item_map ?s' = item_map s1" "p_seq ?s' = p_seq s1"
      using core compact_core [of s1] by (auto simp: same_core_def item_map_def removed_map_def)
    have "effect arch s ?s'"
    proof (rule effect.gone)
      show "item_map ?s' = (item_map s)(i := None)" "p_seq ?s' = p_seq s + 1" using r s1 by auto
      show "p_reset s \<le> p_reset ?s'" using r(2) s1(5) compact_core [of s1] by simp
      show "p_reset ?s' \<le> p_seq ?s'"
        using ce(4) p_reset_le [OF s1(1)] p_removed_le [OF s1(1)] r(2,4) unfolding removed_map_def by metis
      show "((removed_map s)(i \<mapsto> p_seq s + 1)) k = Some r" if "removed_map ?s' k = Some r" for k r
        using ce(2) [of k r] that r(1) s1(2) by metis
      show "t < p_reset ?s' \<or> removed_map ?s' k = Some r"
        if "((removed_map s)(i \<mapsto> p_seq s + 1)) k = Some r" "t < r" for t k r
        using ce(3) [of k r t] that r(1,2) s1(2) by metis
    qed
    moreover have "bt_ok (p_items ?s')" "bt_ok (p_removed ?s')"
      using core ce(1) compact_core [of s1] p_items_ok [OF s1(1)] by (auto simp: same_core_def)
    ultimately show ?thesis using Removed by simp
  qed
next
  case Cleared
  have "p_inv (s\<lparr>p_items := [], p_removed := []\<rparr>)"
    using p_seq_nonneg [OF inv] p_reset_le [OF inv] by (auto intro: p_invI)
  then have "snd (clear s) = s\<lparr>p_items := [], p_removed := [], p_seq := p_seq s + 1, p_dirty := True,
      p_wakes := Suc (p_wakes s), p_reset := p_seq s + 1\<rparr>"
    using opened seq by (simp add: clear_def next_rev_eq Let_def)
  with Cleared show ?thesis
    by (auto simp: item_map_def removed_map_def intro!: effect.emptied)
qed (use c in auto)

lemma effect_inv:
  assumes "effect arch s s'" and inv: "p_inv s"
    and ok: "bt_ok (p_items s')" "bt_ok (p_removed s')"
  shows "p_inv s'"
proof -
  note D = p_item_id [OF inv] p_item_pos [OF inv] p_item_le [OF inv] p_item_live [OF inv]
    p_removed_pos [OF inv] p_removed_le [OF inv] p_seq_nonneg [OF inv] p_reset_le [OF inv]
  note D' = D [folded item_map_def removed_map_def]
  have I: "p_inv s'"
    if "0 \<le> p_seq s'" "p_reset s' \<le> p_seq s'"
      "\<And>i it. item_map s' i = Some it \<Longrightarrow> i_id it = i \<and> 0 < i_revision it \<and> i_revision it \<le> p_seq s' \<and>
         removed_map s' i = None"
      "\<And>i r. removed_map s' i = Some r \<Longrightarrow> 0 < r \<and> r \<le> p_seq s'"
    using that ok unfolding item_map_def removed_map_def by (intro p_invI) auto
  from assms(1) show ?thesis
  proof cases
    case same
    show ?thesis by (rule I) (use same D' in \<open>simp_all\<close>)
  next
    case (fresh i it)
    show ?thesis
    proof (rule I)
      fix j d assume "item_map s' j = Some d"
      then show "i_id d = j \<and> 0 < i_revision d \<and> i_revision d \<le> p_seq s' \<and> removed_map s' j = None"
        using fresh D'(1-4) [of j d] D'(7) by (cases "j = i") auto
    next
      fix j r assume "removed_map s' j = Some r"
      then show "0 < r \<and> r \<le> p_seq s'" using fresh D'(5,6) [of j r] by (cases "j = i") auto
    qed (use fresh D'(7,8) in auto)
  next
    case (silent i it it')
    have i: "0 < i_revision it" "i_revision it \<le> p_seq s" "removed_map s i = None"
      using D'(2-4) silent(1) by blast+
    show ?thesis
    proof (rule I)
      fix j d assume j: "item_map s' j = Some d"
      show "i_id d = j \<and> 0 < i_revision d \<and> i_revision d \<le> p_seq s' \<and> removed_map s' j = None"
      proof (cases "j = i")
        case True
        then have "d = it'" using j silent(2) by simp
        with True show ?thesis using i silent(3-7) by simp
      next
        case False
        then have "item_map s j = Some d" using j silent(2) by simp
        with D'(1-4) show ?thesis using silent(3,7) by metis
      qed
    next
      fix j r assume "removed_map s' j = Some r"
      then show "0 < r \<and> r \<le> p_seq s'" using silent D'(5,6) [of j r] by auto
    qed (use silent D'(7,8) in auto)
  next
    case (gone i)
    have live: "removed_map s' j = None" if "item_map s j = Some d" "j \<noteq> i" for j d
    proof (cases "removed_map s' j")
      case (Some r)
      then have "removed_map s j = Some r" using gone(5) [OF Some] that(2) by simp
      then show ?thesis using D'(4) [OF that(1)] by simp
    qed simp
    show ?thesis
    proof (rule I)
      fix j d assume "item_map s' j = Some d"
      then have "j \<noteq> i" "item_map s j = Some d" using gone(1) by (auto split: if_splits)
      then show "i_id d = j \<and> 0 < i_revision d \<and> i_revision d \<le> p_seq s' \<and> removed_map s' j = None"
        using gone(2) D'(1-4) [of j d] live [of j d] by auto
    next
      fix j r assume "removed_map s' j = Some r"
      then show "0 < r \<and> r \<le> p_seq s'"
        using gone(2) gone(5) [of j r] D'(5,6) [of j r] D'(7) by (cases "j = i") auto
    qed (use gone(2,4) D'(7) in auto)
  next
    case emptied
    show ?thesis by (rule I) (use emptied D'(7) in \<open>simp_all\<close>)
  qed
qed

lemma effect_synced:
  assumes "effect arch s s'" and inv: "p_inv s" and sync: "synced arch t view s"
  shows "synced arch t view s'"
proof (cases "t < p_reset s")
  case True
  from assms(1) have "p_reset s \<le> p_reset s' \<and> p_seq s \<le> p_seq s'"
    using p_reset_le [OF inv] by cases auto
  with True sync show ?thesis by (auto simp: synced_def)
next
  case False
  with sync have t: "t \<le> p_seq s" and K: "\<And>k. synced_key arch t view s k" by (auto simp: synced_def)
  from assms(1) show ?thesis
  proof cases
    case same
    then show ?thesis using t K by (simp add: synced_def synced_key_def)
  next
    case (fresh i it)
    have "synced_key arch t view s' k" for k
      using K [of k] t fresh by (cases "k = i") (simp_all add: synced_key_def)
    then show ?thesis using t fresh by (simp add: synced_def)
  next
    case (silent i it it')
    have "synced_key arch t view s' k" for k
      using K [of k] silent by (cases "k = i") (simp_all add: synced_key_def)
    then show ?thesis using t silent by (simp add: synced_def)
  next
    case (gone i)
    have "synced_key arch t view s' k" if n: "\<not> t < p_reset s'" for k
    proof (cases "k = i")
      case True
      have "removed_map s' i = Some (p_seq s + 1)"
        using gone(6) [of i "p_seq s + 1" t] t n by simp
      with True show ?thesis using gone(1) t by (simp add: synced_key_def)
    next
      case k: False
      show ?thesis
        using K [of k] k gone(1) gone(6) [of k _ t] n by (auto simp: synced_key_def)
    qed
    then show ?thesis using t gone(2) by (auto simp: synced_def)
  next
    case emptied
    then show ?thesis using t by (simp add: synced_def)
  qed
qed

lemma closed_step: "p_closed s \<Longrightarrow> p_closed (snd (p_step arch op s))"
  by (cases op) (simp_all add: start_def update_def remove_item_def clear_def snapshot_def p_shutdown_def
      preparing_def downloading_def set_total_def set_received_def set_received_with_speed_def
      set_progress_def finalizing_def complete_item_def)

lemma closed_unchanged: "p_closed s \<Longrightarrow> op \<noteq> OpShutdown \<Longrightarrow> snd (p_step arch op s) = s"
  by (cases op) (simp_all add: start_def update_def remove_item_def clear_def snapshot_def
      preparing_def downloading_def set_total_def set_received_def set_received_with_speed_def
      set_progress_def finalizing_def complete_item_def)

lemma shutdown_inv: "p_inv s \<Longrightarrow> p_inv (p_shutdown s)"
  by (rule p_invI) (auto simp: p_shutdown_def dest: p_seq_nonneg p_reset_le)

lemma change_shutdown: "change_of op = ShutDown \<longleftrightarrow> op = OpShutdown"
  by (cases op) auto

lemma step_effect:
  assumes inv: "p_inv s" and seq: "p_seq s < i64_max" and opened: "\<not> p_closed s" and op: "op \<noteq> OpShutdown"
  shows "effect arch s (snd (p_step arch op s)) \<and> bt_ok (p_items (snd (p_step arch op s))) \<and>
    bt_ok (p_removed (snd (p_step arch op s)))"
proof -
  have "effect arch s (do_change arch (change_of op) s) \<and> bt_ok (p_items (do_change arch (change_of op) s)) \<and>
    bt_ok (p_removed (do_change arch (change_of op) s))"
    by (rule change_effect [OF inv opened seq]) (use op in \<open>auto simp: change_shutdown intro: change_keeps\<close>)
  moreover have e: "effect arch s b" if "effect arch s a" "same_core b a" for a b
    using that(1)
  proof cases
    case same
    then show ?thesis using that(2) by (intro effect.same) (simp_all add: same_core_def item_map_def removed_map_def)
  next
    case (fresh i it)
    then show ?thesis using that(2)
      by (intro effect.fresh [of b s i it]) (simp_all add: same_core_def item_map_def removed_map_def)
  next
    case (silent i it it')
    then show ?thesis using that(2)
      by (intro effect.silent [of s i it b it']) (simp_all add: same_core_def item_map_def removed_map_def)
  next
    case (gone i)
    have "removed_map b = removed_map a" "p_reset b = p_reset a" "item_map b = item_map a" "p_seq b = p_seq a"
      using that(2) by (simp_all add: same_core_def item_map_def removed_map_def)
    with gone show ?thesis by (intro effect.gone [of b s i]) simp_all
  next
    case emptied
    then show ?thesis using that(2) by (intro effect.emptied) (simp_all add: same_core_def item_map_def removed_map_def)
  qed
  ultimately show ?thesis
    using step_change [of arch op s] by (auto simp: same_core_def)
qed

lemma step_inv: "p_inv s \<Longrightarrow> p_seq s < i64_max \<Longrightarrow> p_inv (snd (p_step arch op s))"
proof (cases "op = OpShutdown")
  case False
  assume "p_inv s" "p_seq s < i64_max"
  then show ?thesis
    using False step_effect [of s op arch] effect_inv [of arch s "snd (p_step arch op s)"]
      closed_unchanged [of s op arch] by metis
qed (simp add: shutdown_inv)

lemma new_inv: "p_inv new_progress"
  by (simp add: p_inv_def new_progress_def)

lemma steps_inv: "p_steps arch s0 s \<Longrightarrow> p_inv s0 \<Longrightarrow> p_inv s"
  by (induction rule: p_steps.induct) (auto intro: step_inv)

lemma steps_synced:
  "p_steps arch s0 s \<Longrightarrow> p_inv s0 \<Longrightarrow> synced arch t view s0 \<Longrightarrow> \<not> p_closed s \<Longrightarrow> synced arch t view s"
proof (induction rule: p_steps.induct)
  case (step s op)
  have inv: "p_inv s" using steps_inv [OF step.hyps(1) step.prems(1)] .
  have opened: "\<not> p_closed s" using step.prems(3) closed_step by blast
  have op: "op \<noteq> OpShutdown" using step.prems(3) by (auto simp: p_shutdown_def)
  show ?case
    using step_effect [OF inv step.hyps(2) opened op, of arch] effect_synced [OF _ inv]
      step.IH [OF step.prems(1,2) opened] by blast
qed simp

lemma in_sync_synced: "in_sync arch view s \<Longrightarrow> synced arch (p_seq s) view s"
proof -
  assume a: "in_sync arch view s"
  have "synced_key arch (p_seq s) view s k" for k
    using a unfolding in_sync_def synced_key_def
    by (cases "item_map s k"; cases "view k") (auto dest: spec [of _ k])
  then show ?thesis by (simp add: synced_def)
qed

lemma map_of_filter_val: "distinct (map fst m) \<Longrightarrow>
  map_of (filter (\<lambda>(_, v). P v) m) k =
    (case map_of m k of None \<Rightarrow> None | Some v \<Rightarrow> if P v then Some v else None)"
  by (induction m) (auto simp: map_of_eq_None_iff image_iff split: option.splits)

lemma delta_applies:
  assumes inv: "p_inv s" and sync: "synced arch t view s" and fin: "list_all (\<lambda>(_, it). finite_item it) (p_items s)"
  shows "in_sync arch (apply_delta view (state_delta s t)) s"
proof (cases "p_seq s \<le> t")
  case True
  have nr: "\<not> t < p_reset s" using True p_reset_le [OF inv] by simp
  then have K: "synced_key arch t view s k" for k using sync by (simp add: synced_def)
  have "map_option (bridge arch) (view k) = map_option (bridge arch) (item_map s k)" for k
  proof (cases "item_map s k")
    case None
    then show ?thesis using K [of k] p_removed_le [OF inv, of k] True
      by (cases "view k") (auto simp: synced_key_def removed_map_def)
  next
    case (Some it)
    then show ?thesis using K [of k] p_item_le [OF inv, of k it] True
      by (auto simp: synced_key_def item_map_def)
  qed
  then show ?thesis using True by (simp add: state_delta_def in_sync_def)
next
  case lt: False
  let ?reset = "t \<le> 0 \<or> t < p_reset s"
  let ?items = "filter (\<lambda>(_, it). ?reset \<or> t < i_revision it) (p_items s)"
  let ?removed = "map fst (filter (\<lambda>(_, r). t < r) (p_removed s))"
  have "\<not> list_ex (\<lambda>(_, it). \<not> finite_item it) ?items"
    using fin by (auto simp: list_ex_iff list_all_iff)
  then have d: "state_delta s t = Delta (p_seq s) ?reset ?items (if ?reset then [] else ?removed)"
    using lt by (simp add: state_delta_def Let_def)
  show ?thesis
  proof (cases ?reset)
    case True
    have "filter (\<lambda>(_, it). True) (p_items s) = p_items s" by (simp add: filter_id_conv)
    then have "apply_delta view (state_delta s t) = item_map s"
      using d True by (simp add: item_map_def)
    then show ?thesis by (simp add: in_sync_def)
  next
    case False
    then have K: "synced_key arch t view s k" for k using sync by (simp add: synced_def)
    have items: "map_of ?items k = (case item_map s k of None \<Rightarrow> None
        | Some it \<Rightarrow> if t < i_revision it then Some it else None)" for k
      using map_of_filter_val [OF bt_distinct [OF p_items_ok [OF inv]], of "\<lambda>it. ?reset \<or> t < i_revision it" k] False
      by (simp add: item_map_def split: option.splits)
    have removed: "k \<in> set ?removed \<longleftrightarrow> (\<exists>r. removed_map s k = Some r \<and> t < r)" for k
      using bt_distinct [OF p_removed_ok [OF inv]] by (force simp: removed_map_def map_of_eq_Some_iff)
    have "map_option (bridge arch) (apply_delta view (state_delta s t) k) = map_option (bridge arch) (item_map s k)" for k
    proof (cases "item_map s k")
      case None
      then show ?thesis
        using K [of k] d False items [of k] removed [of k]
        by (cases "view k") (auto simp: synced_key_def map_add_def)
    next
      case (Some it)
      then have "k \<notin> set ?removed"
        using removed [of k] removed_when_live [OF inv Some] by simp
      with Some show ?thesis
        using K [of k] d False items [of k] by (auto simp: synced_key_def map_add_def)
    qed
    then show ?thesis by (simp add: in_sync_def)
  qed
qed

text \<open>The cached snapshot is stale only while the registry is marked dirty.\<close>

definition fresh_cache :: "target_arch \<Rightarrow> progress \<Rightarrow> bool" where
  "fresh_cache arch s \<longleftrightarrow> p_closed s \<or> p_dirty s \<or> (\<exists>c. p_cached s = Some c \<and> in_sync arch (map_of c) s)"

lemma next_rev_dirty: "snd (next_rev s) = s\<lparr>p_seq := p_seq (snd (next_rev s)), p_dirty := True,
  p_wakes := Suc (p_wakes s)\<rparr>"
  by (simp add: next_rev_def Let_def)

lemma update_cache:
  assumes inv: "p_inv s" and opened: "\<not> p_closed s"
  shows "p_dirty (snd (update arch i f s)) \<or> p_dirty (snd (update arch i f s)) = p_dirty s \<and>
    p_cached (snd (update arch i f s)) = p_cached s \<and>
    (\<forall>k. map_option (bridge arch) (item_map (snd (update arch i f s)) k) = map_option (bridge arch) (item_map s k))"
proof (cases "bt_get (p_items s) i")
  case None
  then show ?thesis using opened by (simp add: update_def)
next
  case (Some it)
  show ?thesis
  proof (cases "bridge arch (f it) = bridge arch it")
    case True
    then show ?thesis using Some opened p_items_ok [OF inv]
      by (simp add: update_def item_map_def p_maps Let_def)
  next
    case False
    then show ?thesis using Some opened by (simp add: update_def next_rev_def Let_def)
  qed
qed

lemma fresh_cacheI_dirty: "p_dirty s \<Longrightarrow> fresh_cache arch s"
  by (simp add: fresh_cache_def)

lemma update_fresh: "p_inv s \<Longrightarrow> \<not> p_closed s \<Longrightarrow> fresh_cache arch s \<Longrightarrow> fresh_cache arch (snd (update arch i f s))"
  using update_cache [of s arch i f] unfolding fresh_cache_def in_sync_def by metis

lemma snapshot_fresh: "\<not> p_closed s \<Longrightarrow> fresh_cache arch s \<Longrightarrow> fresh_cache arch (snd (snapshot s))"
  by (auto simp: snapshot_def fresh_cache_def in_sync_def item_map_def Let_def)

lemma step_fresh: "p_inv s \<Longrightarrow> fresh_cache arch s \<Longrightarrow> fresh_cache arch (snd (p_step arch op s))"
proof (cases "p_closed s")
  case True
  then show ?thesis using closed_step [of s arch op] by (simp add: fresh_cache_def)
next
  case False
  assume "p_inv s" "fresh_cache arch s"
  note up = update_fresh [OF this(1) False this(2)] and sn = snapshot_fresh [OF False this(2)] and fc = this(2)
  show ?thesis
  proof (cases op)
    case (OpStart i)
    then show ?thesis using False by (auto simp: start_def next_rev_def Let_def intro!: fresh_cacheI_dirty)
  next
    case (OpRemove i)
    then show ?thesis using False by (auto simp: remove_item_def Let_def case_prod_beta intro!: fresh_cacheI_dirty)
  next
    case OpClear
    then show ?thesis using False by (auto simp: clear_def next_rev_def Let_def intro!: fresh_cacheI_dirty)
  next
    case OpShutdown
    then show ?thesis by (simp add: p_shutdown_def fresh_cache_def)
  qed (use up sn fc in \<open>simp_all add: preparing_def downloading_def set_total_def set_received_def
      set_received_with_speed_def set_progress_def finalizing_def complete_item_def\<close>)
qed

lemma steps_fresh: "p_steps arch s0 s \<Longrightarrow> p_inv s0 \<Longrightarrow> fresh_cache arch s0 \<Longrightarrow> fresh_cache arch s"
  by (induction rule: p_steps.induct) (auto intro: step_fresh steps_inv)

lemma new_fresh: "fresh_cache arch new_progress"
  by (simp add: fresh_cache_def new_progress_def)

text \<open>Tombstones are bounded.\<close>

lemma length_bt_insert: "length (bt_insert k v m) \<le> Suc (length m)"
  by (induction k v m rule: bt_insert.induct) auto

lemma upper_half:
  assumes "sorted xs" and "n < length xs"
  shows "length (filter (\<lambda>r. xs ! n < (r :: int)) xs) \<le> length xs - Suc n"
proof -
  have xs: "xs = take (Suc n) xs @ drop (Suc n) xs" by simp
  have low: "r \<le> xs ! n" if "r \<in> set (take (Suc n) xs)" for r
    using that sorted_nth_mono [OF assms(1)] assms(2) by (auto simp: in_set_conv_nth)
  then have none: "filter (\<lambda>r. xs ! n < r) (take (Suc n) xs) = []"
    by (auto simp: filter_empty_conv dest!: low)
  have "filter (\<lambda>r. xs ! n < r) xs =
      filter (\<lambda>r. xs ! n < r) (take (Suc n) xs) @ filter (\<lambda>r. xs ! n < r) (drop (Suc n) xs)"
    by (metis append_take_drop_id filter_append)
  then have "length (filter (\<lambda>r. xs ! n < r) xs) = length (filter (\<lambda>r. xs ! n < r) (drop (Suc n) xs))"
    using none by simp
  also have "\<dots> \<le> length (drop (Suc n) xs)" by (rule length_filter_le)
  finally show ?thesis by simp
qed

lemma compact_bound: "length (p_removed s) \<le> 513 \<Longrightarrow> length (p_removed (compact s)) \<le> 512"
proof -
  assume le: "length (p_removed s) \<le> 513"
  let ?rs = "sort (map snd (p_removed s))" and ?n = "length (p_removed s) div 2"
  show ?thesis
  proof (cases "512 < length (p_removed s)")
    case True
    have "length (p_removed (compact s)) = length (filter (\<lambda>r. ?rs ! ?n < r) (map snd (p_removed s)))"
      using True by (simp add: compact_def bt_retain_def Let_def filter_map o_def split_beta')
    also have "\<dots> = length (filter (\<lambda>r. ?rs ! ?n < r) ?rs)"
      by (metis filter_sort length_sort)
    also have "\<dots> \<le> length ?rs - Suc ?n"
      by (rule upper_half) (use True in auto)
    finally show ?thesis using le by simp
  next
    case False
    then show ?thesis by (simp add: compact_def)
  qed
qed

lemma step_bound: "length (p_removed s) \<le> 512 \<Longrightarrow> length (p_removed (snd (p_step arch op s))) \<le> 512"
proof -
  assume le: "length (p_removed s) \<le> 512"
  have up: "p_removed (snd (update arch i f s)) = p_removed s" for i f
    by (simp add: update_def next_rev_def Let_def split: option.splits)
  have rm: "length (bt_remove i (p_removed s)) \<le> 512" for i
    unfolding bt_remove_def by (rule order_trans [OF length_filter_le le])
  have ins: "length (p_removed (compact (s'\<lparr>p_removed := bt_insert i r (p_removed s)\<rparr>))) \<le> 512" for s' i r
    by (rule compact_bound) (use le length_bt_insert [of i r "p_removed s"] in simp)
  show ?thesis
  proof (cases op)
    case (OpStart i)
    then show ?thesis using le rm by (simp add: start_def next_rev_def Let_def)
  next
    case (OpRemove i)
    then show ?thesis using le ins
      by (simp add: remove_item_def next_rev_def Let_def split: option.splits)
  qed (use le up in \<open>simp_all add: preparing_def downloading_def set_total_def set_received_def
      set_received_with_speed_def set_progress_def finalizing_def complete_item_def clear_def
      snapshot_def next_rev_def p_shutdown_def Let_def\<close>)
qed

lemma steps_bound: "p_steps arch s0 s \<Longrightarrow> length (p_removed s0) \<le> 512 \<Longrightarrow> length (p_removed s) \<le> 512"
  by (induction rule: p_steps.induct) (auto intro: step_bound)

section \<open>Waiting for a delta\<close>








section \<open>Properties\<close>

text \<open>
  C8.  Incremental progress is lossless.  A client whose view shows what the registry showed at
  sequence number \<open>p_seq s0\<close> and that applies the delta since that number shows exactly what the
  registry shows now, however many starts, updates, removals, tombstone compactions and clears
  happened in between, as long as the items have finite numbers (a document with a non-finite
  one is withheld).
\<close>

theorem delta_keeps_clients_in_sync:
  assumes "p_steps arch new_progress s0" and "in_sync arch view s0" and "p_steps arch s0 s"
    and "\<not> p_closed s" and "list_all (\<lambda>(_, it). finite_item it) (p_items s)"
  shows "\<exists>d. delta (p_seq s0) s = PDelta d \<and> in_sync arch (apply_delta view d) s \<and>
    (d = NoDelta \<longrightarrow> p_seq s = p_seq s0) \<and> (d \<noteq> NoDelta \<longrightarrow> d_seq d = p_seq s \<and> p_seq s0 < p_seq s)"
proof -
  have inv0: "p_inv s0" by (rule steps_inv [OF assms(1) new_inv])
  have inv: "p_inv s" by (rule steps_inv [OF assms(3) inv0])
  have sync: "synced arch (p_seq s0) view s"
    by (rule steps_synced [OF assms(3) inv0 in_sync_synced [OF assms(2)] assms(4)])
  have fin: "\<not> list_ex (\<lambda>(_, it). \<not> finite_item it) (filter P (p_items s))" for P
    using assms(5) by (auto simp: list_ex_iff list_all_iff)
  have "state_delta s (p_seq s0) = NoDelta \<longrightarrow> p_seq s = p_seq s0"
    using sync fin by (auto simp: state_delta_def synced_def Let_def)
  moreover have "state_delta s (p_seq s0) \<noteq> NoDelta \<longrightarrow>
      d_seq (state_delta s (p_seq s0)) = p_seq s \<and> p_seq s0 < p_seq s"
    by (auto simp: state_delta_def Let_def)
  ultimately show ?thesis
    using delta_applies [OF inv sync assms(5)] assms(4) by (simp add: delta_def)
qed

definition p_run :: "target_arch \<Rightarrow> p_op list \<Rightarrow> progress \<Rightarrow> progress" where
  "p_run arch ops s = snd (run_ops (p_step arch) ops s)"

lemma p_run_Nil: "p_run arch [] s = s"
  by (simp add: p_run_def)

lemma p_run_Cons: "p_run arch (op # ops) s = p_run arch ops (snd (p_step arch op s))"
  by (simp add: p_run_def Let_def case_prod_beta)

lemma p_run_steps: "p_steps arch s0 s \<Longrightarrow>
  list_all (\<lambda>k. p_seq (p_run arch (take k ops) s) < i64_max) [0..<length ops] \<Longrightarrow>
  p_steps arch s0 (p_run arch ops s)"
proof (induction ops arbitrary: s)
  case (Cons op ops)
  have "p_seq (p_run arch (take k (op # ops)) s) < i64_max" if "k < Suc (length ops)" for k
    using Cons.prems(2) that by (auto simp: list_all_iff less_Suc_eq)
  note k = this [of 0] this [of "Suc _"]
  have "p_steps arch s0 (snd (p_step arch op s))"
    using Cons.prems(1) k(1) by (auto intro: p_steps.step simp: p_run_Nil)
  then show ?case
    unfolding p_run_Cons
    by (rule Cons.IH) (use k(2) in \<open>auto simp: list_all_iff p_run_Cons\<close>)
qed (simp add: p_run_Nil)

theorem delta_keeps_clients_in_sync_witness:
  "\<exists>d. delta 1 (p_run Arm [OpStart ''a'', OpSetReceived ''a'' 5, OpStart ''b'', OpRemove ''a''] new_progress) = PDelta d \<and>
     d \<noteq> NoDelta"
proof -
  let ?base = "p_run Arm [OpStart ''a''] new_progress"
  let ?s = "p_run Arm [OpSetReceived ''a'' 5, OpStart ''b'', OpRemove ''a''] ?base"
  have r0: "p_steps Arm new_progress ?base"
    by (rule p_run_steps [OF p_steps.refl]) code_simp
  have r1: "p_steps Arm ?base ?s"
    by (rule p_run_steps [OF p_steps.refl]) code_simp
  have "\<not> p_closed ?s" "list_all (\<lambda>(_, it). finite_item it) (p_items ?s)" "p_seq ?base = 1" "p_seq ?s = 4"
    by code_simp+
  moreover have "p_run Arm [OpStart ''a'', OpSetReceived ''a'' 5, OpStart ''b'', OpRemove ''a''] new_progress = ?s"
    by (simp add: p_run_Cons p_run_Nil)
  ultimately show ?thesis
    using delta_keeps_clients_in_sync [OF r0 _ r1, of "item_map ?base"] by (auto simp: in_sync_def)
qed

text \<open>
  C12.  The registry's bookkeeping is sound in every reachable state: items are stored under their
  own id with a revision between 1 and the current sequence number, no id is both live and a
  tombstone, tombstone revisions and the reset point never exceed the sequence number, and there
  are never more than 512 tombstones.
\<close>

theorem registry_bookkeeping:
  assumes "p_steps arch new_progress s"
  shows "(\<forall>i it. bt_get (p_items s) i = Some it \<longrightarrow>
      i_id it = i \<and> 0 < i_revision it \<and> i_revision it \<le> p_seq s \<and> bt_get (p_removed s) i = None) \<and>
    (\<forall>i r. bt_get (p_removed s) i = Some r \<longrightarrow> 0 < r \<and> r \<le> p_seq s) \<and>
    p_reset s \<le> p_seq s \<and> length (p_removed s) \<le> 512 \<and>
    sorted_wrt (<) (bt_keys (p_items s)) \<and> sorted_wrt (<) (bt_keys (p_removed s))"
proof -
  have "p_inv s" by (rule steps_inv [OF assms new_inv])
  moreover have "length (p_removed s) \<le> 512"
    by (rule steps_bound [OF assms]) (simp add: new_progress_def)
  moreover have "sorted_wrt (<) (bt_keys (p_items s)) \<and> sorted_wrt (<) (bt_keys (p_removed s))"
    using p_items_ok [OF \<open>p_inv s\<close>] p_removed_ok [OF \<open>p_inv s\<close>] by (simp add: bt.keys_sorted)
  ultimately show ?thesis unfolding p_inv_def by blast
qed

theorem registry_bookkeeping_witness:
  "length (p_removed (p_run X86 [OpStart ''a'', OpRemove ''a'', OpStart ''b''] new_progress)) \<le> 512"
proof -
  have "p_steps X86 new_progress (p_run X86 [OpStart ''a'', OpRemove ''a'', OpStart ''b''] new_progress)"
    by (rule p_run_steps [OF p_steps.refl]) code_simp
  from registry_bookkeeping [OF this] show ?thesis by blast
qed

text \<open>
  The snapshot cache is never visibly stale: on an open registry whose items are finite,
  \<open>snapshot\<close> returns a document that shows for every id what the registry shows, and calling it
  does not change what is shown.
\<close>

theorem snapshot_is_current:
  assumes "p_steps arch new_progress s" and "\<not> p_closed s"
    and "list_all (\<lambda>(_, it). finite_item it) (p_items s)"
  shows "\<exists>c. fst (snapshot s) = PSnapshot (Some c) \<and> in_sync arch (map_of c) s \<and>
    item_map (snd (snapshot s)) = item_map s"
proof (cases "p_dirty s")
  case True
  moreover have "\<not> list_ex (\<lambda>(_, it). \<not> finite_item it) (p_items s)"
    using assms(3) by (auto simp: list_ex_iff list_all_iff)
  ultimately show ?thesis using assms(2) by (simp add: snapshot_def Let_def in_sync_def item_map_def)
next
  case False
  moreover have "fresh_cache arch s" by (rule steps_fresh [OF assms(1) new_inv new_fresh])
  ultimately show ?thesis using assms(2) by (auto simp: snapshot_def fresh_cache_def)
qed

theorem snapshot_is_current_witness:
  "\<exists>c. fst (snapshot (p_run X86 [OpStart ''a'', OpSnapshot, OpSetReceived ''a'' 5] new_progress)) =
     PSnapshot (Some c)"
proof -
  let ?s = "p_run X86 [OpStart ''a'', OpSnapshot, OpSetReceived ''a'' 5] new_progress"
  have r: "p_steps X86 new_progress ?s" by (rule p_run_steps [OF p_steps.refl]) code_simp
  have "\<not> p_closed ?s" "list_all (\<lambda>(_, it). finite_item it) (p_items ?s)" by code_simp+
  from snapshot_is_current [OF r this] show ?thesis by blast
qed

definition p_rejected :: "p_op \<Rightarrow> p_out \<Rightarrow> bool" where
  "p_rejected op out \<longleftrightarrow> (if op = OpShutdown then out = PUnit else out = PErr Closed)"

interpretation tracker: closable "p_step arch" p_closed p_rejected p_shutdown for arch
proof unfold_locales
  fix s op
  show "p_closed (p_shutdown s)" by (simp add: p_shutdown_def)
  assume closed: "p_closed s"
  then show "p_closed (snd (p_step arch op s))" by (rule closed_step)
  from closed show "p_rejected op (fst (p_step arch op s))"
    by (cases op) (simp_all add: p_rejected_def start_def update_def remove_item_def clear_def
        snapshot_def preparing_def downloading_def set_total_def set_received_def delta_def item_doc_def
        set_received_with_speed_def set_progress_def finalizing_def complete_item_def)
qed

text \<open>
   After \<open>shutdown\<close> every later call of any sequence of calls fails with \<open>Closed\<close>: no item
  can be started, updated, listed or polled again.
\<close>

theorem progress_shutdown_is_terminal:
  "list_all2 p_rejected ops (fst (run_ops (p_step arch) ops (p_shutdown s)))"
  by (rule tracker.after_shutdown)



end
