(* ===== verification/Downloads.thy ===== *)
theory Downloads
  imports RequestCancellation Progress
begin

text \<open>
  The native download domain (rust\_backend/crates/core/src/downloads.rs), which owns one
  cancellation registry and one progress registry, and the two adapters that report transfers
  into it (rust\_backend/crates/core/src/progress/reporter.rs).  Instants are nanosecond counts.
  The wrapped \<^verbatim>\<open>Write\<close> implementation of the writer adapter is a parameter.
\<close>

section \<open>The download domain\<close>

record downloads =
  d_progress :: progress
  d_cancellation :: registry

definition new_downloads :: downloads where
  "new_downloads = \<lparr>d_progress = new_progress, d_cancellation = new_registry Download\<rparr>"

definition dl_acquire :: "bytes \<Rightarrow> downloads \<Rightarrow> c_out \<times> downloads" where
  "dl_acquire i d = (let (out, c) = acquire i (d_cancellation d) in (out, d\<lparr>d_cancellation := c\<rparr>))"

definition dl_cancel :: "bytes \<Rightarrow> downloads \<Rightarrow> c_out \<times> downloads" where
  "dl_cancel i d =
     (if i = [] then (OUnit, d)
      else case cancel i (d_cancellation d) of
          (OErr e, c) \<Rightarrow> (OErr e, d\<lparr>d_cancellation := c\<rparr>)
        | (_, c) \<Rightarrow> (OUnit, d\<lparr>d_cancellation := c, d_progress := snd (remove_item i (d_progress d))\<rparr>))"

definition remove_all :: "bytes list \<Rightarrow> progress \<Rightarrow> progress" where
  "remove_all ids s = foldl (\<lambda>s i. snd (remove_item i s)) s ids"

definition dl_cancel_active :: "downloads \<Rightarrow> c_out \<times> downloads" where
  "dl_cancel_active d =
     (case cancel_active (d_cancellation d) of
        (OIds ids, c) \<Rightarrow> (OIds ids, d\<lparr>d_cancellation := c, d_progress := remove_all ids (d_progress d)\<rparr>)
      | (out, c) \<Rightarrow> (out, d\<lparr>d_cancellation := c\<rparr>))"

definition dl_shutdown :: "downloads \<Rightarrow> downloads" where
  "dl_shutdown d = \<lparr>d_progress = p_shutdown (d_progress d), d_cancellation = shutdown (d_cancellation d)\<rparr>"

section \<open>The transfer reporter\<close>

record reporter =
  rp_id :: bytes
  rp_received :: int
  rp_total :: int
  rp_at :: nat

definition coalesced :: "int \<Rightarrow> int \<Rightarrow> nat \<Rightarrow> reporter \<Rightarrow> bool" where
  "coalesced received total_b now r =
     (let d = wrap_i64 (received - rp_received r)
      in 0 \<le> d \<and> d < update_bytes \<and> total_b = rp_total r \<and> now - rp_at r < 250000000)"

definition report_at ::
    "target_arch \<Rightarrow> int \<Rightarrow> int \<Rightarrow> nat \<Rightarrow> reporter \<Rightarrow> progress \<Rightarrow> reporter \<times> progress" where
  "report_at arch received total_b now r s =
     (if rp_id r = [] then (r, s)
      else if coalesced received total_b now r then (r, s)
      else
        let r' = r\<lparr>rp_received := received, rp_total := total_b, rp_at := now\<rparr>
        in if 0 < total_b
           then (r', snd (set_progress arch (rp_id r) (f_div_int received total_b) received total_b s))
           else (r', snd (set_received arch (rp_id r) received s)))"

section \<open>The media writer\<close>

datatype 'e write_error = WCancelled | WRegistry cancellation_error | WInner 'e

record 'w item_writer =
  w_inner :: 'w
  w_id :: bytes
  w_current :: int
  w_last_reported :: int
  w_last_time :: nat
  w_last_bytes :: int

definition new_writer :: "'w \<Rightarrow> bytes \<Rightarrow> nat \<Rightarrow> 'w item_writer" where
  "new_writer inner i now = \<lparr>w_inner = inner, w_id = i, w_current = 0, w_last_reported = 0,
     w_last_time = now, w_last_bytes = 0\<rparr>"

definition write_guard :: "bytes \<Rightarrow> registry \<Rightarrow> 'e write_error option" where
  "write_guard i c =
     (if i = [] then None
      else case is_cancelled i c of
          OBool True \<Rightarrow> Some WCancelled
        | OErr e \<Rightarrow> Some (WRegistry e)
        | _ \<Rightarrow> None)"

definition note_written ::
    "target_arch \<Rightarrow> nat \<Rightarrow> nat \<Rightarrow> 'w item_writer \<Rightarrow> progress \<Rightarrow> 'w item_writer \<times> progress" where
  "note_written arch now count w s =
     (let w1 = w\<lparr>w_current := wrap_i64 (w_current w + wrap_i64 (int count))\<rparr>
      in if w_last_reported w1 = 0 \<or> update_bytes \<le> wrap_i64 (w_current w1 - w_last_reported w1)
         then
           let elapsed = as_secs_f64 (now - w_last_time w1);
               speed = (if f_le elapsed (Fin 0) \<or> is_nan elapsed then Fin 0
                        else f_div (f_scale (f_of_int (wrap_i64 (w_current w1 - w_last_bytes w1)))
                               (1 / 1048576)) elapsed)
           in (w1\<lparr>w_last_reported := w_current w1, w_last_bytes := w_current w1, w_last_time := now\<rparr>,
               snd (set_received_with_speed arch (w_id w1) (w_current w1) speed s))
         else (w1, s))"

definition writer_write ::
    "target_arch \<Rightarrow> (bytes \<Rightarrow> 'w \<Rightarrow> ('e + nat) \<times> 'w) \<Rightarrow> nat \<Rightarrow> bytes \<Rightarrow> 'w item_writer \<Rightarrow> downloads \<Rightarrow>
     ('e write_error + nat) \<times> 'w item_writer \<times> downloads" where
  "writer_write arch inner now bs w d =
     (case write_guard (w_id w) (d_cancellation d) of
        Some e \<Rightarrow> (Inl e, w, d)
      | None \<Rightarrow>
          let (result, i') = inner bs (w_inner w); w0 = w\<lparr>w_inner := i'\<rparr> in
          case result of
            Inl e \<Rightarrow> (Inl (WInner e), w0, d)
          | Inr count \<Rightarrow>
              let (w1, s1) = note_written arch now count w0 (d_progress d)
              in (Inr count, w1, d\<lparr>d_progress := s1\<rparr>))"

text \<open>A caller that writes chunk by chunk and stops at the first error.\<close>

fun write_all ::
    "target_arch \<Rightarrow> (bytes \<Rightarrow> 'w \<Rightarrow> ('e + nat) \<times> 'w) \<Rightarrow> (nat \<times> bytes) list \<Rightarrow> 'w item_writer \<Rightarrow> downloads \<Rightarrow>
     nat list \<times> 'e write_error option \<times> 'w item_writer \<times> downloads" where
  "write_all arch inner [] w d = ([], None, w, d)"
| "write_all arch inner ((now, bs) # rest) w d =
     (case writer_write arch inner now bs w d of
        (Inl e, w', d') \<Rightarrow> ([], Some e, w', d')
      | (Inr n, w', d') \<Rightarrow>
          let (counts, rest') = write_all arch inner rest w' d' in (n # counts, rest'))"

section \<open>What the registries do for the domain\<close>

lemma remove_item_map:
  "\<not> p_closed s \<Longrightarrow> item_map (snd (remove_item i s)) = (item_map s)(i := None) \<and>
     \<not> p_closed (snd (remove_item i s))"
  by (simp add: remove_item_def item_map_def next_rev_def p_maps(2) compact_core Let_def
      fun_upd_idem split: option.splits)

lemma remove_all_map:
  "\<not> p_closed s \<Longrightarrow> item_map (remove_all ids s) = (\<lambda>k. if k \<in> set ids then None else item_map s k)"
  unfolding remove_all_def
  by (induction ids arbitrary: s) (auto simp: remove_item_map fun_eq_iff)

lemma item_map_shutdown: "item_map (p_shutdown s) = Map.empty \<and> p_closed (p_shutdown s)"
  by (simp add: item_map_def p_shutdown_def)

lemma cancel_marks:
  assumes inv: "c_inv s" and opened: "\<not> r_closed s" and i: "i \<noteq> []"
  shows "fst (cancel i s) = OUnit \<and>
    is_cancelled j (snd (cancel i s)) = (if j = i then OBool True else is_cancelled j s)"
proof -
  obtain e s' where e: "entry_or_default i s = (e, s')" by (cases "entry_or_default i s")
  note s' = c_inv_default [OF inv opened i e]
  have inv': "open_inv (bt_get (r_entries s')) (r_flags s') (r_leases s')"
    using s'(1,2) by (simp add: c_inv_def)
  have entry: "bt_get (r_entries s') j = bt_get (r_entries s) j" if "j \<noteq> i" for j
    using e that inv opened
    by (auto simp: entry_or_default_def Let_def c_inv_def bt_maps split: option.splits)
  have flags: "r_flags s' ! a = r_flags s ! a" if "a < length (r_flags s)" for a
    using entry_or_default_frame [OF e] that by (auto simp: nth_append)
  have oinv: "open_inv (bt_get (r_entries s)) (r_flags s) (r_leases s)"
    using inv opened by (simp add: c_inv_def)
  have "is_cancelled j (snd (cancel i s)) = (if j = i then OBool True else is_cancelled j s)"
  proof (cases "j = i")
    case True
    then show ?thesis
      using opened i e s'(2,3) open_addr [OF inv' s'(3)]
      by (simp add: cancel_def notify_def is_cancelled_def)
  next
    case False
    have ne: "e_cancelled d \<noteq> e_cancelled e" if "bt_get (r_entries s) j = Some d" for d
      using open_inj [OF inv', of j d i e] that entry [OF False] s'(3) False by auto
    show ?thesis
    proof (cases "bt_get (r_entries s) j")
      case None
      then show ?thesis
        using False opened i e s'(2) entry [OF False]
        by (simp add: cancel_def notify_def is_cancelled_def)
    next
      case (Some d)
      show ?thesis
        using False opened i e s'(2) entry [OF False] Some ne [OF Some] flags [OF open_addr [OF oinv Some]]
        by (simp add: cancel_def notify_def is_cancelled_def)
    qed
  qed
  moreover have "fst (cancel i s) = OUnit"
    using opened i e by (simp add: cancel_def)
  ultimately show ?thesis by blast
qed

lemma received_update:
  assumes ok: "bt_ok (p_items s)" and opened: "\<not> p_closed s"
    and it: "item_map s i = Some it" and f: "\<And>it. i_received (f it) = v"
  shows "bt_ok (p_items (snd (update arch i f s))) \<and> \<not> p_closed (snd (update arch i f s)) \<and>
    (\<exists>it'. item_map (snd (update arch i f s)) i = Some it' \<and> i_received it' = v)"
  using assms by (auto simp: update_def item_map_def p_maps(1) bt_ok_insert next_rev_def Let_def)

lemma received_after: "i_received (set_received_item v (it\<lparr>i_speed := sp\<rparr>)) = v"
  "i_received (set_received_item v it) = v"
  "0 < v \<Longrightarrow> i_received (set_progress_item p v t it) = v"
  by (auto simp: set_received_item_def set_progress_item_def mark_downloading_def Let_def)

section \<open>The writer's lag\<close>

definition lag_inv :: "nat \<Rightarrow> 'w item_writer \<Rightarrow> progress \<Rightarrow> bool" where
  "lag_inv total_b w s \<longleftrightarrow> w_current w = int total_b \<and> 0 \<le> w_last_reported w \<and>
     w_last_reported w \<le> w_current w \<and> w_current w < w_last_reported w + update_bytes \<and>
     bt_ok (p_items s) \<and> \<not> p_closed s \<and>
     (\<exists>it. item_map s (w_id w) = Some it \<and> i_received it = w_last_reported w)"

lemma wrap_nonneg: "0 \<le> x \<Longrightarrow> x \<le> i64_max \<Longrightarrow> wrap_i64 x = x"
  by (rule wrap_i64_id) (simp_all add: i64_min_def)

lemma note_written_lag:
  assumes inv: "lag_inv n w s" and max: "int (n + count) \<le> i64_max"
  shows "lag_inv (n + count) (fst (note_written arch now count w s)) (snd (note_written arch now count w s))"
proof -
  have bounds: "w_current w = int n" "0 \<le> w_last_reported w" "w_last_reported w \<le> int n"
    using inv by (auto simp: lag_inv_def)
  have le: "w_last_reported w \<le> int n + int count" using bounds(3) by simp
  have cur: "wrap_i64 (int count) = int count" "wrap_i64 (int n + int count) = int n + int count"
    using max by (auto intro!: wrap_nonneg)
  have diff: "wrap_i64 (int n + int count - w_last_reported w) = int n + int count - w_last_reported w"
    using bounds max by (intro wrap_nonneg) simp_all
  obtain it where it: "item_map s (w_id w) = Some it" "i_received it = w_last_reported w"
    using inv by (auto simp: lag_inv_def)
  have ok: "bt_ok (p_items s)" "\<not> p_closed s" using inv by (auto simp: lag_inv_def)
  show ?thesis
  proof (cases "w_last_reported w = 0 \<or> update_bytes \<le> int n + int count - w_last_reported w")
    case True
    have "bt_ok (p_items (snd (set_received_with_speed arch (w_id w) v sp s))) \<and>
        \<not> p_closed (snd (set_received_with_speed arch (w_id w) v sp s)) \<and>
        (\<exists>it'. item_map (snd (set_received_with_speed arch (w_id w) v sp s)) (w_id w) = Some it' \<and>
           i_received it' = v)" for v sp
      unfolding set_received_with_speed_def
      by (rule received_update [OF ok it(1)]) (rule received_after)
    with True show ?thesis
      using inv by (simp add: note_written_def bounds cur diff lag_inv_def update_bytes_def Let_def)
  next
    case False
    then show ?thesis
      using inv it le by (simp add: note_written_def bounds cur diff lag_inv_def Let_def)
  qed
qed

lemma lag_inner [simp]: "lag_inv n (w\<lparr>w_inner := i'\<rparr>) s = lag_inv n w s"
  by (simp add: lag_inv_def)

lemma note_written_id [simp]: "w_id (fst (note_written arch now count w s)) = w_id w"
  by (simp add: note_written_def Let_def)

lemma write_lag:
  fixes inner :: "bytes \<Rightarrow> 'w \<Rightarrow> ('e + nat) \<times> 'w"
  assumes "writer_write arch inner now bs w d = (r, w', d')" and "lag_inv n w (d_progress d)"
    and "\<And>c. r = Inr c \<Longrightarrow> int (n + c) \<le> i64_max"
  shows "lag_inv (n + (case r of Inl _ \<Rightarrow> 0 | Inr c \<Rightarrow> c)) w' (d_progress d') \<and> w_id w' = w_id w"
proof (cases "write_guard (w_id w) (d_cancellation d) :: 'e write_error option")
  case (Some e)
  then show ?thesis using assms by (auto simp: writer_write_def)
next
  case None
  obtain res i' where inner: "inner bs (w_inner w) = (res, i')" by (cases "inner bs (w_inner w)")
  show ?thesis
  proof (cases res)
    case (Inl e)
    then show ?thesis using assms None inner by (auto simp: writer_write_def Let_def)
  next
    case (Inr c)
    have "r = Inr c" and w': "w' = fst (note_written arch now c (w\<lparr>w_inner := i'\<rparr>) (d_progress d))"
      and d': "d_progress d' = snd (note_written arch now c (w\<lparr>w_inner := i'\<rparr>) (d_progress d))"
      using assms(1) None inner Inr by (auto simp: writer_write_def Let_def case_prod_beta)
    then show ?thesis
      using note_written_lag [of n "w\<lparr>w_inner := i'\<rparr>" "d_progress d" c arch now] assms(2,3) by simp
  qed
qed

lemma write_all_lag:
  "write_all arch inner ws w d = (counts, err, w', d') \<Longrightarrow> lag_inv n w (d_progress d) \<Longrightarrow>
   int (n + sum_list counts) \<le> i64_max \<Longrightarrow> lag_inv (n + sum_list counts) w' (d_progress d') \<and> w_id w' = w_id w"
proof (induction ws arbitrary: w d n counts)
  case (Cons x ws)
  obtain now bs where x: "x = (now, bs)" by (cases x)
  obtain r w1 d1 where r: "writer_write arch inner now bs w d = (r, w1, d1)"
    by (cases "writer_write arch inner now bs w d")
  show ?case
  proof (cases r)
    case (Inl e)
    then show ?thesis using write_lag [OF r Cons.prems(2)] Cons.prems(1) r by (auto simp: x)
  next
    case (Inr c)
    obtain cs e' w2 d2 where rest: "write_all arch inner ws w1 d1 = (cs, e', w2, d2)"
      by (cases "write_all arch inner ws w1 d1")
    have eq: "counts = c # cs" "err = e'" "w' = w2" "d' = d2"
      using Cons.prems(1) r Inr rest by (auto simp: x)
    have "lag_inv (n + c) w1 (d_progress d1)" "w_id w1 = w_id w"
      using write_lag [OF r Cons.prems(2)] Inr Cons.prems(3) eq(1) by auto
    then show ?thesis
      using Cons.IH [of w1 d1 cs "n + c"] rest eq Cons.prems(3) by (simp add: add.assoc)
  qed
qed simp

section \<open>Properties\<close>

text \<open>
  C14.  Cancelling a download raises exactly its flag, drops exactly its progress item, and any
  writer of that download then refuses the next chunk without touching its inner writer.
\<close>

theorem cancel_stops_download:
  assumes "c_reach Download (d_cancellation d)" and "\<not> r_closed (d_cancellation d)"
    and "\<not> p_closed (d_progress d)" and "i \<noteq> []" and "w_id w = i"
  shows "fst (dl_cancel i d) = OUnit \<and>
    (\<forall>j. is_cancelled j (d_cancellation (snd (dl_cancel i d))) =
       (if j = i then OBool True else is_cancelled j (d_cancellation d))) \<and>
    item_map (d_progress (snd (dl_cancel i d))) = (item_map (d_progress d))(i := None) \<and>
    writer_write arch inner now bs w (snd (dl_cancel i d)) = (Inl WCancelled, w, snd (dl_cancel i d))"
proof -
  note m = cancel_marks [OF reach_inv [OF assms(1)] assms(2,4)]
  obtain c where c: "cancel i (d_cancellation d) = (OUnit, c)"
    using m by (cases "cancel i (d_cancellation d)") auto
  have d': "dl_cancel i d =
      (OUnit, d\<lparr>d_cancellation := c, d_progress := snd (remove_item i (d_progress d))\<rparr>)"
    using c assms(4) by (simp add: dl_cancel_def)
  have "is_cancelled j c = (if j = i then OBool True else is_cancelled j (d_cancellation d))" for j
    using m [of j] c by simp
  then show ?thesis
    using d' remove_item_map [OF assms(3)] assms(4,5) by (simp add: writer_write_def write_guard_def)
qed

theorem cancel_stops_download_witness:
  "fst (dl_cancel ''a'' (snd (dl_acquire ''a'' new_downloads))) = OUnit"
proof -
  have "c_reach Download (d_cancellation (snd (dl_acquire ''a'' new_downloads)))"
    using c_reach.step [OF c_reach.init, of "Acquire ''a''" Download]
    by (simp add: dl_acquire_def new_downloads_def case_prod_beta)
  moreover have "\<not> r_closed (d_cancellation (snd (dl_acquire ''a'' new_downloads)))"
    "\<not> p_closed (d_progress (snd (dl_acquire ''a'' new_downloads)))"
    by code_simp+
  ultimately show ?thesis
    using cancel_stops_download [where d = "snd (dl_acquire ''a'' new_downloads)" and i = "''a''"
        and w = "new_writer () ''a'' 0" and inner = "\<lambda>_ w. (Inl (), w)"]
    by (simp add: new_writer_def)
qed

text \<open>
  Cancelling everything drops exactly the progress items of the ids it reports, which are
  the ids with a live lease, and shutting the domain down closes both registries for good.
\<close>

theorem cancel_active_drops_items:
  assumes "\<not> r_closed (d_cancellation d)" and "\<not> p_closed (d_progress d)"
  shows "\<exists>ids. fst (dl_cancel_active d) = OIds ids \<and>
    ids = map fst (filter (\<lambda>(_, e). 0 < e_references e) (r_entries (d_cancellation d))) \<and>
    item_map (d_progress (snd (dl_cancel_active d))) =
      (\<lambda>k. if k \<in> set ids then None else item_map (d_progress d) k) \<and>
    r_closed (d_cancellation (dl_shutdown d)) \<and> p_closed (d_progress (dl_shutdown d)) \<and>
    item_map (d_progress (dl_shutdown d)) = Map.empty"
  using assms
  by (auto simp: dl_cancel_active_def cancel_active_def remove_all_map dl_shutdown_def shutdown_def
      notify_def item_map_shutdown Let_def)

theorem cancel_active_drops_items_witness:
  "\<exists>ids. fst (dl_cancel_active new_downloads) = OIds ids"
  using cancel_active_drops_items [of new_downloads]
  by (auto simp: new_downloads_def new_registry_def new_progress_def)

text \<open>
  A media writer's progress is honest and fresh: whatever it is given to write, wherever it
  stops, the bytes the progress item shows never exceed the bytes the inner writer accepted and
  are less than 128 KiB behind them.
\<close>

theorem writer_progress_lag:
  assumes "write_all arch inner ws (new_writer w0 i t0) d = (counts, err, w', d')"
    and "bt_ok (p_items (d_progress d))" and "\<not> p_closed (d_progress d)"
    and "item_map (d_progress d) i = Some it" and "i_received it = 0"
    and "int (sum_list counts) \<le> i64_max"
  shows "\<exists>it'. item_map (d_progress d') i = Some it' \<and> 0 \<le> i_received it' \<and>
    i_received it' \<le> int (sum_list counts) \<and> int (sum_list counts) < i_received it' + 131072"
proof -
  have "lag_inv 0 (new_writer w0 i t0) (d_progress d)"
    using assms(2-5) by (simp add: lag_inv_def new_writer_def update_bytes_def)
  from write_all_lag [OF assms(1) this] assms(6)
  have "lag_inv (sum_list counts) w' (d_progress d') \<and> w_id w' = i"
    by (simp add: new_writer_def)
  then show ?thesis by (auto simp: lag_inv_def update_bytes_def)
qed

definition sink :: "bytes \<Rightarrow> bytes \<Rightarrow> (string + nat) \<times> bytes" where
  "sink bs w = (Inr (length bs), w @ bs)"

theorem writer_progress_lag_witness:
  "\<exists>counts err w' d'. write_all X86 sink [(0, ''ab''), (0, ''c'')] (new_writer [] ''a'' 0)
      (new_downloads\<lparr>d_progress := snd (start ''a'' new_progress)\<rparr>) = (counts, err, w', d') \<and>
    (\<exists>it. item_map (d_progress d') ''a'' = Some it \<and> int (sum_list counts) < i_received it + 131072)"
proof -
  let ?d = "new_downloads\<lparr>d_progress := snd (start ''a'' new_progress)\<rparr>"
  obtain counts err w' d' where r:
    "write_all X86 sink [(0, ''ab''), (0, ''c'')] (new_writer [] ''a'' 0) ?d = (counts, err, w', d')"
    by (metis prod_cases4)
  have "fst (write_all X86 sink [(0, ''ab''), (0, ''c'')] (new_writer [] ''a'' 0) ?d) = [2, 1]"
    by (simp add: writer_write_def write_guard_def sink_def new_writer_def note_written_def is_cancelled_def
        new_downloads_def new_registry_def case_prod_beta Let_def)
  then have counts: "counts = [2, 1]" using r by simp
  have it: "item_map (d_progress ?d) ''a'' = Some (snd (hd (p_items (d_progress ?d))))"
    "i_received (snd (hd (p_items (d_progress ?d)))) = 0"
    "bt_ok (p_items (d_progress ?d))" "\<not> p_closed (d_progress ?d)"
    by (simp_all add: start_def next_rev_def new_progress_def new_downloads_def item_map_def bt_ok_def Let_def)
  have "int (sum_list counts) \<le> i64_max" by (simp add: counts i64_max_def)
  from writer_progress_lag [OF r it(3,4,1,2) this] r show ?thesis by blast
qed

text \<open>
   The transfer reporter coalesces without falling behind: after any report for a named
  download the last reported position is less than 128 KiB behind, never ahead, has the same
  total and is less than 250 ms old; and a report that is not coalesced reaches the item.
\<close>

theorem reporter_coalesces:
  assumes "rp_id r \<noteq> []" and "report_at arch received total_b now r s = (r', s')"
  shows "coalesced received total_b now r' \<and> (r' = r \<longrightarrow> s' = s \<or> \<not> coalesced received total_b now r) \<and>
    (\<not> coalesced received total_b now r \<longrightarrow> rp_received r' = received \<and>
       (\<forall>it. bt_ok (p_items s) \<and> \<not> p_closed s \<and> item_map s (rp_id r) = Some it \<and> 0 < received \<longrightarrow>
          (\<exists>it'. item_map s' (rp_id r) = Some it' \<and> i_received it' = received)))"
proof (cases "coalesced received total_b now r")
  case True
  then show ?thesis using assms by (simp add: report_at_def)
next
  case False
  have upd: "\<exists>it'. item_map (snd (update arch (rp_id r) f s)) (rp_id r) = Some it' \<and> i_received it' = received"
    if "bt_ok (p_items s)" "\<not> p_closed s" "item_map s (rp_id r) = Some it"
      "\<And>it. i_received (f it) = received" for it f
    using received_update [OF that(1-3), of f received arch] that(4) by blast
  have "coalesced received total_b now (r\<lparr>rp_received := received, rp_total := total_b, rp_at := now\<rparr>)"
    by (simp add: coalesced_def wrap_i64_def update_bytes_def)
  then show ?thesis
    using False assms upd
    by (auto simp: report_at_def set_progress_def set_received_def received_after Let_def split: if_splits)
qed

theorem reporter_coalesces_witness:
  "coalesced 131072 1048576 0 (fst (report_at X86 131072 1048576 0
     \<lparr>rp_id = ''a'', rp_received = 0, rp_total = 1048576, rp_at = 0\<rparr> new_progress))"
  using reporter_coalesces [of "\<lparr>rp_id = ''a'', rp_received = 0, rp_total = 1048576, rp_at = 0\<rparr>" X86
      131072 1048576 0 new_progress] by (metis list.distinct(1) prod.collapse reporter.select_convs(1))

end
