(* ===== verification/Usb.thy ===== *)
theory Usb
  imports Prelude "HOL-Library.Product_Lexorder" "HOL-Library.Multiset"
begin

unbundle bit_operations_syntax

text \<open>
  The pure half of the direct USB output (rust\_backend/crates/mobile/src/usb\_audio): the parser
  of configuration descriptors and the choice of formats (descriptors.rs), and the framing that
  completes a transfer (framing.rs).  Byte-sized fields are the numbers they hold.  Every index the
  parser uses lies below a length it has checked, so indexing is list indexing; slices that can
  be out of range in \<open>finish_transfer\<close> are the value \<open>None\<close>, a panic.
\<close>

section \<open>Descriptors\<close>

record endpoint =
  ep_address :: nat
  ep_attributes :: nat
  ep_max_packet :: nat
  ep_interval :: nat
  ep_sync_address :: nat
  ep_rate_control :: bool

record alternate =
  al_control :: nat
  al_interface :: nat
  al_alternate :: nat
  al_uac2 :: bool
  al_terminal :: nat
  al_clock :: nat
  al_channels :: nat
  al_bits :: nat
  al_subslot :: nat
  al_pcm :: bool
  al_rates :: "(nat \<times> nat) list"
  al_endpoints :: "endpoint list"

record device =
  dev_vendor :: nat
  dev_product :: nat
  dev_revision :: nat
  dev_alternates :: "alternate list"

text \<open>The parser's local variables.\<close>

record parser =
  pa_device :: device
  pa_current :: "alternate option"
  pa_control :: nat
  pa_is_control :: bool
  pa_clocks :: "nat \<times> nat \<Rightarrow> nat option"
  pa_configurations :: nat

definition new_parser :: parser where
  "new_parser = \<lparr>pa_device = \<lparr>dev_vendor = 0, dev_product = 0, dev_revision = 0, dev_alternates = []\<rparr>,
     pa_current = None, pa_control = 0, pa_is_control = False, pa_clocks = Map.empty, pa_configurations = 0\<rparr>"

definition byte_at :: "bytes \<Rightarrow> nat \<Rightarrow> nat" where "byte_at d i = u8 (d ! i)"

definition u16le :: "bytes \<Rightarrow> nat" where "u16le b = get_le (take 2 b)"

definition u24le :: "bytes \<Rightarrow> nat" where "u24le b = get_le (take 3 b)"

definition push_current :: "alternate option \<Rightarrow> device \<Rightarrow> device" where
  "push_current cur dev =
     (case cur of None \<Rightarrow> dev | Some a \<Rightarrow> dev\<lparr>dev_alternates := dev_alternates dev @ [a]\<rparr>)"

definition streaming_alternate :: "nat \<Rightarrow> bytes \<Rightarrow> alternate" where
  "streaming_alternate control d =
     \<lparr>al_control = control, al_interface = byte_at d 2, al_alternate = byte_at d 3, al_uac2 = (byte_at d 7 = 0x20),
      al_terminal = 0, al_clock = 0, al_channels = 0, al_bits = 0, al_subslot = 0, al_pcm = False,
      al_rates = [], al_endpoints = []\<rparr>"

text \<open>An interface descriptor closes the alternate being built and may open the next.\<close>

definition interface_desc :: "bytes \<Rightarrow> parser \<Rightarrow> parser" where
  "interface_desc d p =
     (let dev = push_current (pa_current p) (pa_device p);
          control = (if byte_at d 5 = 1 \<and> byte_at d 6 = 1 then byte_at d 2 else pa_control p)
      in p\<lparr>pa_device := dev,
           pa_is_control := (byte_at d 5 = 1 \<and> byte_at d 6 = 1 \<and> byte_at d 7 = 0x20),
           pa_control := control,
           pa_current :=
             (if byte_at d 5 = 1 \<and> byte_at d 6 = 2 \<and> 0 < byte_at d 3 \<and> (byte_at d 7 = 0 \<or> byte_at d 7 = 0x20)
              then Some (streaming_alternate control d) else None)\<rparr>)"

text \<open>A class-specific descriptor describes the alternate being built.\<close>

definition general_desc :: "bytes \<Rightarrow> alternate \<Rightarrow> alternate" where
  "general_desc d a =
     (if 7 \<le> length d \<and> byte_at d 2 = 1 then
        let a1 = a\<lparr>al_terminal := byte_at d 3\<rparr> in
        if al_uac2 a1 \<and> 16 \<le> length d \<and> byte_at d 5 = 1
          then a1\<lparr>al_pcm := odd (get_le (take 4 (drop 6 d))), al_channels := byte_at d 10\<rparr>
        else if \<not> al_uac2 a1 then a1\<lparr>al_pcm := (u16le (drop 5 d) = 1)\<rparr>
        else a1
      else a)"

definition format_desc :: "bytes \<Rightarrow> alternate \<Rightarrow> alternate" where
  "format_desc d a =
     (if 6 \<le> length d \<and> byte_at d 2 = 2 \<and> byte_at d 3 = 1 then
        if al_uac2 a then a\<lparr>al_subslot := byte_at d 4, al_bits := byte_at d 5\<rparr>
        else if 8 \<le> length d then
          let a1 = a\<lparr>al_channels := byte_at d 4, al_subslot := byte_at d 5, al_bits := byte_at d 6\<rparr>;
              count = byte_at d 7
          in if count = 0 \<and> 14 \<le> length d
             then a1\<lparr>al_rates := al_rates a1 @ [(u24le (drop 8 d), u24le (drop 11 d))]\<rparr>
             else if 8 + count * 3 \<le> length d
             then a1\<lparr>al_rates := al_rates a1 @
                    map (\<lambda>k. (u24le (drop (8 + 3 * k) d), u24le (drop (8 + 3 * k) d))) [0..<count]\<rparr>
             else a1
        else a
      else a)"

definition endpoint_desc :: "bytes \<Rightarrow> alternate \<Rightarrow> alternate" where
  "endpoint_desc d a =
     (let packet = u16le (drop 4 d)
      in a\<lparr>al_endpoints := al_endpoints a @
        [\<lparr>ep_address = byte_at d 2, ep_attributes = byte_at d 3,
          ep_max_packet = (packet AND 0x7ff) * (1 + (drop_bit 11 packet AND 3)),
          ep_interval = byte_at d 6,
          ep_sync_address = (if 8 < length d then byte_at d 8 else 0),
          ep_rate_control = False\<rparr>]\<rparr>)"

definition rate_control_desc :: "bytes \<Rightarrow> alternate \<Rightarrow> alternate" where
  "rate_control_desc d a =
     (if \<not> al_uac2 a \<and> al_endpoints a \<noteq> []
      then a\<lparr>al_endpoints := butlast (al_endpoints a) @ [(last (al_endpoints a))\<lparr>ep_rate_control := odd (byte_at d 3)\<rparr>]\<rparr>
      else a)"

definition on_current :: "(alternate \<Rightarrow> alternate) \<Rightarrow> parser \<Rightarrow> parser" where
  "on_current f p = p\<lparr>pa_current := map_option f (pa_current p)\<rparr>"

definition descriptor :: "bytes \<Rightarrow> parser \<Rightarrow> parser res" where
  "descriptor d p =
     (if byte_at d 1 = 2 then
        let p1 = p\<lparr>pa_configurations := pa_configurations p + 1\<rparr>
        in if 1 < pa_configurations p1 then Inl ''Multiple USB configurations are not supported'' else Inr p1
      else if byte_at d 1 = 1 \<and> 18 \<le> length d then
        Inr (p\<lparr>pa_device := (pa_device p)\<lparr>dev_vendor := u16le (drop 8 d), dev_product := u16le (drop 10 d),
          dev_revision := u16le (drop 12 d)\<rparr>\<rparr>)
      else if byte_at d 1 = 4 \<and> 9 \<le> length d then Inr (interface_desc d p)
      else if byte_at d 1 = 0x24 \<and> pa_is_control p \<and> 9 \<le> length d \<and> byte_at d 2 = 2 then
        Inr (p\<lparr>pa_clocks := (pa_clocks p)((pa_control p, byte_at d 3) \<mapsto> byte_at d 7)\<rparr>)
      else if byte_at d 1 = 0x24 then Inr (on_current (\<lambda>a. format_desc d (general_desc d a)) p)
      else if byte_at d 1 = 5 \<and> 7 \<le> length d then Inr (on_current (endpoint_desc d) p)
      else if byte_at d 1 = 0x25 \<and> 4 \<le> length d \<and> byte_at d 2 = 1 then Inr (on_current (rate_control_desc d) p)
      else Inr p)"

text \<open>The loop, over the bytes from \<^verbatim>\<open>offset\<close> on.\<close>

function parse_loop :: "bytes \<Rightarrow> parser \<Rightarrow> parser res" where
  "parse_loop b p =
     (if b = [] then Inr p
      else let len = byte_at b 0 in
        if len < 2 \<or> length b < len then Inl ''malformed USB descriptor''
        else case descriptor (take len b) p of
            Inl e \<Rightarrow> Inl e
          | Inr p' \<Rightarrow> parse_loop (drop len b) p')"
  by pat_completeness auto
termination by (relation "measure (length \<circ> fst)") auto

declare parse_loop.simps [simp del]

definition finish_parse :: "parser \<Rightarrow> device" where
  "finish_parse p =
     (let dev = push_current (pa_current p) (pa_device p)
      in dev\<lparr>dev_alternates := map (\<lambda>a. a\<lparr>al_clock :=
           (case pa_clocks p (al_control a, al_terminal a) of None \<Rightarrow> 0 | Some c \<Rightarrow> c)\<rparr>) (dev_alternates dev)\<rparr>)"

definition parse_usb :: "bytes \<Rightarrow> device res" where
  "parse_usb b = map_sum id finish_parse (parse_loop b new_parser)"

section \<open>Formats\<close>

record usb_format =
  uf_rate :: nat
  uf_channels :: nat
  uf_bits :: nat
  uf_subslot :: nat
  uf_encoding :: string

definition native_encoding :: "device \<Rightarrow> alternate \<Rightarrow> string option" where
  "native_encoding dev a =
     (if \<not> al_uac2 a \<or> al_subslot a \<noteq> 4 then None
      else
        let v = dev_vendor dev; p = dev_product dev; n = al_alternate a; r = dev_revision dev in
        if v = 0x16d0 \<and> p = 0x071a \<and> n = 2 \<and> r = 0x0199 then Some ''dsd_le''
        else if v = 0x16d0 \<and> p = 0x071a \<and> n = 2 \<and> (r = 0x019b \<or> r = 0x0203) then Some ''dsd_be''
        else if v = 0x2772 \<and> p = 0x0230 \<and> n = 2 \<or> v = 0x20b1 \<and> p = 0x3089 \<and> n = 2 then Some ''dsd_be''
        else None)"

definition wire_format ::
    "device \<Rightarrow> nat \<Rightarrow> nat \<Rightarrow> bool \<Rightarrow> bool \<Rightarrow> alternate \<Rightarrow> (nat \<times> string \<times> nat) option" where
  "wire_format dev rate bits dsd dop a =
     (let native = native_encoding dev a in
      if dsd then
        (case native of
           Some encoding \<Rightarrow> Some (rate div 32, encoding, 1)
         | None \<Rightarrow>
             if dop \<and> al_pcm a \<and> 24 \<le> al_bits a \<and> 3 \<le> al_subslot a
             then Some (rate div 16, ''dop'', 24) else None)
      else if \<not> al_pcm a \<or> native \<noteq> None \<or> \<not> (bits = 16 \<or> bits = 24 \<or> bits = 32) \<or> al_bits a < bits
        then None
      else Some (rate, ''pcm'', al_bits a))"

definition offer ::
    "device \<Rightarrow> nat \<Rightarrow> nat \<Rightarrow> nat \<Rightarrow> bool \<Rightarrow> bool \<Rightarrow> alternate \<Rightarrow> (alternate \<times> usb_format) option" where
  "offer dev rate channels bits dsd dop a =
     (if al_channels a \<noteq> channels \<or> \<not> (1 \<le> channels \<and> channels \<le> 2) \<or>
         \<not> (2 \<le> al_subslot a \<and> al_subslot a \<le> 4) then None
      else case wire_format dev rate bits dsd dop a of
          None \<Rightarrow> None
        | Some (wire_rate, encoding, prec) \<Rightarrow>
            if wire_rate = 0 \<or> al_subslot a * 8 < al_bits a \<or> (al_uac2 a \<and> al_clock a = 0) then None
            else if \<not> al_uac2 a \<and> \<not> list_ex (\<lambda>(lo, hi). lo \<le> wire_rate \<and> wire_rate \<le> hi) (al_rates a) then None
            else Some (a, \<lparr>uf_rate = wire_rate, uf_channels = channels, uf_bits = prec,
                           uf_subslot = al_subslot a, uf_encoding = encoding\<rparr>))"

definition format_key :: "alternate \<times> usb_format \<Rightarrow> nat \<times> nat" where
  "format_key = (\<lambda>(a, f). (if starts_with (uf_encoding f) ''dsd_'' then 0 else 1, uf_subslot f))"

definition formats ::
    "device \<Rightarrow> nat \<Rightarrow> nat \<Rightarrow> nat \<Rightarrow> bool \<Rightarrow> bool \<Rightarrow> (alternate \<times> usb_format) list" where
  "formats dev rate channels bits dsd dop =
     sort_key format_key (List.map_filter (offer dev rate channels bits dsd dop) (dev_alternates dev))"

section \<open>Framing\<close>

text \<open>\<^verbatim>\<open>chunks_exact_mut\<close>: each full chunk is rewritten in turn, the remainder is kept.\<close>

function on_chunks :: "nat \<Rightarrow> ('s \<Rightarrow> 'a list \<Rightarrow> 'a list \<times> 's) \<Rightarrow> 's \<Rightarrow> 'a list \<Rightarrow> 'a list \<times> 's" where
  "on_chunks k f s xs =
     (if k = 0 \<or> length xs < k then (xs, s)
      else let (c, s1) = f s (take k xs); (r, s2) = on_chunks k f s1 (drop k xs) in (c @ r, s2))"
  by pat_completeness auto
termination by (relation "measure (\<lambda>(k, f, s, xs). length xs)") auto

declare on_chunks.simps [simp del]

definition stamp_sample :: "nat \<Rightarrow> byte \<Rightarrow> bytes \<Rightarrow> bytes \<times> byte" where
  "stamp_sample subslot marker sample =
     (let s1 = sample[subslot - 1 := marker];
          s2 = (if subslot = 4 then s1[0 := CHR 0x00] else s1)
      in (s2, marker))"

definition flip_marker :: "byte \<Rightarrow> byte" where
  "flip_marker m = char_of (u8 m XOR 0xff)"

definition stamp_frame :: "nat \<Rightarrow> byte \<Rightarrow> bytes \<Rightarrow> bytes \<times> byte" where
  "stamp_frame subslot marker frame =
     (fst (on_chunks subslot (stamp_sample subslot) marker frame), flip_marker marker)"

definition fill_silence :: "string \<Rightarrow> nat \<Rightarrow> bytes \<Rightarrow> bytes" where
  "fill_silence encoding n b =
     take n b @ replicate (length b - n) (if encoding = ''pcm'' then CHR 0x00 else CHR 0x69)"

definition finish_transfer :: "bytes \<Rightarrow> nat \<Rightarrow> usb_format \<Rightarrow> byte \<Rightarrow> (bytes \<times> byte) option" where
  "finish_transfer b real_bytes fmt marker =
     (if length b < real_bytes then None
      else
        let filled = fill_silence (uf_encoding fmt) real_bytes b in
        if uf_encoding fmt = ''dop'' then
          let subslot = uf_subslot fmt; frame = subslot * uf_channels fmt in
          if frame = 0 then None
          else Some (on_chunks frame (stamp_frame subslot) marker filled)
        else Some (filled, marker))"

section \<open>Lemmas on the parser\<close>

text \<open>The bytes as a sequence of descriptors, and what each interface descriptor announces.\<close>

function split_descriptors :: "bytes \<Rightarrow> bytes list option" where
  "split_descriptors b =
     (if b = [] then Some []
      else let len = byte_at b 0 in
        if len < 2 \<or> length b < len then None
        else map_option (\<lambda>ds. take len b # ds) (split_descriptors (drop len b)))"
  by pat_completeness auto
termination by (relation "measure length") auto

declare split_descriptors.simps [simp del]

lemma parse_loop_Nil [simp]: "parse_loop [] p = Inr p"
  by (subst parse_loop.simps) simp

lemma split_descriptors_Nil [simp]: "split_descriptors [] = Some []"
  by (subst split_descriptors.simps) simp

definition announces :: "bytes \<Rightarrow> bool" where
  "announces d \<longleftrightarrow> byte_at d 1 = 4 \<and> 9 \<le> length d \<and> byte_at d 5 = 1 \<and> byte_at d 6 = 2 \<and> 0 < byte_at d 3 \<and>
     (byte_at d 7 = 0 \<or> byte_at d 7 = 0x20)"

definition identity :: "alternate \<Rightarrow> nat \<times> nat \<times> bool" where
  "identity a = (al_interface a, al_alternate a, al_uac2 a)"

definition announced :: "bytes \<Rightarrow> nat \<times> nat \<times> bool" where
  "announced d = (byte_at d 2, byte_at d 3, byte_at d 7 = 0x20)"

definition found :: "parser \<Rightarrow> (nat \<times> nat \<times> bool) list" where
  "found p = map identity (dev_alternates (push_current (pa_current p) (pa_device p)))"

lemma identity_updates [simp]:
  "identity (general_desc d a) = identity a" "identity (format_desc d a) = identity a"
  "identity (endpoint_desc d a) = identity a" "identity (rate_control_desc d a) = identity a"
  by (auto simp: identity_def general_desc_def format_desc_def endpoint_desc_def rate_control_desc_def Let_def)

lemma found_on_current: "(\<And>a. identity (f a) = identity a) \<Longrightarrow> found (on_current f p) = found p"
  by (simp add: found_def on_current_def push_current_def split: option.splits)

lemma found_interface: "found (interface_desc d p) =
  found p @ (if byte_at d 5 = 1 \<and> byte_at d 6 = 2 \<and> 0 < byte_at d 3 \<and> (byte_at d 7 = 0 \<or> byte_at d 7 = 0x20) then [announced d] else [])"
  by (simp add: found_def interface_desc_def push_current_def streaming_alternate_def identity_def
      announced_def Let_def split: option.splits)

lemma configurations_kept [simp]:
  "pa_configurations (interface_desc d p) = pa_configurations p"
  "pa_configurations (on_current f p) = pa_configurations p"
  by (simp_all add: interface_desc_def on_current_def Let_def)

lemma found_frame: "found (p\<lparr>pa_configurations := n\<rparr>) = found p" "found (p\<lparr>pa_clocks := c\<rparr>) = found p"
  "found (p\<lparr>pa_device := (pa_device p)\<lparr>dev_vendor := v, dev_product := q, dev_revision := r\<rparr>\<rparr>) = found p"
  by (simp_all add: found_def push_current_def split: option.splits)

lemma descriptor_found: "descriptor d p = Inr p' \<Longrightarrow>
  found p' = found p @ (if announces d then [announced d] else []) \<and>
  pa_configurations p' = pa_configurations p + (if byte_at d 1 = 2 then 1 else 0) \<and>
  (byte_at d 1 = 2 \<longrightarrow> pa_configurations p' \<le> 1)"
  unfolding descriptor_def
  by (auto simp: Let_def found_on_current found_interface announces_def found_frame split: if_splits)

lemma descriptor_error: "descriptor d p = Inl e \<Longrightarrow> byte_at d 1 = 2 \<and> 1 \<le> pa_configurations p"
  by (auto simp: descriptor_def Let_def split: if_splits)

lemma parse_loop_split:
  "parse_loop b p = Inr p' \<Longrightarrow> pa_configurations p \<le> 1 \<Longrightarrow>
   \<exists>ds. split_descriptors b = Some ds \<and> concat ds = b \<and> (\<forall>d \<in> set ds. 2 \<le> length d \<and> byte_at d 0 = length d) \<and>
     found p' = found p @ map announced (filter announces ds) \<and>
     pa_configurations p + length (filter (\<lambda>d. byte_at d 1 = 2) ds) \<le> 1"
proof (induction b p arbitrary: p' rule: parse_loop.induct)
  case (1 b p)
  show ?case
  proof (cases "b = []")
    case True
    then show ?thesis using 1 by auto
  next
    case False
    let ?len = "byte_at b 0"
    have len: "2 \<le> ?len" "?len \<le> length b"
      using 1(2) False by (auto simp: parse_loop.simps [of b] Let_def split: if_splits)
    obtain p1 where d: "descriptor (take ?len b) p = Inr p1"
      using 1(2) False len by (auto simp: parse_loop.simps [of b] Let_def split: sum.splits)
    have rest: "parse_loop (drop ?len b) p1 = Inr p'"
      using 1(2) False len d by (auto simp: parse_loop.simps [of b] Let_def)
    note f = descriptor_found [OF d]
    have "pa_configurations p1 \<le> 1" using f 1(3) by (cases "byte_at (take ?len b) 1 = 2") auto
    then obtain ds where ds: "split_descriptors (drop ?len b) = Some ds" "concat ds = drop ?len b"
      "\<forall>d \<in> set ds. 2 \<le> length d \<and> byte_at d 0 = length d"
      "found p' = found p1 @ map announced (filter announces ds)"
      "pa_configurations p1 + length (filter (\<lambda>d. byte_at d 1 = 2) ds) \<le> 1"
      using 1(1) [OF False refl _ d rest] len by auto
    have hd: "byte_at (take ?len b) 0 = ?len" using len False by (simp add: byte_at_def)
    have "split_descriptors b = Some (take ?len b # ds)"
      using False len ds(1) by (simp add: split_descriptors.simps [of b] Let_def)
    moreover have "concat (take ?len b # ds) = b" using ds(2) by simp
    moreover have "\<forall>d \<in> set (take ?len b # ds). 2 \<le> length d \<and> byte_at d 0 = length d"
      using ds(3) len hd by simp
    moreover have "found p' = found p @ map announced (filter announces (take ?len b # ds))"
      using ds(4) f by simp
    moreover have "pa_configurations p + length (filter (\<lambda>d. byte_at d 1 = 2) (take ?len b # ds)) \<le> 1"
      using ds(5) f by (cases "byte_at (take ?len b) 1 = 2") simp_all
    ultimately show ?thesis by blast
  qed
qed

lemma parse_loop_complete:
  "split_descriptors b = Some ds \<Longrightarrow> pa_configurations p + length (filter (\<lambda>d. byte_at d 1 = 2) ds) \<le> 1 \<Longrightarrow>
   \<exists>p'. parse_loop b p = Inr p'"
proof (induction b p arbitrary: ds rule: parse_loop.induct)
  case (1 b p)
  show ?case
  proof (cases "b = []")
    case True
    then show ?thesis by simp
  next
    case False
    let ?len = "byte_at b 0"
    have len: "\<not> (?len < 2 \<or> length b < ?len)"
      using 1(2) False by (auto simp: split_descriptors.simps [of b] Let_def split: if_splits)
    then obtain ds' where ds: "split_descriptors (drop ?len b) = Some ds'" "ds = take ?len b # ds'"
      using 1(2) False by (auto simp: split_descriptors.simps [of b] Let_def)
    obtain p1 where d: "descriptor (take ?len b) p = Inr p1"
    proof (cases "descriptor (take ?len b) p")
      case (Inl e)
      then show thesis using descriptor_error [OF Inl] 1(3) ds(2) by auto
    qed
    have "pa_configurations p1 + length (filter (\<lambda>d. byte_at d 1 = 2) ds') \<le> 1"
      using descriptor_found [OF d] 1(3) ds(2) by (auto split: if_splits)
    from 1(1) [OF False refl len d ds(1) this] show ?thesis
      using False len d by (simp add: parse_loop.simps [of b] Let_def)
  qed
qed

lemma found_new [simp]: "found new_parser = []" "pa_configurations new_parser = 0"
  by (simp_all add: found_def new_parser_def push_current_def)

lemma identities_finish: "map identity (dev_alternates (finish_parse p)) = found p"
  by (simp add: finish_parse_def found_def identity_def Let_def o_def)

section \<open>Lemmas on framing\<close>

lemma on_chunks_short: "length xs < k \<or> k = 0 \<Longrightarrow> on_chunks k f s xs = (xs, s)"
  by (subst on_chunks.simps) auto

lemma on_chunks_chunk: "0 < k \<Longrightarrow> length c = k \<Longrightarrow>
  on_chunks k f s (c @ xs) = (let (c', s1) = f s c; (r, s2) = on_chunks k f s1 xs in (c' @ r, s2))"
  by (subst on_chunks.simps) auto

lemma on_chunks_append:
  assumes "0 < k" and "k dvd length xs"
  shows "on_chunks k f s (xs @ ys) =
    (let (a, s1) = on_chunks k f s xs; (b, s2) = on_chunks k f s1 ys in (a @ b, s2))"
  using assms
proof (induction k f s xs rule: on_chunks.induct)
  case (1 k f s xs)
  show ?case
  proof (cases "xs = []")
    case True
    then show ?thesis using 1(2) by (simp add: on_chunks_short)
  next
    case False
    then have le: "k \<le> length xs" using 1(3) by (auto dest: dvd_imp_le)
    have dvd: "k dvd length (drop k xs)" using 1(3) le by simp
    obtain c s1 where c: "f s (take k xs) = (c, s1)" by (cases "f s (take k xs)")
    have split: "take k xs @ drop k xs = xs" and len: "length (take k xs) = k" using le by auto
    have e1: "on_chunks k f s (xs @ ys) = (let (r, s2) = on_chunks k f s1 (drop k xs @ ys) in (c @ r, s2))"
      using on_chunks_chunk [OF 1(2) len, of f s "drop k xs @ ys"] c by (simp del: append_assoc add: append_assoc [symmetric])
    have e2: "on_chunks k f s xs = (let (r, s2) = on_chunks k f s1 (drop k xs) in (c @ r, s2))"
      using on_chunks_chunk [OF 1(2) len, of f s "drop k xs"] c by simp
    have "on_chunks k f s1 (drop k xs @ ys) =
        (let (a, s1) = on_chunks k f s1 (drop k xs); (b, s2) = on_chunks k f s1 ys in (a @ b, s2))"
      using 1(1) [OF _ c [symmetric] refl 1(2) dvd] 1(2) le by simp
    then show ?thesis
      unfolding e1 e2 by (simp add: case_prod_beta Let_def)
  qed
qed

text \<open>When the state evolves independently of the data and chunks keep their length, the
  result is known byte by byte.\<close>

lemma on_chunks_spec:
  assumes k: "0 < k" and len: "\<And>s c. length c = k \<Longrightarrow> length (fst (f s c)) = k"
    and st: "\<And>s c. snd (f s c) = h s"
  shows "length (fst (on_chunks k f s xs)) = length xs \<and>
    snd (on_chunks k f s xs) = (h ^^ (length xs div k)) s \<and>
    (\<forall>j < length xs. fst (on_chunks k f s xs) ! j =
       (if j < length xs div k * k then fst (f ((h ^^ (j div k)) s) (take k (drop (j div k * k) xs))) ! (j mod k)
        else xs ! j))"
proof (induction "length xs div k" arbitrary: s xs)
  case 0
  then have "length xs < k" using k by (simp add: div_eq_0_iff)
  then show ?case by (simp add: on_chunks_short)
next
  case (Suc n)
  from Suc(2) have le: "k \<le> length xs" using k
    by (metis div_less nat.distinct(1) not_less)
  define t where "t = drop k xs"
  define c where "c = take k xs"
  have xs: "xs = c @ t" and lc: "length c = k" using le by (auto simp: c_def t_def)
  have lt: "n = length t div k" using Suc(2) le k by (simp add: t_def div_if [of "length xs"] le_div_geq)
  note IH = Suc(1) [OF lt, of "h s"]
  have r: "on_chunks k f s xs = (fst (f s c) @ fst (on_chunks k f (h s) t), snd (on_chunks k f (h s) t))"
    using on_chunks_chunk [OF k lc, of f s t] st [of s c] by (simp add: xs case_prod_beta Let_def)
  have len': "length (fst (on_chunks k f s xs)) = length xs" using IH r len [OF lc] lc by (simp add: xs)
  have d: "length xs div k = Suc (length t div k)" using Suc(2) lt by simp
  have snd': "snd (on_chunks k f s xs) = (h ^^ (length xs div k)) s"
    using IH r by (simp add: d funpow_Suc_right del: funpow.simps)
  have nth: "fst (on_chunks k f s xs) ! j =
       (if j < length xs div k * k then fst (f ((h ^^ (j div k)) s) (take k (drop (j div k * k) xs))) ! (j mod k)
        else xs ! j)" if j: "j < length xs" for j
  proof (cases "j < k")
    case True
    then have "j < length xs div k * k" by (simp add: d)
    then show ?thesis using True r len [OF lc, of s] lc by (simp add: nth_append xs)
  next
    case False
    define i where "i = j - k"
    have ji: "j = k + i" and i: "i < length t" using False j by (auto simp: i_def xs lc)
    have dv: "j div k = Suc (i div k)" "j mod k = i mod k" using k by (simp_all add: ji div_add_self1)
    have lt_iff: "j < length xs div k * k \<longleftrightarrow> i < length t div k * k" by (simp add: d ji)
    have drop: "drop (j div k * k) xs = drop (i div k * k) t" by (simp add: dv xs lc)
    have "fst (on_chunks k f s xs) ! j = fst (on_chunks k f (h s) t) ! i"
      using r len [OF lc, of s] by (simp add: nth_append ji)
    then show ?thesis
      using IH i lt_iff unfolding drop dv funpow_Suc_right o_apply
      by (auto simp: nth_append xs lc ji)
  qed
  show ?case using len' snd' nth by blast
qed

lemma stamp_sample_facts [simp]:
  "length (fst (stamp_sample n m c)) = length c" "snd (stamp_sample n m c) = m"
  by (simp_all add: stamp_sample_def Let_def)

lemma stamp_sample_nth: "0 < n \<Longrightarrow> length c = n \<Longrightarrow> i < n \<Longrightarrow>
  fst (stamp_sample n m c) ! i = (if i = n - 1 then m else if n = 4 \<and> i = 0 then CHR 0x00 else c ! i)"
  by (auto simp: stamp_sample_def Let_def nth_list_update)

lemma funpow_id [simp]: "((\<lambda>x. x) ^^ n) x = x"
  by (induction n) auto

lemma stamp_frame_nth:
  assumes "0 < n" and "length c = n * ch" and "i < n * ch"
  shows "fst (stamp_frame n m c) ! i =
    (if i mod n = n - 1 then m else if n = 4 \<and> i mod n = 0 then CHR 0x00 else c ! i)"
proof -
  have sp: "length c div n * n = n * ch" "i < length c" using assms by simp_all
  have "fst (stamp_frame n m c) ! i =
      fst (stamp_sample n m (take n (drop (i div n * n) c))) ! (i mod n)"
    using on_chunks_spec [OF assms(1), of "stamp_sample n" "\<lambda>m. m" m c] sp assms(3)
    by (simp add: stamp_frame_def)
  moreover have "i div n * n + n \<le> length c"
  proof -
    have "i div n < ch" using assms(3) by (simp add: less_mult_imp_div_less mult.commute)
    then have "(i div n + 1) * n \<le> ch * n" by (intro mult_le_mono1) simp
    then show ?thesis using assms(2) by (simp add: mult.commute)
  qed
  moreover have "take n (drop (i div n * n) c) ! (i mod n) = c ! i"
    using assms(1) sp calculation(2) by simp
  moreover have "length (take n (drop (i div n * n) c)) = n" using calculation(2) by simp
  ultimately show ?thesis
    using stamp_sample_nth [OF assms(1), of "take n (drop (i div n * n) c)" "i mod n" m]
      mod_less_divisor [OF assms(1), of i] by metis
qed

lemma stamp_frame_facts:
  "0 < n \<Longrightarrow> length (fst (stamp_frame n m c)) = length c"
  "snd (stamp_frame n m c) = flip_marker m"
  using on_chunks_spec [of n "stamp_sample n" "\<lambda>m. m" m c] by (simp_all add: stamp_frame_def)

lemma flip_flip [simp]: "flip_marker (flip_marker m) = m"
proof -
  have "take_bit 8 (u8 m) = u8 m" by (rule take_bit_nat_eq_self) simp
  then have "take_bit 8 (u8 m XOR 0xff) = u8 m XOR 0xff" by (simp add: take_bit_xor)
  moreover have "take_bit 8 (u8 m XOR 0xff) < 2 ^ 8" by (rule take_bit_nat_less_exp)
  ultimately have "u8 m XOR 0xff < 256" by simp
  then show ?thesis by (simp add: flip_marker_def xor.assoc)
qed

lemma flip_funpow: "(flip_marker ^^ n) m = (if even n then m else flip_marker m)"
  by (induction n) auto

lemma fill_silence_length [simp]: "n \<le> length b \<Longrightarrow> length (fill_silence e n b) = length b"
  by (simp add: fill_silence_def)

lemma fill_silence_full [simp]: "fill_silence e (length b) b = b"
  by (simp add: fill_silence_def)

section \<open>Properties\<close>

text \<open>
  C15.  The descriptor parser accepts exactly the byte strings that are a sequence of well-formed
  descriptors with at most one configuration descriptor, and then it has found every streaming
  alternate setting the interface descriptors announce, once each and in order, and nothing else.
\<close>

theorem parse_usb_exact:
  "((\<exists>dev. parse_usb b = Inr dev) \<longleftrightarrow>
      (\<exists>ds. split_descriptors b = Some ds \<and> length (filter (\<lambda>d. byte_at d 1 = 2) ds) \<le> 1)) \<and>
   (\<forall>dev. parse_usb b = Inr dev \<longrightarrow>
      (\<exists>ds. split_descriptors b = Some ds \<and> concat ds = b \<and>
         (\<forall>d \<in> set ds. 2 \<le> length d \<and> byte_at d 0 = length d) \<and>
         map identity (dev_alternates dev) = map announced (filter announces ds)))"
proof -
  have ok: "\<exists>ds. split_descriptors b = Some ds \<and> concat ds = b \<and>
         (\<forall>d \<in> set ds. 2 \<le> length d \<and> byte_at d 0 = length d) \<and>
         map identity (dev_alternates dev) = map announced (filter announces ds) \<and>
         length (filter (\<lambda>d. byte_at d 1 = 2) ds) \<le> 1"
    if dev: "parse_usb b = Inr dev" for dev
  proof -
    from dev obtain p where p: "parse_loop b new_parser = Inr p" "dev = finish_parse p"
      by (cases "parse_loop b new_parser") (auto simp: parse_usb_def)
    from parse_loop_split [OF p(1)] show ?thesis by (auto simp: p(2) identities_finish)
  qed
  have "\<exists>dev. parse_usb b = Inr dev"
    if "split_descriptors b = Some ds" "length (filter (\<lambda>d. byte_at d 1 = 2) ds) \<le> 1" for ds
    using parse_loop_complete [OF that(1), of new_parser] that(2) by (auto simp: parse_usb_def)
  with ok show ?thesis by meson
qed

definition one_interface :: bytes where
  "one_interface = [CHR 0x09, CHR 0x04, CHR 0x01, CHR 0x01, CHR 0x01, CHR 0x01, CHR 0x02, CHR 0x00, CHR 0x00]"

theorem parse_usb_exact_witness:
  "\<exists>ds. split_descriptors one_interface = Some ds \<and> concat ds = one_interface"
proof -
  have "\<exists>dev. parse_usb one_interface = Inr dev"
    by (simp add: parse_usb_def one_interface_def parse_loop.simps byte_at_def descriptor_def interface_desc_def Let_def)
  with parse_usb_exact [of one_interface] show ?thesis by blast
qed

text \<open>The contract of the format choice, condition by condition.\<close>

definition offers ::
    "device \<Rightarrow> nat \<Rightarrow> nat \<Rightarrow> nat \<Rightarrow> bool \<Rightarrow> bool \<Rightarrow> alternate \<Rightarrow> usb_format \<Rightarrow> bool" where
  "offers dev rate channels bits dsd dop a f \<longleftrightarrow>
     a \<in> set (dev_alternates dev) \<and> al_channels a = channels \<and> channels \<in> {1, 2} \<and>
     uf_channels f = channels \<and> uf_subslot f = al_subslot a \<and> al_subslot a \<in> {2, 3, 4} \<and>
     al_bits a \<le> 8 * al_subslot a \<and> 0 < uf_rate f \<and>
     (if al_uac2 a then al_clock a \<noteq> 0
      else \<exists>(lo, hi) \<in> set (al_rates a). uf_rate f \<in> {lo..hi}) \<and>
     (if \<not> dsd then
        native_encoding dev a = None \<and> al_pcm a \<and> bits \<in> {16, 24, 32} \<and> bits \<le> al_bits a \<and>
        uf_rate f = rate \<and> uf_encoding f = ''pcm'' \<and> uf_bits f = al_bits a
      else if native_encoding dev a \<noteq> None then
        uf_rate f = rate div 32 \<and> Some (uf_encoding f) = native_encoding dev a \<and> uf_bits f = 1
      else dop \<and> al_pcm a \<and> 24 \<le> al_bits a \<and> 3 \<le> al_subslot a \<and>
        uf_rate f = rate div 16 \<and> uf_encoding f = ''dop'' \<and> uf_bits f = 24)"

lemma offer_conditions: "offer dev rate channels bits dsd dop a = Some (a', f) \<longleftrightarrow>
   a' = a \<and> al_channels a = channels \<and> channels \<in> {1, 2} \<and> al_subslot a \<in> {2, 3, 4} \<and>
   wire_format dev rate bits dsd dop a = Some (uf_rate f, uf_encoding f, uf_bits f) \<and>
   uf_channels f = channels \<and> uf_subslot f = al_subslot a \<and> 0 < uf_rate f \<and>
   al_bits a \<le> 8 * al_subslot a \<and>
   (if al_uac2 a then al_clock a \<noteq> 0
    else \<exists>(lo, hi) \<in> set (al_rates a). uf_rate f \<in> {lo..hi})"
proof (cases "wire_format dev rate bits dsd dop a")
  case None
  then show ?thesis by (simp add: offer_def)
next
  case (Some w)
  obtain r e p where w: "w = (r, e, p)" by (cases w)
  have sub: "2 \<le> al_subslot a \<and> al_subslot a \<le> 4 \<longleftrightarrow> al_subslot a \<in> {2, 3, 4}" by auto
  have ch: "1 \<le> channels \<and> channels \<le> 2 \<longleftrightarrow> channels \<in> {1, 2}" by auto
  have rates: "list_ex (\<lambda>(lo, hi). lo \<le> r \<and> r \<le> hi) (al_rates a) \<longleftrightarrow>
      (\<exists>(lo, hi) \<in> set (al_rates a). r \<in> {lo..hi})"
    by (auto simp: list_ex_iff)
  have "offer dev rate channels bits dsd dop a =
      (if al_channels a = channels \<and> channels \<in> {1, 2} \<and> al_subslot a \<in> {2, 3, 4} \<and> 0 < r \<and>
          al_bits a \<le> 8 * al_subslot a \<and>
          (if al_uac2 a then al_clock a \<noteq> 0 else \<exists>(lo, hi) \<in> set (al_rates a). r \<in> {lo..hi})
       then Some (a, \<lparr>uf_rate = r, uf_channels = channels, uf_bits = p, uf_subslot = al_subslot a,
         uf_encoding = e\<rparr>) else None)"
    unfolding offer_def sub ch Some w option.case prod.case rates by (auto simp: mult.commute)
  then show ?thesis
    unfolding Some w by (cases f) auto
qed

lemma wire_conditions: "wire_format dev rate bits dsd dop a = Some (r, e, p) \<longleftrightarrow>
   (if \<not> dsd then
      native_encoding dev a = None \<and> al_pcm a \<and> bits \<in> {16, 24, 32} \<and> bits \<le> al_bits a \<and>
      r = rate \<and> e = ''pcm'' \<and> p = al_bits a
    else if native_encoding dev a \<noteq> None then
      r = rate div 32 \<and> Some e = native_encoding dev a \<and> p = 1
    else dop \<and> al_pcm a \<and> 24 \<le> al_bits a \<and> 3 \<le> al_subslot a \<and> r = rate div 16 \<and> e = ''dop'' \<and> p = 24)"
  by (cases dsd; cases "native_encoding dev a") (auto simp: wire_format_def)

lemma offer_Some: "a \<in> set (dev_alternates dev) \<Longrightarrow>
  offer dev rate channels bits dsd dop a = Some (a', f) \<longleftrightarrow> a' = a \<and> offers dev rate channels bits dsd dop a f"
  unfolding offer_conditions wire_conditions offers_def by blast

text \<open>
  C16.  The format choice is sound and complete: it returns, in order of preference, exactly the
  pairs of an alternate of the device and a wire format that meet the contract \<open>offers\<close> (bit depth
  and rate really carried, a known clock, native DSD only on the listed devices, PCM never on
  those), as many times as the device lists the alternate.
\<close>

theorem formats_exact:
  "set (formats dev rate channels bits dsd dop) = {(a, f). offers dev rate channels bits dsd dop a f} \<and>
   sorted (map format_key (formats dev rate channels bits dsd dop)) \<and>
   mset (map fst (formats dev rate channels bits dsd dop)) =
     mset (filter (\<lambda>a. \<exists>f. offers dev rate channels bits dsd dop a f) (dev_alternates dev))"
proof -
  let ?o = "offer dev rate channels bits dsd dop"
  have "set (List.map_filter ?o (dev_alternates dev)) = {(a, f). offers dev rate channels bits dsd dop a f}"
  proof (intro set_eqI iffI; clarify)
    fix a f assume "(a, f) \<in> set (List.map_filter ?o (dev_alternates dev))"
    then obtain b where b: "b \<in> set (dev_alternates dev)" and o: "?o b = Some (a, f)"
      by (auto simp: List.map_filter_def)
    from o show "offers dev rate channels bits dsd dop a f" unfolding offer_Some [OF b] by simp
  next
    fix a f assume o: "offers dev rate channels bits dsd dop a f"
    then have "a \<in> set (dev_alternates dev)" by (simp add: offers_def)
    moreover from offer_Some [OF this] o have "?o a = Some (a, f)" by blast
    ultimately show "(a, f) \<in> set (List.map_filter ?o (dev_alternates dev))"
      by (force simp: List.map_filter_def)
  qed
  moreover have "map fst (List.map_filter ?o as) = filter (\<lambda>a. \<exists>f. offers dev rate channels bits dsd dop a f) as"
    if "set as \<subseteq> set (dev_alternates dev)" for as
    using that
  proof (induction as)
    case (Cons a as)
    then have a: "a \<in> set (dev_alternates dev)" by simp
    show ?case
    proof (cases "?o a")
      case None
      then have "\<not> offers dev rate channels bits dsd dop a f" for f
        using offer_Some [OF a, of rate channels bits dsd dop a f] by simp
      then show ?thesis using Cons None by (simp add: List.map_filter_simps)
    next
      case (Some af)
      obtain a' f where af: "af = (a', f)" by (cases af)
      then have "a' = a \<and> offers dev rate channels bits dsd dop a f" using offer_Some [OF a] Some by blast
      then show ?thesis using Cons Some af by (auto simp: List.map_filter_simps)
    qed
  qed (simp add: List.map_filter_simps)
  then have "map fst (List.map_filter ?o (dev_alternates dev)) =
      filter (\<lambda>a. \<exists>f. offers dev rate channels bits dsd dop a f) (dev_alternates dev)" by simp
  moreover have "mset (map fst (sort_key format_key xs)) = mset (map fst xs)" for xs :: "(alternate \<times> usb_format) list"
    by (metis mset_map mset_sort)
  ultimately show ?thesis
    unfolding formats_def by (simp only: set_sort sorted_sort_key mset_filter simp_thms)
qed

text \<open>
  C17.  Completing a transfer is exact byte by byte.  The given samples and the silence after
  them are kept, except that DoP overwrites the top byte of every sample with the marker of its
  frame, alternating from the marker it is given, and clears the padding byte of 4-byte slots; and
  the next transfer continues with the marker of the next frame.
\<close>

theorem finish_transfer_exact:
  assumes "n \<le> length b" and "0 < uf_subslot fmt" and "0 < uf_channels fmt"
  shows "\<exists>out. finish_transfer b n fmt m =
      Some (out, if uf_encoding fmt = ''dop'' \<and> odd (length b div (uf_subslot fmt * uf_channels fmt))
                 then flip_marker m else m) \<and>
    length out = length b \<and>
    (\<forall>j < length b. out ! j =
      (let slot = uf_subslot fmt; frame = slot * uf_channels fmt in
       if uf_encoding fmt = ''dop'' \<and> j < length b div frame * frame \<and> j mod slot = slot - 1
         then if even (j div frame) then m else flip_marker m
       else if uf_encoding fmt = ''dop'' \<and> j < length b div frame * frame \<and> slot = 4 \<and> j mod slot = 0
         then CHR 0x00
       else if j < n then b ! j
       else if uf_encoding fmt = ''pcm'' then CHR 0x00 else CHR 0x69))"
proof -
  let ?S = "uf_subslot fmt" and ?F = "uf_subslot fmt * uf_channels fmt"
  let ?x = "fill_silence (uf_encoding fmt) n b"
  have x: "?x ! j = (if j < n then b ! j else if uf_encoding fmt = ''pcm'' then CHR 0x00 else CHR 0x69)"
    if "j < length b" for j
    using that assms(1) by (simp add: fill_silence_def nth_append)
  show ?thesis
  proof (cases "uf_encoding fmt = ''dop''")
    case False
    then show ?thesis using assms(1) x by (simp add: finish_transfer_def Let_def)
  next
    case True
    have F: "0 < ?F" using assms(2,3) by simp
    let ?out = "on_chunks ?F (stamp_frame ?S) m ?x"
    have f: "finish_transfer b n fmt m = Some ?out"
      using True F assms(1) by (simp add: finish_transfer_def Let_def)
    note spec = on_chunks_spec [OF F, of "stamp_frame ?S" flip_marker m ?x]
    have "length (fst (stamp_frame ?S s c)) = ?F" if "length c = ?F" for s c
      using that stamp_frame_facts(1) [OF assms(2)] by simp
    note spec = spec [OF this stamp_frame_facts(2)]
    have nth: "fst ?out ! j =
      (if j < length b div ?F * ?F \<and> j mod ?S = ?S - 1 then if even (j div ?F) then m else flip_marker m
       else if j < length b div ?F * ?F \<and> ?S = 4 \<and> j mod ?S = 0 then CHR 0x00 else ?x ! j)"
      if j: "j < length b" for j
    proof (cases "j < length b div ?F * ?F")
      case True
      let ?c = "take ?F (drop (j div ?F * ?F) ?x)" and ?m = "(flip_marker ^^ (j div ?F)) m"
      have jF: "j div ?F * ?F + ?F \<le> length b"
      proof -
        have "j div ?F < length b div ?F" using True F by (simp add: less_mult_imp_div_less)
        then have "(j div ?F + 1) * ?F \<le> length b div ?F * ?F" by (intro mult_le_mono1) simp
        also have "\<dots> \<le> length b" by simp
        finally show ?thesis by simp
      qed
      have c: "length ?c = ?F" using jF assms(1) by simp
      have "?c ! (j mod ?F) = ?x ! (j div ?F * ?F + j mod ?F)"
        using mod_less_divisor [OF F, of j] jF assms(1) by simp
      then have "?c ! (j mod ?F) = ?x ! j" by (simp only: div_mult_mod_eq)
      moreover have "j mod ?F mod ?S = j mod ?S" by (simp add: mod_mult2_eq)
      ultimately have "fst (stamp_frame ?S ?m ?c) ! (j mod ?F) =
          (if j mod ?S = ?S - 1 then ?m else if ?S = 4 \<and> j mod ?S = 0 then CHR 0x00 else ?x ! j)"
        using stamp_frame_nth [OF assms(2) c mod_less_divisor [OF F], of ?m j] by (simp only:)
      then show ?thesis using spec True j assms(1) by (simp add: flip_funpow)
    next
      case False
      then show ?thesis using spec j assms(1) by auto
    qed
    have len: "length (fst ?out) = length b" using spec assms(1) by simp
    have "snd ?out = (if odd (length b div ?F) then flip_marker m else m)"
      using spec assms(1) by (simp add: flip_funpow)
    then have "finish_transfer b n fmt m = Some (fst ?out, if uf_encoding fmt = ''dop'' \<and> odd (length b div ?F)
        then flip_marker m else m)"
      using f True by (simp add: prod_eq_iff)
    then show ?thesis
      by (intro exI [of _ "fst ?out"] conjI len allI impI)
        (assumption, simp only: Let_def True nth [unfolded True] x [unfolded True] simp_thms)
  qed
qed

theorem finish_transfer_exact_witness:
  "\<exists>out. finish_transfer ''ab_cd_______'' 6 \<lparr>uf_rate = 176400, uf_channels = 2, uf_bits = 24,
     uf_subslot = 3, uf_encoding = ''dop''\<rparr> CHR 0x05 = Some (out, CHR 0x05) \<and> length out = 12"
  using finish_transfer_exact [of 6 "''ab_cd_______''" "\<lparr>uf_rate = 176400, uf_channels = 2,
     uf_bits = 24, uf_subslot = 3, uf_encoding = ''dop''\<rparr>" "CHR 0x05"] by auto

text \<open>
  C18.  DoP framing does not depend on how the stream is cut into transfers: two transfers of whole
  frames in sequence, the first without underrun, put the same bytes on the wire and leave the
  same marker as one transfer of both.
\<close>

theorem dop_is_seamless:
  assumes "uf_encoding fmt = ''dop''" and "0 < uf_subslot fmt * uf_channels fmt"
    and "uf_subslot fmt * uf_channels fmt dvd length b1" and "n \<le> length b2"
    and "finish_transfer b1 (length b1) fmt m = Some (o1, m1)"
    and "finish_transfer b2 n fmt m1 = Some (o2, m2)"
  shows "finish_transfer (b1 @ b2) (length b1 + n) fmt m = Some (o1 @ o2, m2)"
proof -
  let ?F = "uf_subslot fmt * uf_channels fmt"
  have fill: "fill_silence e (length b1 + n) (b1 @ b2) = b1 @ fill_silence e n b2" for e
    by (simp add: fill_silence_def)
  show ?thesis
    using assms on_chunks_append [OF assms(2,3), of "stamp_frame (uf_subslot fmt)" m "fill_silence ''dop'' n b2"]
    by (simp add: finish_transfer_def fill Let_def)
qed

theorem dop_is_seamless_witness:
  "\<exists>o12. finish_transfer ''abcdefghi___'' 9 \<lparr>uf_rate = 176400, uf_channels = 2, uf_bits = 24,
     uf_subslot = 3, uf_encoding = ''dop''\<rparr> CHR 0x05 = Some (o12, CHR 0x05)"
proof -
  let ?f = "\<lparr>uf_rate = 176400, uf_channels = 2, uf_bits = 24, uf_subslot = 3, uf_encoding = ''dop''\<rparr>"
  have flip: "flip_marker CHR 0x05 = CHR 0xfa" by code_simp
  then have flop: "flip_marker CHR 0xfa = CHR 0x05" using flip_flip [of "CHR 0x05"] by simp
  have "finish_transfer ''abcdef'' 6 ?f CHR 0x05 = Some ([CHR ''a'', CHR ''b'', CHR 0x05, CHR ''d'', CHR ''e'', CHR 0x05], CHR 0xfa)"
    by (simp add: finish_transfer_def fill_silence_def on_chunks.simps stamp_frame_def stamp_sample_def
        flip flop Let_def)
  moreover have "finish_transfer ''ghi___'' 3 ?f CHR 0xfa = Some ([CHR ''g'', CHR ''h'', CHR 0xfa, CHR 0x69, CHR 0x69, CHR 0xfa], CHR 0x05)"
    by (simp add: finish_transfer_def fill_silence_def on_chunks.simps stamp_frame_def stamp_sample_def
        flip flop Let_def)
  moreover have L: "length ''abcdef'' = 6" by simp
  ultimately have "finish_transfer (''abcdef'' @ ''ghi___'') (6 + 3) ?f CHR 0x05 =
      Some ([CHR ''a'', CHR ''b'', CHR 0x05, CHR ''d'', CHR ''e'', CHR 0x05] @
        [CHR ''g'', CHR ''h'', CHR 0xfa, CHR 0x69, CHR 0x69, CHR 0xfa], CHR 0x05)"
    by (intro dop_is_seamless [of ?f "''abcdef''" 3 "''ghi___''" "CHR 0x05", unfolded L]) simp_all
  then show ?thesis by simp
qed

end
