(* ===== verification/Text.thy ===== *)
theory Text
  imports Strings
begin

text \<open>
  Text repairs of the Go-compatible JSON layer (rust\_backend/crates/core/src/text.rs): the
  per-byte UTF-8 replacement (defined in \<open>Utf8\<close>) and the replacement of unpaired UTF-16 escapes.
  The latter is proved equal to the token-by-token reference \<open>repair\<close>.
\<close>

section \<open>Unpaired surrogate escapes\<close>

fun hex_number :: "nat \<Rightarrow> bytes \<Rightarrow> nat option" where
  "hex_number acc [] = Some acc"
| "hex_number acc (b # bs) =
     (case hex_value b of None \<Rightarrow> None | Some v \<Rightarrow> hex_number (acc * 16 + v) bs)"

definition unit :: "bytes \<Rightarrow> nat option" where
  "unit b = (if length b < 4 then None else hex_number 0 (take 4 b))"

definition is_high :: "nat \<Rightarrow> bool" where "is_high c \<longleftrightarrow> 0xd800 \<le> c \<and> c \<le> 0xdbff"
definition is_low :: "nat \<Rightarrow> bool" where "is_low c \<longleftrightarrow> 0xdc00 \<le> c \<and> c \<le> 0xdfff"

definition low_follows :: "bytes \<Rightarrow> bool" where
  "low_follows b \<longleftrightarrow> take 2 b = [CHR 0x5C, CHR ''u''] \<and>
     (case unit (drop 2 b) of None \<Rightarrow> False | Some c \<Rightarrow> is_low c)"

definition fffd :: bytes where "fffd = CHR 0x5C # ''ufffd''"

text \<open>The loop: \<^verbatim>\<open>position\<close>, \<^verbatim>\<open>copied\<close>, \<^verbatim>\<open>quoted\<close> and \<^verbatim>\<open>output\<close> are the code's variables.\<close>

function surrogates_loop :: "bytes \<Rightarrow> nat \<Rightarrow> nat \<Rightarrow> bool \<Rightarrow> bytes \<Rightarrow> nat \<times> bytes" where
  "surrogates_loop json pos copied quoted acc =
     (if length json \<le> pos then (copied, acc)
      else if quoted \<and> json ! pos = CHR 0x5C then
        (if pos + 1 < length json \<and> json ! (pos + 1) = CHR ''u''
         then case unit (drop (pos + 2) json) of
             Some code \<Rightarrow>
               if is_high code \<and> low_follows (drop (pos + 6) json)
               then surrogates_loop json (pos + 12) copied quoted acc
               else if is_high code \<or> is_low code
               then surrogates_loop json (pos + 6) (pos + 6) quoted
                      (acc @ slice json copied pos @ fffd)
               else surrogates_loop json (pos + 6) copied quoted acc
           | None \<Rightarrow> surrogates_loop json (pos + 2) copied quoted acc
         else surrogates_loop json (pos + 2) copied quoted acc)
      else surrogates_loop json (pos + 1) copied
             (if json ! pos = CHR 0x22 then \<not> quoted else quoted) acc)"
  by pat_completeness auto
termination by (relation "measure (\<lambda>(json, pos, _). length json - pos)") auto

declare surrogates_loop.simps [simp del]

definition json_surrogates :: "bytes \<Rightarrow> bytes" where
  "json_surrogates json =
     (let (copied, acc) = surrogates_loop json 0 0 False []
      in if copied = 0 then json else acc @ drop copied json)"

section \<open>Reference\<close>

definition esc_unit :: "bytes \<Rightarrow> nat option" where
  "esc_unit s = (if take 1 (tl s) = ''u'' then unit (drop 2 s) else None)"

function repair :: "bool \<Rightarrow> bytes \<Rightarrow> bytes" where
  "repair quoted s =
     (case s of
        [] \<Rightarrow> []
      | c # cs \<Rightarrow>
          if quoted \<and> c = CHR 0x5C then
            (case esc_unit s of
               None \<Rightarrow> take 2 s @ repair quoted (drop 2 s)
             | Some code \<Rightarrow>
                 if is_high code \<and> low_follows (drop 6 s) then take 12 s @ repair quoted (drop 12 s)
                 else (if is_high code \<or> is_low code then fffd else take 6 s) @ repair quoted (drop 6 s))
          else c # repair (if c = CHR 0x22 then \<not> quoted else quoted) cs)"
  by pat_completeness auto
termination by (relation "measure (\<lambda>(_, s). length s)") auto

declare repair.simps [simp del]

lemma repair_Nil [simp]: "repair q [] = []"
  by (subst repair.simps) simp

lemma unit_length: "unit b = Some c \<Longrightarrow> 4 \<le> length b"
  by (simp add: unit_def split: if_splits)

lemma low_length: "low_follows b \<Longrightarrow> 6 \<le> length b"
  by (auto simp: low_follows_def dest!: unit_length split: option.splits)

text \<open>One step of the reference, over what is left at a position.\<close>

lemma repair_plain: "\<not> (q \<and> c = CHR 0x5C) \<Longrightarrow>
  repair q (c # cs) = c # repair (if c = CHR 0x22 then \<not> q else q) cs"
  by (subst repair.simps) auto

lemma repair_short: "esc_unit (CHR 0x5C # cs) = None \<Longrightarrow>
  repair True (CHR 0x5C # cs) = take 2 (CHR 0x5C # cs) @ repair True (drop 2 (CHR 0x5C # cs))"
  by (subst repair.simps) simp

lemma repair_unit: "esc_unit (CHR 0x5C # cs) = Some code \<Longrightarrow> s = CHR 0x5C # cs \<Longrightarrow>
  repair True s =
    (if is_high code \<and> low_follows (drop 6 s) then take 12 s @ repair True (drop 12 s)
     else (if is_high code \<or> is_low code then fffd else take 6 s) @ repair True (drop 6 s))"
  by (subst repair.simps) simp

lemma esc_unit_length: "esc_unit s = Some c \<Longrightarrow> 6 \<le> length s"
  by (auto simp: esc_unit_def dest!: unit_length split: if_splits)

lemma slice_grow: "a \<le> b \<Longrightarrow> slice xs a (b + k) = slice xs a b @ take k (drop b xs)"
proof -
  assume "a \<le> b"
  then have "b + k - a = (b - a) + k" "drop b xs = drop (b - a) (drop a xs)" by simp_all
  then show ?thesis unfolding slice_def by (metis take_add)
qed

lemma take_tl_u: "pos < length json \<Longrightarrow>
  (pos + 1 < length json \<and> json ! (pos + 1) = CHR ''u'') \<longleftrightarrow> take 1 (tl (drop pos json)) = ''u''"
proof -
  assume "pos < length json"
  have "tl (drop pos json) = drop (pos + 1) json" by (simp add: drop_Suc tl_drop)
  then show ?thesis
    by (cases "pos + 1 < length json") (auto simp: Cons_nth_drop_Suc [symmetric])
qed

lemma loop_done: "length json \<le> pos \<Longrightarrow> surrogates_loop json pos copied quoted acc = (copied, acc)"
  by (subst surrogates_loop.simps) simp

lemma loop_plain: "pos < length json \<Longrightarrow> \<not> (quoted \<and> json ! pos = CHR 0x5C) \<Longrightarrow>
  surrogates_loop json pos copied quoted acc =
    surrogates_loop json (pos + 1) copied (if json ! pos = CHR 0x22 then \<not> quoted else quoted) acc"
  by (subst surrogates_loop.simps) auto

lemma loop_escape: "pos < length json \<Longrightarrow> json ! pos = CHR 0x5C \<Longrightarrow>
  surrogates_loop json pos copied True acc =
    (case esc_unit (drop pos json) of
       None \<Rightarrow> surrogates_loop json (pos + 2) copied True acc
     | Some code \<Rightarrow>
         if is_high code \<and> low_follows (drop (pos + 6) json) then surrogates_loop json (pos + 12) copied True acc
         else if is_high code \<or> is_low code
         then surrogates_loop json (pos + 6) (pos + 6) True (acc @ slice json copied pos @ fffd)
         else surrogates_loop json (pos + 6) copied True acc)"
  using take_tl_u [of pos json]
  by (subst surrogates_loop.simps) (auto simp: esc_unit_def add.commute)

lemma surrogates_repair:
  "copied \<le> pos \<Longrightarrow> copied \<le> length json \<Longrightarrow>
   (let (c, out) = surrogates_loop json pos copied quoted acc in out @ drop c json) =
     acc @ slice json copied pos @ repair quoted (drop pos json)"
proof (induction "length json - pos" arbitrary: pos copied quoted acc rule: less_induct)
  case less
  show ?case
  proof (cases "length json \<le> pos")
    case True
    then show ?thesis by (simp add: loop_done slice_def)
  next
    case False
    define s where "s = drop pos json"
    obtain cs where s: "s = (json ! pos) # cs"
      using False by (metis Cons_nth_drop_Suc not_le s_def)
    have drops: "drop (pos + k) json = drop k s" for k by (simp add: s_def add.commute)
    have grow: "slice json copied (pos + k) = slice json copied pos @ take k s" for k
      using less.prems(1) by (simp add: slice_grow s_def)
    have IH: "(let (c, out) = surrogates_loop json (pos + k) d q o' in out @ drop c json) =
        o' @ slice json d (pos + k) @ repair q (drop k s)"
      if "0 < k" "d \<le> pos + k" "d \<le> length json" for k d q o'
      using less.hyps [of "pos + k" d q o'] that False by (simp add: drops)
    show ?thesis
    proof (cases "quoted \<and> json ! pos = CHR 0x5C")
      case False
      have "drop 1 s = cs" using s by simp
      then show ?thesis
        using loop_plain [OF _ False] \<open>\<not> length json \<le> pos\<close> IH [of 1 copied] less.prems
          repair_plain [OF False, of cs] grow [of 1] s
        by (simp add: s_def [symmetric])
    next
      case esc: True
      have sx: "s = CHR 0x5C # cs" using s esc by simp
      note step = loop_escape [of pos json, OF _ conjunct2 [OF esc], folded s_def]
      show ?thesis
      proof (cases "esc_unit s")
        case None
        then show ?thesis
          using step False IH [of 2 copied] less.prems repair_short [of cs] grow [of 2] sx esc
          by (simp add: s_def [symmetric])
      next
        case (Some code)
        have rp: "repair True s =
            (if is_high code \<and> low_follows (drop 6 s) then take 12 s @ repair True (drop 12 s)
             else (if is_high code \<or> is_low code then fffd else take 6 s) @ repair True (drop 6 s))"
          by (rule repair_unit [OF _ sx]) (use Some sx in simp)
        have len: "pos + 6 \<le> length json" using esc_unit_length [OF Some] False by (simp add: s_def)
        have st: "surrogates_loop json pos copied True acc =
            (if is_high code \<and> low_follows (drop 6 s) then surrogates_loop json (pos + 12) copied True acc
             else if is_high code \<or> is_low code
             then surrogates_loop json (pos + 6) (pos + 6) True (acc @ slice json copied pos @ fffd)
             else surrogates_loop json (pos + 6) copied True acc)"
          using step [of copied acc] False Some by (simp add: drops)
        have same: "slice json (pos + 6) (pos + 6) = []" by (simp add: slice_def)
        have q: "quoted" using esc by simp
        show ?thesis
          using IH [of 12 copied True acc] IH [of 6 copied True acc] len less.prems grow [of 12] grow [of 6] same
            IH [of 6 "pos + 6" True "acc @ slice json copied pos @ fffd"]
          by (simp add: q st rp s_def [symmetric])
      qed
    qed
  qed
qed

lemma copied_positive: "0 < c \<Longrightarrow> 0 < fst (surrogates_loop json p c q out)"
  by (induction "length json - p" arbitrary: p c q out rule: less_induct)
    (subst surrogates_loop.simps, auto split: option.splits)

lemma surrogates_first: "0 < fst (surrogates_loop json pos 0 q acc) \<or> surrogates_loop json pos 0 q acc = (0, acc)"
proof (induction "length json - pos" arbitrary: pos q rule: less_induct)
  case less
  have IH: "0 < fst (surrogates_loop json (pos + k) 0 q acc) \<or> surrogates_loop json (pos + k) 0 q acc = (0, acc)"
    if "pos < length json" "0 < k" for k q
    using less that by simp
  note pos = copied_positive [of "pos + 6" json "pos + 6" True "acc @ slice json 0 pos @ fffd"]
  show ?case
  proof (cases "length json \<le> pos")
    case True
    then show ?thesis by (simp add: loop_done)
  next
    case False
    show ?thesis
    proof (cases "q \<and> json ! pos = CHR 0x5C")
      case False
      then show ?thesis using loop_plain [OF _ False, where copied = 0 and acc = acc] IH [of 1] \<open>\<not> length json \<le> pos\<close> by simp
    next
      case True
      then show ?thesis
        using loop_escape [of pos json 0 acc] IH [of 2] IH [of 6] IH [of 12] pos False
        by (cases "esc_unit (drop pos json)") simp_all
    qed
  qed
qed

lemma json_surrogates_repair: "json_surrogates json = repair False json"
proof -
  obtain c out where r: "surrogates_loop json 0 0 False [] = (c, out)" by (cases "surrogates_loop json 0 0 False []")
  have "out @ drop c json = repair False json"
    using surrogates_repair [of 0 0 json False "[]"] r by (simp add: slice_def)
  moreover have "c = 0 \<Longrightarrow> out = []" using surrogates_first [of json 0 False "[]"] r by auto
  ultimately show ?thesis by (auto simp: json_surrogates_def r)
qed

section \<open>The repair is idempotent\<close>

text \<open>Whether the first \<open>k\<close> bytes are hexadecimal digits, and which, survives the repair.\<close>

lemma hex_not_special: "hex_value CHR 0x5C = None" "hex_value CHR 0x22 = None"
  by (simp_all add: hex_value_def)

lemma repair_head: "s \<noteq> [] \<Longrightarrow> repair q s \<noteq> [] \<and> hd (repair q s) = hd s"
proof (cases s)
  case (Cons c cs)
  show ?thesis
  proof (cases "q \<and> c = CHR 0x5C")
    case False
    then show ?thesis by (simp add: Cons repair_plain)
  next
    case True
    then have s: "s = CHR 0x5C # cs" and q: q using Cons by auto
    show ?thesis
    proof (cases "esc_unit s")
      case None
      then show ?thesis using repair_short [of cs] s q by simp
    next
      case (Some code)
      then show ?thesis using repair_unit [OF Some [unfolded s] s] s q by (simp add: fffd_def)
    qed
  qed
qed simp

lemma repair_hex: "hex_number a (take k s) = Some v \<Longrightarrow> k \<le> length s \<Longrightarrow>
  repair q s = take k s @ repair q (drop k s)"
proof (induction k arbitrary: s a)
  case (Suc k)
  then obtain c cs where s: "s = c # cs" by (cases s) auto
  with Suc.prems(1) obtain w where "hex_value c = Some w" "hex_number (a * 16 + w) (take k cs) = Some v"
    by (auto split: option.splits)
  moreover from this have "c \<noteq> CHR 0x5C" "c \<noteq> CHR 0x22" using hex_not_special by auto
  ultimately show ?case using Suc.IH [of "a * 16 + w" cs] Suc.prems(2) by (simp add: s repair_plain)
qed simp

lemma repair_unit_hex: "unit s = Some c \<Longrightarrow> repair q s = take 4 s @ repair q (drop 4 s)"
  by (rule repair_hex [of 0 4 s c]) (auto simp: unit_def split: if_splits)

lemma unit_prefix: "length x = 4 \<Longrightarrow> unit (x @ r) = unit x"
  by (simp add: unit_def)

lemma hex_prefix_back:
  "hex_number a (take k (repair q s)) = Some v \<Longrightarrow> k \<le> length (repair q s) \<Longrightarrow>
   k \<le> length s \<and> take k (repair q s) = take k s"
proof (induction k arbitrary: s a)
  case (Suc k)
  then obtain c cs where s: "s = c # cs" by (cases s) auto
  have "hd (repair q s) = c" "repair q s \<noteq> []" using repair_head [of s q] s by auto
  then obtain t where t: "repair q s = c # t" by (cases "repair q s") auto
  with Suc.prems(1) obtain w where w: "hex_value c = Some w" "hex_number (a * 16 + w) (take k t) = Some v"
    by (auto split: option.splits)
  then have "c \<noteq> CHR 0x5C" "c \<noteq> CHR 0x22" using hex_not_special by auto
  then have "t = repair q cs" using t by (simp add: s repair_plain)
  then show ?case using Suc.IH [of "a * 16 + w" cs] Suc.prems(2) w(2) t by (simp add: s)
qed simp

lemma unit_repair: "unit (repair q s) = unit s"
proof (cases "unit s")
  case (Some c)
  then have "repair q s = take 4 s @ repair q (drop 4 s)" by (rule repair_unit_hex)
  moreover have "length (take 4 s) = 4" "unit (take 4 s) = unit s"
    using unit_length [OF Some] by (auto simp: unit_def)
  ultimately show ?thesis by (metis unit_prefix)
next
  case None
  show ?thesis
  proof (cases "unit (repair q s)")
    case (Some v)
    then have "hex_number 0 (take 4 (repair q s)) = Some v" "4 \<le> length (repair q s)"
      by (auto simp: unit_def split: if_splits)
    from hex_prefix_back [OF this] Some None show ?thesis by (simp add: unit_def split: if_splits)
  qed (simp add: None)
qed

lemma esc_unit_take: "6 \<le> n \<Longrightarrow> esc_unit s = Some c \<Longrightarrow> esc_unit (take n s @ r) = Some c"
proof -
  assume n: "6 \<le> n" and c: "esc_unit s = Some c"
  obtain a b x where s: "s = a # b # x" and x: "4 \<le> length x"
    using esc_unit_length [OF c] by (cases s; cases "tl s") auto
  have "take n s = a # b # take (n - 2) x" using n by (simp add: s take_Cons' numeral_eq_Suc)
  moreover have "take 4 (take (n - 2) x @ r) = take 4 x" using n x by simp
  ultimately show ?thesis using c n x by (simp add: s esc_unit_def unit_def split: if_splits)
qed

lemma unit_cong: "take 4 x = take 4 y \<Longrightarrow> 4 \<le> length x \<Longrightarrow> 4 \<le> length y \<Longrightarrow> unit x = unit y"
  by (simp add: unit_def)

lemma low_follows_take: "6 \<le> n \<Longrightarrow> low_follows s \<Longrightarrow> low_follows (take n s @ r)"
proof -
  assume n: "6 \<le> n" and l: "low_follows s"
  have len: "6 \<le> length s" by (rule low_length [OF l])
  have "take 2 (take n s @ r) = take 2 s" using n len by simp
  moreover have "take 4 (drop 2 (take n s @ r)) = take 4 (drop 2 s)"
    using n len by (simp add: take_drop)
  then have "unit (drop 2 (take n s @ r)) = unit (drop 2 s)" by (rule unit_cong) (use n len in auto)
  ultimately show ?thesis using l unfolding low_follows_def by metis
qed

lemma esc_unit_fffd: "esc_unit (fffd @ r) = Some 0xfffd"
  by (simp add: esc_unit_def fffd_def unit_def hex_value_def)

lemma repair_idem: "repair q (repair q s) = repair q s"
proof (induction s arbitrary: q rule: length_induct)
  case (1 s)
  have IH: "length t < length s \<Longrightarrow> repair q (repair q t) = repair q t" for t q
    using 1 by blast
  show ?case
  proof (cases s)
    case Nil
    then show ?thesis by simp
  next
    case (Cons c cs)
    show ?thesis
    proof (cases "q \<and> c = CHR 0x5C")
      case False
      then show ?thesis using IH [of cs] by (simp add: Cons repair_plain)
    next
      case esc: True
      then have s: "s = CHR 0x5C # cs" and q: "q" using Cons by auto
      show ?thesis
      proof (cases "esc_unit s")
        case None
        have r: "repair True s = take 2 s @ repair True (drop 2 s)"
          using repair_short None s by simp
        show ?thesis
        proof (cases cs)
          case Nil
          then show ?thesis using r q s by simp
        next
          case (Cons d ds)
          have r': "repair True s = CHR 0x5C # d # repair True ds" using r s Cons by simp
          have "esc_unit (CHR 0x5C # d # repair True ds) = None"
            using None by (simp add: s Cons esc_unit_def unit_repair split: if_splits)
          then have "repair True (CHR 0x5C # d # repair True ds) = CHR 0x5C # d # repair True (repair True ds)"
            using repair_short [of "d # repair True ds"] by simp
          then show ?thesis using IH [of ds True] r' q s Cons by simp
        qed
      next
        case (Some code)
        note r = repair_unit [OF Some [unfolded s] s]
        have len: "6 \<le> length s" by (rule esc_unit_length [OF Some])
        have IHd: "0 < n \<Longrightarrow> repair True (repair True (drop n s)) = repair True (drop n s)" for n
          using IH [of "drop n s" True] len by simp
        have one: "repair True (t @ x) = t @ repair True x"
          if "t = CHR 0x5C # t'" "length t = 6" "esc_unit (t @ x) = Some u" "\<not> is_high u" "\<not> is_low u" for t t' x u
          using repair_unit [of "t' @ x" u "t @ x"] that by simp
        show ?thesis
        proof (cases "is_high code \<and> low_follows (drop 6 s)")
          case True
          have len12: "12 \<le> length s" using low_length [of "drop 6 s"] True len by simp
          let ?x = "take 12 s @ repair True (drop 12 s)"
          have x: "?x = CHR 0x5C # tl ?x" using s by simp
          have "esc_unit ?x = Some code" by (rule esc_unit_take [OF _ Some]) simp
          moreover have "low_follows (drop 6 ?x)"
            using low_follows_take [of 6 "drop 6 s" "repair True (drop 12 s)"] True len12
            by (simp add: take_drop)
          moreover have "take 12 ?x = take 12 s" "drop 12 ?x = repair True (drop 12 s)"
            using len12 by simp_all
          ultimately have "repair True ?x = take 12 s @ repair True (repair True (drop 12 s))"
            using repair_unit [of "tl ?x" code ?x] x True by metis
          then show ?thesis using r True q IHd [of 12] by simp
        next
          case pair: False
          show ?thesis
          proof (cases "is_high code \<or> is_low code")
            case True
            have "repair True (fffd @ repair True (drop 6 s)) = fffd @ repair True (repair True (drop 6 s))"
              by (rule one [OF _ _ esc_unit_fffd]) (simp_all add: fffd_def is_high_def is_low_def)
            then show ?thesis using r pair True q IHd [of 6] by simp
          next
            case False
            have "repair True (take 6 s @ repair True (drop 6 s)) = take 6 s @ repair True (repair True (drop 6 s))"
              by (rule one [OF _ _ esc_unit_take [OF _ Some]]) (use False len s in auto)
            then show ?thesis using r pair False q IHd [of 6] by simp
          qed
        qed
      qed
    qed
  qed
qed

lemma length_repair: "length (repair q s) = length s"
proof (induction s arbitrary: q rule: length_induct)
  case (1 s)
  have IH: "length t < length s \<Longrightarrow> length (repair q t) = length t" for t q using 1 by blast
  show ?case
  proof (cases s)
    case (Cons c cs)
    show ?thesis
    proof (cases "q \<and> c = CHR 0x5C")
      case False
      then show ?thesis using IH [of cs] by (simp add: Cons repair_plain)
    next
      case True
      then have s: "s = CHR 0x5C # cs" and q: q using Cons by auto
      show ?thesis
      proof (cases "esc_unit s")
        case None
        then show ?thesis using repair_short [of cs] s q IH [of "drop 2 s" True] by (cases cs) simp_all
      next
        case (Some code)
        note r = repair_unit [OF Some [unfolded s] s]
        have "6 \<le> length s" by (rule esc_unit_length [OF Some])
        moreover have "low_follows (drop 6 s) \<Longrightarrow> 12 \<le> length s"
          using low_length [of "drop 6 s"] calculation by simp
        ultimately show ?thesis
          using r q IH [of "drop 6 s" True] IH [of "drop 12 s" True] by (auto simp: fffd_def)
      qed
    qed
  qed simp
qed

section \<open>Properties\<close>

text \<open>
   The lossy decoder always yields valid UTF-8, returns valid text unchanged and replaces
  byte by byte: it agrees with the reference that copies every character and turns every byte that
  starts none into U+FFFD.
\<close>

theorem utf8_repairs_exactly:
  "is_utf8 (utf8 b) \<and> (utf8 b = b \<longleftrightarrow> is_utf8 b) \<and> utf8 b = utf8_ref b"
proof -
  have "utf8 b = b \<Longrightarrow> is_utf8 b" using utf8_is_utf8 [of b] by simp
  then show ?thesis using utf8_eq_ref [of b] utf8_valid [of b] utf8_is_utf8 [of b] by blast
qed

text \<open>
  C19.  The escape repair, which copies slices around what it replaces, equals the token-by-token
  reference, keeps the length of the document and is idempotent: a second pass finds no unpaired
  surrogate escape left.
\<close>

theorem json_surrogates_exact:
  "json_surrogates json = repair False json \<and> length (json_surrogates json) = length json \<and>
   json_surrogates (json_surrogates json) = json_surrogates json"
  by (simp add: json_surrogates_repair length_repair repair_idem)

end
