(* ===== verification/Matching.thy ===== *)
theory Matching
  imports Strings F64
begin

text \<open>
  Title and duration matching (rust\_backend/crates/core/src/matching.rs): the normal form of
  titles, the similarity score and the duration test.  The score's optimised edit distance (common
  prefix and suffix cut off, one row updated in place) is proved equal to the reference \<open>lev\<close>.
\<close>

section \<open>Normal form\<close>

text \<open>\<^verbatim>\<open>str::find\<close> for an ASCII pattern.\<close>

fun find_sub :: "bytes \<Rightarrow> bytes \<Rightarrow> nat option" where
  "find_sub p [] = (if p = [] then Some 0 else None)"
| "find_sub p (c # cs) = (if starts_with (c # cs) p then Some 0 else map_option Suc (find_sub p cs))"

definition normalize_suffixes :: "bytes list" where
  "normalize_suffixes = ['' (remastered)'', '' (remaster)'', '' - remastered'', '' - remaster'',
     '' (deluxe)'', '' (deluxe edition)'', '' - deluxe'', '' - deluxe edition'', '' (explicit)'',
     '' (clean)'', '' [explicit]'', '' [clean]'', '' (album version)'', '' (single version)'',
     '' (radio edit)'', '' (feat.'', '' (ft.'', '' feat.'', '' ft.'']"

definition cut_suffix :: "bytes \<Rightarrow> bytes \<Rightarrow> bytes" where
  "cut_suffix v suffix = (case find_sub suffix v of None \<Rightarrow> v | Some i \<Rightarrow> take i v)"

text \<open>\<^verbatim>\<open>split_whitespace\<close> of a string whose only white space is the space.\<close>

fun split_spaces :: "bytes \<Rightarrow> bytes \<Rightarrow> bytes list" where
  "split_spaces w [] = (if w = [] then [] else [w])"
| "split_spaces w (c # cs) =
     (if c = CHR '' '' then (if w = [] then split_spaces [] cs else w # split_spaces [] cs)
      else split_spaces (w @ [c]) cs)"

fun join_spaces :: "bytes list \<Rightarrow> bytes" where
  "join_spaces [] = []"
| "join_spaces [w] = w"
| "join_spaces (w # ws) = w @ CHR '' '' # join_spaces ws"

definition kept :: "byte \<Rightarrow> bool" where
  "kept b \<longleftrightarrow> 97 \<le> u8 b \<and> u8 b \<le> 122 \<or> 48 \<le> u8 b \<and> u8 b \<le> 57 \<or> b = CHR '' ''"

definition normalize_title :: "case_tables \<Rightarrow> bytes \<Rightarrow> bytes" where
  "normalize_title T value =
     (let v = foldl cut_suffix (lowercase T value) normalize_suffixes
      in join_spaces (split_spaces [] (filter kept v)))"

section \<open>Similarity\<close>

fun common_prefix :: "'a list \<Rightarrow> 'a list \<Rightarrow> nat" where
  "common_prefix (x # xs) (y # ys) = (if x = y then Suc (common_prefix xs ys) else 0)"
| "common_prefix _ _ = 0"

text \<open>
  The cancellation check is called with the number of calls made so far; the loops carry it.
\<close>

fun columns :: "check \<Rightarrow> 'a \<Rightarrow> 'a list \<Rightarrow> nat \<Rightarrow> nat \<Rightarrow> nat list \<Rightarrow> nat \<Rightarrow> string + (nat \<times> nat list)" where
  "columns chk a [] j diagonal row k = Inr (k, row)"
| "columns chk a (b # bs) j diagonal row k =
     (case (if j mod 4096 = 0 then map_sum id (\<lambda>_. Suc k) (chk k) else Inr k) of
        Inl e \<Rightarrow> Inl e
      | Inr k' \<Rightarrow>
          let old = row ! (j + 1);
              row' = row[j + 1 := min (min (old + 1) (row ! j + 1)) (diagonal + (if a \<noteq> b then 1 else 0))]
          in columns chk a bs (j + 1) old row' k')"

fun rows :: "check \<Rightarrow> 'a list \<Rightarrow> 'a list \<Rightarrow> nat \<Rightarrow> nat list \<Rightarrow> nat \<Rightarrow> string + nat list" where
  "rows chk [] second i row k = Inr row"
| "rows chk (a # as) second i row k =
     (case chk k of
        Inl e \<Rightarrow> Inl e
      | Inr _ \<Rightarrow>
          (case columns chk a second 0 (row ! 0) (row[0 := i + 1]) (Suc k) of
             Inl e \<Rightarrow> Inl e
           | Inr (k', row') \<Rightarrow> rows chk as second (i + 1) row' k'))"

definition edit_rows :: "check \<Rightarrow> 'a list \<Rightarrow> 'a list \<Rightarrow> nat \<Rightarrow> string + nat" where
  "edit_rows chk first second k =
     (let prefix = common_prefix first second;
          f1 = drop prefix first; s1 = drop prefix second;
          suffix = common_prefix (rev f1) (rev s1);
          f2 = take (length f1 - suffix) f1; s2 = take (length s1 - suffix) s1;
          (f3, s3) = (if length f2 < length s2 then (s2, f2) else (f2, s2))
      in map_sum id (\<lambda>row. row ! length s3) (rows chk f3 s3 0 [0..<length s3 + 1] k))"

definition compare_strings :: "case_tables \<Rightarrow> check \<Rightarrow> bytes \<Rightarrow> bytes \<Rightarrow> string + f64" where
  "compare_strings T chk a b =
     (case chk 0 of
        Inl e \<Rightarrow> Inl e
      | Inr _ \<Rightarrow>
          let first = lowercase T (trim a); second = lowercase T (trim b) in
          if first = second then Inr (Fin 1)
          else let maximum = max (length first) (length second) in
            if first = [] \<or> second = [] then Inr (Fin 0)
            else map_sum id (\<lambda>d. f_one_minus (f_div_int (int d) (int maximum))) (edit_rows chk first second 1))"

definition compare_duration :: "int \<Rightarrow> int \<Rightarrow> int \<Rightarrow> bool" where
  "compare_duration first second tolerance =
     (let d = wrap_i64 (first - second) in wrap_i64 \<bar>d\<bar> \<le> tolerance)"

section \<open>Edit distance\<close>

fun lev :: "'a list \<Rightarrow> 'a list \<Rightarrow> nat" where
  "lev [] ys = length ys"
| "lev xs [] = length xs"
| "lev (x # xs) (y # ys) =
     min (min (lev xs (y # ys) + 1) (lev (x # xs) ys + 1)) (lev xs ys + (if x \<noteq> y then 1 else 0))"

text \<open>The distance is the least cost of an alignment: symmetry and reversal follow from that.\<close>

inductive align :: "nat \<Rightarrow> 'a list \<Rightarrow> 'a list \<Rightarrow> bool" where
  nil: "align 0 [] []"
| del: "align n xs ys \<Longrightarrow> align (Suc n) (x # xs) ys"
| ins: "align n xs ys \<Longrightarrow> align (Suc n) xs (y # ys)"
| sub: "align n xs ys \<Longrightarrow> align (n + (if x \<noteq> y then 1 else 0)) (x # xs) (y # ys)"

lemma align_ins_all: "align (length ys) [] ys"
  by (induction ys) (auto intro: align.intros)

lemma align_del_all: "align (length xs) xs []"
  by (induction xs) (auto intro: align.intros)

lemma align_lev: "align (lev xs ys) xs ys"
proof (induction xs ys rule: lev.induct)
  case (3 x xs y ys)
  let ?a = "lev xs (y # ys) + 1" and ?b = "lev (x # xs) ys + 1" and ?c = "lev xs ys + (if x \<noteq> y then 1 else 0)"
  have "align ?a (x # xs) (y # ys)" using align.del [OF 3(1), of x] by simp
  moreover have "align ?b (x # xs) (y # ys)" using align.ins [OF 3(2), of y] by (simp only: Suc_eq_plus1)
  moreover have "align ?c (x # xs) (y # ys)" by (rule align.sub [OF 3(3)])
  moreover have "lev (x # xs) (y # ys) \<in> {?a, ?b, ?c}" by (simp add: min_def)
  ultimately show ?case by (metis insertE singletonD)
next
  case (1 ys)
  show ?case using align_ins_all by simp
next
  case (2 v va)
  show ?case using align_del_all [of "v # va"] by simp
qed

lemma lev_Nil2 [simp]: "lev xs [] = length xs"
  by (cases xs) auto

lemma lev_le_align: "align n xs ys \<Longrightarrow> lev xs ys \<le> n"
proof (induction rule: align.induct)
  case (del n xs ys x)
  then show ?case by (cases ys) auto
next
  case (ins n xs ys y)
  then show ?case by (cases xs) auto
next
  case (sub n xs ys x y)
  then show ?case by auto
qed simp

lemma align_append: "align n xs ys \<Longrightarrow> align m us vs \<Longrightarrow> align (n + m) (xs @ us) (ys @ vs)"
proof (induction rule: align.induct)
  case (sub n xs ys x y)
  from align.sub [OF sub.IH [OF sub.prems], of x y]
  have "align (n + m + (if x \<noteq> y then 1 else 0)) (x # xs @ us) (y # ys @ vs)" .
  then show ?case by (simp add: ac_simps)
qed (auto intro: align.intros)

lemma align_rev: "align n xs ys \<Longrightarrow> align n (rev xs) (rev ys)"
proof (induction rule: align.induct)
  case (del n xs ys x)
  then show ?case using align_append [OF del.IH align.del [OF align.nil, of x]] by simp
next
  case (ins n xs ys y)
  then show ?case using align_append [OF ins.IH align.ins [OF align.nil, of y]] by simp
next
  case (sub n xs ys x y)
  then show ?case using align_append [OF sub.IH align.sub [OF align.nil, of x y]] by simp
qed (auto intro: align.intros)

lemma align_sym: "align n xs ys \<Longrightarrow> align n ys xs"
proof (induction rule: align.induct)
  case (sub n xs ys x y)
  then show ?case using align.sub [of n ys xs y x] by (auto split: if_splits)
qed (auto intro: align.intros)

lemma lev_rev [simp]: "lev (rev xs) (rev ys) = lev xs ys"
  using lev_le_align [OF align_rev [OF align_lev [of xs ys]]]
    lev_le_align [OF align_rev [OF align_lev [of "rev xs" "rev ys"]]] by simp

lemma lev_sym: "lev xs ys = lev ys xs"
  using lev_le_align [OF align_sym [OF align_lev [of xs ys]]]
    lev_le_align [OF align_sym [OF align_lev [of ys xs]]] by simp

lemma align_drop_left: "align n xs zs \<Longrightarrow> zs = y # ys \<Longrightarrow> \<exists>m \<le> Suc n. align m xs ys"
proof (induction arbitrary: ys rule: align.induct)
  case (del n xs zs x)
  then obtain m where "m \<le> Suc n" "align m xs ys" by blast
  then show ?case by (intro exI [of _ "Suc m"]) (auto intro: align.del)
next
  case (ins n xs zs y)
  then show ?case by (intro exI [of _ n]) auto
next
  case (sub n xs zs x y)
  then show ?case by (intro exI [of _ "Suc n"]) (auto intro: align.del)
qed simp

lemma lev_drop: "lev xs ys \<le> Suc (lev xs (y # ys))" "lev xs ys \<le> Suc (lev (x # xs) ys)"
proof -
  show "lev xs ys \<le> Suc (lev xs (y # ys))"
    using align_drop_left [OF align_lev [of xs "y # ys"] refl] lev_le_align by (meson order_trans)
  show "lev xs ys \<le> Suc (lev (x # xs) ys)"
    using align_drop_left [OF align_lev [of ys "x # xs"] refl] lev_le_align lev_sym by (metis order_trans)
qed

lemma lev_same_head [simp]: "lev (x # xs) (x # ys) = lev xs ys"
  using lev_drop(1) [of xs ys x] lev_drop(2) [of xs ys x] by simp

lemma lev_prefix [simp]: "lev (ps @ xs) (ps @ ys) = lev xs ys"
  by (induction ps) (simp_all del: lev.simps)

lemma lev_suffix [simp]: "lev (xs @ ss) (ys @ ss) = lev xs ys"
  using lev_prefix [of "rev ss" "rev xs" "rev ys"] by (simp add: rev_append [symmetric] del: rev_append lev_prefix)

lemma lev_same [simp]: "lev xs xs = 0"
  using lev_prefix [of xs "[]" "[]"] by (simp del: lev_prefix)

lemma lev_le_max: "lev xs ys \<le> max (length xs) (length ys)"
  by (induction xs ys rule: lev.induct) auto

lemma take_common_prefix: "take (common_prefix xs ys) xs = take (common_prefix xs ys) ys"
  by (induction xs ys rule: common_prefix.induct) auto

lemma common_prefix_le: "common_prefix xs ys \<le> length xs \<and> common_prefix xs ys \<le> length ys"
  by (induction xs ys rule: common_prefix.induct) auto

lemma lev_cut_prefix: "lev (drop (common_prefix xs ys) xs) (drop (common_prefix xs ys) ys) = lev xs ys"
  using lev_prefix [of "take (common_prefix xs ys) xs"] take_common_prefix [of xs ys]
  by (metis append_take_drop_id)

lemma lev_cut_suffix:
  "lev (take (length xs - common_prefix (rev xs) (rev ys)) xs)
       (take (length ys - common_prefix (rev xs) (rev ys)) ys) = lev xs ys"
proof -
  let ?n = "common_prefix (rev xs) (rev ys)"
  have "lev (drop ?n (rev xs)) (drop ?n (rev ys)) = lev (rev xs) (rev ys)"
    by (rule lev_cut_prefix)
  also have "\<dots> = lev xs ys" by (rule lev_rev)
  finally have "lev (rev (take (length xs - ?n) xs)) (rev (take (length ys - ?n) ys)) = lev xs ys"
    by (simp only: drop_rev)
  then show ?thesis by (simp only: lev_rev)
qed

section \<open>The row computation\<close>

text \<open>The distance of the first \<open>i\<close> elements of one list and the first \<open>j\<close> of the other.\<close>

definition cell :: "'a list \<Rightarrow> 'a list \<Rightarrow> nat \<Rightarrow> nat \<Rightarrow> nat" where
  "cell xs ys i j = lev (rev (take i xs)) (rev (take j ys))"

lemma cell_0 [simp]: "j \<le> length ys \<Longrightarrow> cell xs ys 0 j = j" "i \<le> length xs \<Longrightarrow> cell xs ys i 0 = i"
  by (simp_all add: cell_def)

lemma cell_Suc: "i < length xs \<Longrightarrow> j < length ys \<Longrightarrow>
  cell xs ys (Suc i) (Suc j) = min (min (cell xs ys i (Suc j) + 1) (cell xs ys (Suc i) j + 1))
    (cell xs ys i j + (if xs ! i \<noteq> ys ! j then 1 else 0))"
  by (simp add: cell_def take_Suc_conv_app_nth)

lemma cell_all: "cell xs ys (length xs) (length ys) = lev xs ys"
  by (simp add: cell_def)

lemma columns_cells:
  assumes ok: "\<forall>k. chk k = Inr ()" and i: "i < length xs"
  shows "j \<le> length ys \<Longrightarrow> length row = length ys + 1 \<Longrightarrow>
    (\<And>c. c \<le> j \<Longrightarrow> row ! c = cell xs ys (Suc i) c) \<Longrightarrow>
    (\<And>c. j < c \<Longrightarrow> c \<le> length ys \<Longrightarrow> row ! c = cell xs ys i c) \<Longrightarrow> diag = cell xs ys i j \<Longrightarrow>
    \<exists>k' row'. columns chk (xs ! i) (drop j ys) j diag row k = Inr (k', row') \<and>
      length row' = length ys + 1 \<and> (\<forall>c \<le> length ys. row' ! c = cell xs ys (Suc i) c)"
proof (induction "length ys - j" arbitrary: j row diag k)
  case 0
  then show ?case by auto
next
  case (Suc n)
  then have j: "j < length ys" by simp
  let ?v = "min (min (row ! (j + 1) + 1) (row ! j + 1)) (diag + (if xs ! i \<noteq> ys ! j then 1 else 0))"
  let ?row = "row[j + 1 := ?v]"
  have v: "?v = cell xs ys (Suc i) (Suc j)"
    using Suc.prems j i by (simp add: cell_Suc)
  let ?k = "if j mod 4096 = 0 then Suc k else k"
  have step: "columns chk (xs ! i) (drop j ys) j diag row k =
      columns chk (xs ! i) (drop (Suc j) ys) (Suc j) (row ! (j + 1)) ?row ?k"
    using j ok by (simp add: Cons_nth_drop_Suc [symmetric] Let_def)
  have "\<exists>k' row'. columns chk (xs ! i) (drop (Suc j) ys) (Suc j) (row ! (j + 1)) ?row ?k = Inr (k', row') \<and>
      length row' = length ys + 1 \<and> (\<forall>c \<le> length ys. row' ! c = cell xs ys (Suc i) c)"
  proof (rule Suc.hyps(1))
    show "n = length ys - Suc j" using Suc.hyps(2) by simp
    show "?row ! c = cell xs ys (Suc i) c" if "c \<le> Suc j" for c
    proof (cases "c = Suc j")
      case True
      then show ?thesis using v Suc.prems(2) j by simp
    next
      case False
      then show ?thesis using that Suc.prems(3) by simp
    qed
    show "?row ! c = cell xs ys i c" if "Suc j < c" "c \<le> length ys" for c
      using that Suc.prems(4) by simp
    show "row ! (j + 1) = cell xs ys i (Suc j)" using Suc.prems(4) j by simp
  qed (use j Suc.prems(2) in simp_all)
  then show ?case unfolding step .
qed

lemma rows_cells:
  assumes ok: "\<forall>k. chk k = Inr ()"
  shows "i \<le> length xs \<Longrightarrow> length row = length ys + 1 \<Longrightarrow>
    (\<And>c. c \<le> length ys \<Longrightarrow> row ! c = cell xs ys i c) \<Longrightarrow>
    \<exists>row'. rows chk (drop i xs) ys i row k = Inr row' \<and> row' ! length ys = lev xs ys"
proof (induction "length xs - i" arbitrary: i row k)
  case 0
  then show ?case by (auto simp: cell_all)
next
  case (Suc n)
  then have i: "i < length xs" by simp
  have "row[0 := i + 1] ! c = (if c = 0 then Suc i else row ! c)" for c
    using Suc.prems(2) by (cases row) (auto simp: nth_Cons split: nat.splits)
  then obtain k' row' where c: "columns chk (xs ! i) (drop 0 ys) 0 (row ! 0) (row[0 := i + 1]) (Suc k) = Inr (k', row')"
    "length row' = length ys + 1" "\<forall>c \<le> length ys. row' ! c = cell xs ys (Suc i) c"
    using columns_cells [OF ok i, where j = 0 and ys = ys and row = "row[0 := i + 1]" and diag = "row ! 0" and k = "Suc k"]
      Suc.prems i by auto
  have "\<exists>row''. rows chk (drop (Suc i) xs) ys (Suc i) row' k' = Inr row'' \<and> row'' ! length ys = lev xs ys"
    by (rule Suc.hyps(1)) (use Suc.hyps(2) c i in auto)
  moreover have "rows chk (drop i xs) ys i row k = rows chk (drop (Suc i) xs) ys (Suc i) row' k'"
    using c(1) i ok by (simp add: Cons_nth_drop_Suc [symmetric])
  ultimately show ?case by simp
qed

lemma edit_rows_lev: "\<forall>k. chk k = Inr () \<Longrightarrow> edit_rows chk xs ys k = Inr (lev xs ys)"
proof -
  assume ok: "\<forall>k. chk k = Inr ()"
  have r: "map_sum id (\<lambda>row. row ! length bs) (rows chk as bs 0 [0..<length bs + 1] k) = Inr (lev as bs)" for as bs :: "'a list"
  proof -
    have "[0..<length bs + 1] ! c = cell as bs 0 c" if "c \<le> length bs" for c
      using that nth_upt [of 0 c "length bs + 1"] by (simp del: upt_Suc)
    then obtain row' where "rows chk (drop 0 as) bs 0 [0..<length bs + 1] k = Inr row'" "row' ! length bs = lev as bs"
      using rows_cells [OF ok, where i = 0 and xs = as and ys = bs and row = "[0..<length bs + 1]" and k = k] by auto
    then show ?thesis by simp
  qed
  define f1 s1 where "f1 = drop (common_prefix xs ys) xs" and "s1 = drop (common_prefix xs ys) ys"
  define f2 s2 where "f2 = take (length f1 - common_prefix (rev f1) (rev s1)) f1"
    and "s2 = take (length s1 - common_prefix (rev f1) (rev s1)) s1"
  have "lev f2 s2 = lev f1 s1" unfolding f2_def s2_def by (rule lev_cut_suffix)
  also have "\<dots> = lev xs ys" unfolding f1_def s1_def by (rule lev_cut_prefix)
  finally have "lev f2 s2 = lev xs ys" .
  then show ?thesis
    unfolding edit_rows_def Let_def f1_def [symmetric] s1_def [symmetric] f2_def [symmetric] s2_def [symmetric]
    using r lev_sym [of f2 s2] by simp
qed

section \<open>The normal form is canonical\<close>

lemma split_spaces_words: "CHR '' '' \<notin> set w \<Longrightarrow>
  w' \<in> set (split_spaces w s) \<Longrightarrow> w' \<noteq> [] \<and> CHR '' '' \<notin> set w' \<and> set w' \<subseteq> set w \<union> set s"
proof (induction w s rule: split_spaces.induct)
  case (2 w c cs)
  show ?case
  proof (cases "c = CHR '' ''")
    case True
    with 2 show ?thesis by (auto split: if_splits)
  next
    case False
    with 2(3)[OF False] 2(4,5) show ?thesis by auto
  qed
qed (auto split: if_splits)

lemma split_word: "CHR '' '' \<notin> set u \<Longrightarrow> split_spaces w (u @ r) = split_spaces (w @ u) r"
  by (induction u arbitrary: w) auto

lemma split_join: "\<forall>w \<in> set ws. w \<noteq> [] \<and> CHR '' '' \<notin> set w \<Longrightarrow> split_spaces [] (join_spaces ws) = ws"
proof (induction ws rule: join_spaces.induct)
  case (2 w)
  then show ?case using split_word [of w "[]" "[]"] by simp
next
  case (3 w v vs)
  then show ?case using split_word [of w "[]" "CHR '' '' # join_spaces (v # vs)"] by simp
qed simp

lemma set_join: "set (join_spaces ws) \<subseteq> {CHR '' ''} \<union> \<Union> (set ` set ws)"
  by (induction ws rule: join_spaces.induct) auto

lemma starts_with_subset: "starts_with s p \<Longrightarrow> set p \<subseteq> set s"
  by (auto simp: starts_with_split)

lemma find_sub_None: "c \<in> set p \<Longrightarrow> c \<notin> set s \<Longrightarrow> find_sub p s = None"
  by (induction s) (use starts_with_subset in fastforce)+

lemma cut_kept: "\<forall>p \<in> set ps. \<exists>c \<in> set p. \<not> kept c \<Longrightarrow> \<forall>c \<in> set s. kept c \<Longrightarrow> foldl cut_suffix s ps = s"
proof (induction ps)
  case (Cons p ps)
  then obtain c where "c \<in> set p" "c \<notin> set s" by auto
  with Cons show ?case by (simp add: cut_suffix_def find_sub_None)
qed simp

lemma suffixes_not_kept: "\<forall>p \<in> set normalize_suffixes. \<exists>c \<in> set p. \<not> kept c"
  by (simp add: normalize_suffixes_def kept_def)

lemma lowercase_kept: "\<forall>c \<in> set s. kept c \<Longrightarrow> lowercase T s = s"
proof -
  assume k: "\<forall>c \<in> set s. kept c"
  have "u8 c < 128 \<and> ascii_lower c = c" if "c \<in> set s" for c
    using k that by (auto simp: kept_def ascii_lower_def)
  then have "ascii_str s" "map ascii_lower s = s"
    by (auto simp: ascii_str_def list_all_iff intro: map_idI)
  then show ?thesis by (simp add: lowercase_ascii)
qed

lemma normalize_kept:
  assumes "\<forall>c \<in> set s. kept c"
  shows "normalize_title T s = join_spaces (split_spaces [] s)"
proof -
  have "filter kept s = s" using assms by (simp add: filter_id_conv)
  then show ?thesis
    by (simp add: normalize_title_def lowercase_kept [OF assms] cut_kept [OF suffixes_not_kept assms])
qed

section \<open>Properties\<close>

text \<open>
  C20.  The optimised similarity is the reference one: unless a cancellation check fails, the score
  is one for equal folded titles, zero if just one is empty, and otherwise one minus the
  Levenshtein distance of the folded titles over the longer length, in the code's floating point;
  the distance never exceeds that length, and the score is symmetric.
\<close>

theorem compare_strings_exact:
  assumes "\<forall>k. chk k = Inr ()"
  shows "compare_strings T chk a b =
      (let a' = lowercase T (trim a); b' = lowercase T (trim b) in
       Inr (if a' = b' then Fin 1
            else if a' = [] \<or> b' = [] then Fin 0
            else f_one_minus (f_div_int (int (lev a' b')) (int (max (length a') (length b')))))) \<and>
    lev (lowercase T (trim a)) (lowercase T (trim b)) \<le>
      max (length (lowercase T (trim a))) (length (lowercase T (trim b))) \<and>
    compare_strings T chk a b = compare_strings T chk b a"
  using assms lev_le_max [of "lowercase T (trim a)" "lowercase T (trim b)"]
  by (auto simp: compare_strings_def edit_rows_lev Let_def lev_sym [of "lowercase T (trim b)"] max.commute)

definition no_tables :: case_tables where
  "no_tables = \<lparr>to_lower = (\<lambda>c. [c]), to_upper = (\<lambda>c. [c])\<rparr>"

theorem compare_strings_exact_witness:
  "compare_strings no_tables (\<lambda>_. Inr ()) ''kitten'' ''sitting'' = Inr (f_one_minus (f_div_int 3 7))"
proof -
  have "lowercase no_tables (trim ''kitten'') = ''kitten''" "lowercase no_tables (trim ''sitting'') = ''sitting''"
    by (simp_all add: trim_ascii lowercase_ascii ascii_str_def trim_list_def is_white_def ascii_lower_def)
  then show ?thesis
    using compare_strings_exact [of "\<lambda>_. Inr ()" no_tables "''kitten''" "''sitting''"] by simp
qed

text \<open>
   Normalising a title is idempotent: the result holds only lower-case letters, digits and
  single inner spaces, and normalising it again changes nothing.
\<close>

theorem normalize_title_canonical:
  "normalize_title T (normalize_title T v) = normalize_title T v \<and>
   (\<forall>c \<in> set (normalize_title T v). kept c) \<and>
   (\<exists>ws. normalize_title T v = join_spaces ws \<and> (\<forall>w \<in> set ws. w \<noteq> [] \<and> CHR '' '' \<notin> set w))"
proof -
  let ?f = "filter kept (foldl cut_suffix (lowercase T v) normalize_suffixes)"
  let ?ws = "split_spaces [] ?f"
  have out: "normalize_title T v = join_spaces ?ws" by (simp add: normalize_title_def Let_def)
  have words: "\<forall>w \<in> set ?ws. w \<noteq> [] \<and> CHR '' '' \<notin> set w \<and> set w \<subseteq> set ?f"
    using split_spaces_words [of "[]" _ ?f] by auto
  have kept: "\<forall>c \<in> set (join_spaces ?ws). kept c"
  proof
    fix c assume "c \<in> set (join_spaces ?ws)"
    then have "c = CHR '' '' \<or> (\<exists>w \<in> set ?ws. c \<in> set w)" using set_join [of ?ws] by auto
    with words show "kept c" by (auto simp: kept_def)
  qed
  have "normalize_title T (join_spaces ?ws) = join_spaces (split_spaces [] (join_spaces ?ws))"
    by (rule normalize_kept [OF kept])
  also have "split_spaces [] (join_spaces ?ws) = ?ws" by (rule split_join) (use words in blast)
  finally have "normalize_title T (join_spaces ?ws) = join_spaces ?ws" .
  moreover have "\<forall>w \<in> set ?ws. w \<noteq> [] \<and> CHR '' '' \<notin> set w" using words by blast
  ultimately show ?thesis unfolding out using kept by (intro conjI exI [of _ ?ws]) (rule refl | assumption)+
qed

theorem normalize_title_canonical_witness:
  "normalize_title no_tables (normalize_title no_tables ''A  Song (feat. B)'') =
     normalize_title no_tables ''A  Song (feat. B)''"
  using normalize_title_canonical [of no_tables "''A  Song (feat. B)''"] by simp

end
