(* ===== verification/UsbVolume.thy ===== *)
theory UsbVolume
  imports Usb F64
begin

text \<open>
  The hardware volume of a USB output (rust\_backend/crates/mobile/src/usb\_audio/volume.rs): the
  search for the feature unit that controls playback, the volume ranges, and the protocol that
  reads, attenuates and sets the volume.  The control transfer of the device is a parameter: given
  direction, request, value, index and the buffer it answers with an error or the new buffer.
  Volumes are signed 1/256 dB steps in 16 bits.
\<close>

section \<open>The feature unit\<close>

record feature =
  fe_unit :: nat
  fe_interface :: nat
  fe_uac2 :: bool
  fe_channels :: "nat list"










section \<open>Ranges\<close>

definition i16_of :: "bytes \<Rightarrow> int" where
  "i16_of b = (let n = int (get_le (take 2 b)) in if n < 32768 then n else n - 65536)"


definition i16_min :: int where "i16_min = - 32768"

record vrange =
  vr_min :: int
  vr_max :: int
  vr_step :: int

definition parse_range :: "bytes \<Rightarrow> vrange res" where
  "parse_range b =
     (let r = \<lparr>vr_min = i16_of b, vr_max = i16_of (drop 2 b), vr_step = i16_of (drop 4 b)\<rparr>
      in if vr_min r = i16_min \<or> vr_max r < vr_min r \<or> vr_step r < 0
         then Inl ''Invalid USB volume range'' else Inr r)"

definition range_floor :: "vrange \<Rightarrow> int \<Rightarrow> int" where
  "range_floor r value =
     (let v = max (vr_min r) (min (vr_max r) value);
          step = max 1 (vr_step r)
      in vr_min r + (v - vr_min r) div step * step)"

section \<open>The volume protocol\<close>


record hardware_volume =
  hv_min_db :: f64
  hv_max_db :: f64
  hv_current_db :: f64
  hv_restore_limit_db :: f64

record volume =
  vo_feature :: feature
  vo_ranges :: "vrange list list"
  vo_snapshot :: hardware_volume

definition control_index :: "feature \<Rightarrow> nat" where
  "control_index f = (fe_unit f * 256) OR fe_interface f"

definition selector :: "nat \<Rightarrow> nat" where "selector channel = 0x200 OR channel"

definition cur_request :: "feature \<Rightarrow> nat" where "cur_request f = (if fe_uac2 f then 1 else 0x81)"


definition zeros :: "nat \<Rightarrow> bytes" where "zeros n = replicate n CHR 0x00"














section \<open>What goes over the wire\<close>

text \<open>A device wrapped so that it keeps the protocol of the transfers.\<close>

type_synonym transfer = "bool \<times> nat \<times> nat \<times> nat \<times> bytes \<times> bytes res"



definition cur_read :: "feature \<Rightarrow> nat \<Rightarrow> int \<Rightarrow> transfer \<Rightarrow> bool" where
  "cur_read f channel v t \<longleftrightarrow>
     (\<exists>b. t = (True, cur_request f, selector channel, control_index f, zeros 2, Inr b) \<and> i16_of b = v)"






text \<open>Startup values come from the readings, and probing writes nothing.\<close>

definition startup_ok :: "feature \<Rightarrow> transfer list \<Rightarrow> nat \<Rightarrow> int \<Rightarrow> bool" where
  "startup_ok f tr channel v \<longleftrightarrow>
     (\<exists>t \<in> set tr. \<exists>u. cur_read f channel u t \<and> v = min u (- 40 * 256))"

lemma startup_ok_mono: "startup_ok f tr channel v \<Longrightarrow> set tr \<subseteq> set tr' \<Longrightarrow> startup_ok f tr' channel v"
  by (auto simp: startup_ok_def)


text \<open>A target value never exceeds the target.\<close>

lemma range_floor_bounds:
  assumes "vr_min r \<le> vr_max r"
  shows "vr_min r \<le> range_floor r v" and "range_floor r v \<le> vr_max r"
    and "vr_min r \<le> v \<Longrightarrow> range_floor r v \<le> v"
    and "max (vr_min r) (min (vr_max r) v) - range_floor r v < max 1 (vr_step r)"
    and "(range_floor r v - vr_min r) mod max 1 (vr_step r) = 0"
proof -
  define s where "s = max 1 (vr_step r)"
  define w where "w = max (vr_min r) (min (vr_max r) v)"
  have s: "0 < s" by (simp add: s_def)
  have w: "vr_min r \<le> w" "w \<le> vr_max r" "vr_min r \<le> v \<Longrightarrow> w \<le> v" using assms by (auto simp: w_def)
  have e: "range_floor r v = vr_min r + (w - vr_min r) div s * s" by (simp add: range_floor_def s_def w_def Let_def)
  have q: "(w - vr_min r) div s * s = (w - vr_min r) - (w - vr_min r) mod s" by (simp add: minus_mod_eq_div_mult)
  have m: "0 \<le> (w - vr_min r) mod s" "(w - vr_min r) mod s < s" using s by simp_all
  have nn: "0 \<le> (w - vr_min r) div s * s" using s w(1) by (simp add: pos_imp_zdiv_nonneg_iff)
  show "vr_min r \<le> range_floor r v" using e nn by simp
  show "range_floor r v \<le> vr_max r" using e q m w by simp
  show "range_floor r v \<le> v" if "vr_min r \<le> v" using e q m w(3) [OF that] by simp
  show "max (vr_min r) (min (vr_max r) v) - range_floor r v < max 1 (vr_step r)"
    using e q m by (simp add: s_def [symmetric] w_def [symmetric])
  show "(range_floor r v - vr_min r) mod max 1 (vr_step r) = 0"
    using e by (simp add: s_def [symmetric])
qed





section \<open>The walk\<close>











section \<open>Properties\<close>


text \<open>
  Rounding to a device range never goes above the request: the result lies in the range, on
  its grid, not above a request at or over the minimum, and less than one step below it.
\<close>

theorem range_floor_exact:
  assumes "parse_range b = Inr r"
  shows "vr_min r \<le> range_floor r v \<and> range_floor r v \<le> vr_max r \<and>
    (vr_min r \<le> v \<longrightarrow> range_floor r v \<le> v) \<and>
    (vr_min r \<le> v \<and> v \<le> vr_max r \<longrightarrow> v - range_floor r v < max 1 (vr_step r)) \<and>
    (range_floor r v - vr_min r) mod max 1 (vr_step r) = 0"
proof -
  have le: "vr_min r \<le> vr_max r" using assms by (auto simp: parse_range_def Let_def split: if_splits)
  have "vr_min r \<le> v \<and> v \<le> vr_max r \<Longrightarrow> max (vr_min r) (min (vr_max r) v) = v" by simp
  then show ?thesis using range_floor_bounds [OF le, of v] by metis
qed

theorem range_floor_exact_witness:
  "range_floor \<lparr>vr_min = - 512, vr_max = 0, vr_step = 256\<rparr> (- 100) \<le> - 100"
proof -
  have "parse_range [CHR 0x00, CHR 0xfe, CHR 0x00, CHR 0x00, CHR 0x00, CHR 0x01] =
      Inr \<lparr>vr_min = - 512, vr_max = 0, vr_step = 256\<rparr>"
    by (simp add: parse_range_def i16_of_def i16_min_def)
  from range_floor_exact [OF this, of "- 100"] show ?thesis by simp
qed






end
