(* ===== verification/Reader.thy ===== *)
theory Reader
  imports Prelude
begin

text \<open>
  Files.  A reader is the bytes of the file and the position in it; reading past the end gives the
  errors of \<^verbatim>\<open>exact\<close> in rust\_backend/crates/core/src/tags.rs, and no other I/O error occurs.
  The cancellation check of the writers is called with the number of calls made before it.
\<close>

text \<open>\<^verbatim>\<open>exact\<close> and \<^verbatim>\<open>bytes\<close>: the result and the position afterwards.\<close>

definition read_exact :: "bytes \<Rightarrow> nat \<Rightarrow> nat \<Rightarrow> bytes res \<times> nat" where
  "read_exact d n p =
     (if n = 0 then (Inr [], p)
      else if length d \<le> p then (Inl ''EOF'', p)
      else if length d < p + n then (Inl ''unexpected EOF'', length d)
      else (Inr (slice d p (p + n)), p + n))"

text \<open>The same for callers that stop at the first error.\<close>

definition read_bytes :: "bytes \<Rightarrow> nat \<Rightarrow> nat \<Rightarrow> (bytes \<times> nat) res" where
  "read_bytes d n p = (case read_exact d n p of (Inl e, _) \<Rightarrow> Inl e | (Inr b, q) \<Rightarrow> Inr (b, q))"

lemma read_bytes_Inr [res_iff]: "read_bytes d n p = Inr (b, q) \<longleftrightarrow>
  (n = 0 \<and> b = [] \<and> q = p \<or> 0 < n \<and> p + n \<le> length d \<and> b = slice d p (p + n) \<and> q = p + n)"
  by (auto simp: read_bytes_def read_exact_def)

lemma read_bytes_ok: "p + n \<le> length d \<Longrightarrow> read_bytes d n p = Inr (slice d p (p + n), p + n)"
  by (cases "n = 0") (auto simp: read_bytes_def read_exact_def slice_def)

lemma read_bytes_short: "length d < p + n \<Longrightarrow> 0 < n \<Longrightarrow> \<exists>e. read_bytes d n p = Inl e"
  by (auto simp: read_bytes_def read_exact_def)

lemma read_bytes_length: "read_bytes d n p = Inr (b, q) \<Longrightarrow> length b = n \<and> q = p + n"
  by (auto simp: read_bytes_Inr)

lemma slice_append_left: "b \<le> length xs \<Longrightarrow> slice (xs @ ys) a b = slice xs a b"
  by (simp add: slice_def)

text \<open>Reading what has just been appended.\<close>

lemma read_bytes_append [codec]:
  "p = length pre \<Longrightarrow> n = length b \<Longrightarrow> read_bytes (pre @ b @ post) n p = Inr (b, p + n)"
  by (simp add: read_bytes_ok slice_append_mid)

end
