(* ===== verification/Sections.thy ===== *)
theory Sections
  imports Reader "HOL-Library.Sublist"
begin

text \<open>
  Rewriting a file by replacing sections of it (\<^verbatim>\<open>write_sections\<close>, \<^verbatim>\<open>copy\<close> and \<^verbatim>\<open>discard_bytes\<close>
  in rust\_backend/crates/core/src/tags/write.rs).  The environment decides how many bytes each read
  gives, which call of the cancellation check fails, and which read or write fails; a write that
  fails may have written a part of its bytes.
\<close>

section \<open>The environment and the state of a rewrite\<close>

record env =
  env_check :: check
  env_read :: "nat \<Rightarrow> nat res"
  env_write :: "nat \<Rightarrow> (string \<times> nat) option"

record io =
  out :: bytes
  src_pos :: nat
  checks :: nat
  reads :: nat
  writes :: nat

definition ask :: "env \<Rightarrow> io \<Rightarrow> unit res \<times> io" where
  "ask E s = (env_check E (checks s), s\<lparr>checks := checks s + 1\<rparr>)"

text \<open>
  \<^verbatim>\<open>Read::read\<close> with room for \<open>limit\<close> bytes: at least one byte unless the room or the rest of the
  file is empty, and no more than the environment allows.
\<close>

definition read_some :: "env \<Rightarrow> bytes \<Rightarrow> nat \<Rightarrow> io \<Rightarrow> bytes res \<times> io" where
  "read_some E d limit s =
     (case env_read E (reads s) of
        Inl e \<Rightarrow> (Inl e, s\<lparr>reads := reads s + 1\<rparr>)
      | Inr n \<Rightarrow>
          let b = take (min limit (Suc n)) (drop (src_pos s) d)
          in (Inr b, s\<lparr>reads := reads s + 1, src_pos := src_pos s + length b\<rparr>))"

definition write_all :: "env \<Rightarrow> bytes \<Rightarrow> io \<Rightarrow> unit res \<times> io" where
  "write_all E b s =
     (case env_write E (writes s) of
        Some (e, n) \<Rightarrow> (Inl e, s\<lparr>writes := writes s + 1, out := out s @ take n b\<rparr>)
      | None \<Rightarrow> (Inr (), s\<lparr>writes := writes s + 1, out := out s @ b\<rparr>))"

text \<open>Stop at the first error.\<close>

definition then_io :: "'a res \<times> io \<Rightarrow> ('a \<Rightarrow> io \<Rightarrow> 'b res \<times> io) \<Rightarrow> 'b res \<times> io" where
  "then_io r f = (case fst r of Inl e \<Rightarrow> (Inl e, snd r) | Inr x \<Rightarrow> f x (snd r))"

lemma then_io_simps [simp]:
  "then_io (Inl e, s) f = (Inl e, s)"
  "then_io (Inr x, s) f = f x s"
  by (simp_all add: then_io_def)

lemma then_io_cong [fundef_cong]:
  "r = r' \<Longrightarrow> (\<And>x s. r' = (Inr x, s) \<Longrightarrow> f x s = f' x s) \<Longrightarrow> then_io r f = then_io r' f'"
  by (cases r') (auto simp: then_io_def split: sum.split)

section \<open>Copying and replacing\<close>

lemma read_some_pos: "read_some E d limit s = (Inr b, s') \<Longrightarrow> src_pos s' = src_pos s + length b \<and>
    length b \<le> length d - src_pos s"
  by (auto simp: read_some_def Let_def split: sum.splits)

lemma ask_pos [simp]: "ask E s = (r, s') \<Longrightarrow> src_pos s' = src_pos s"
  by (auto simp: ask_def)

lemma write_all_pos [simp]: "write_all E b s = (r, s') \<Longrightarrow> src_pos s' = src_pos s"
  by (auto simp: write_all_def split: option.splits)

definition buffer_len :: nat where "buffer_len = 65536"

definition copy_limit :: "nat option \<Rightarrow> nat" where
  "copy_limit remaining = (case remaining of None \<Rightarrow> buffer_len | Some n \<Rightarrow> min n buffer_len)"

function copy :: "env \<Rightarrow> bytes \<Rightarrow> nat option \<Rightarrow> io \<Rightarrow> unit res \<times> io" where
  "copy E d remaining s =
     then_io (ask E s) (\<lambda>_ s1.
       if copy_limit remaining = 0 then ask E s1
       else then_io (read_some E d (copy_limit remaining) s1) (\<lambda>b s2.
         if b = [] then
           (if remaining \<noteq> None then (Inl ''unexpected EOF while copying audio'', s2) else ask E s2)
         else then_io (write_all E b s2) (\<lambda>_ s3.
           copy E d (map_option (\<lambda>n. n - length b) remaining) s3)))"
  by pat_completeness auto
termination
proof (relation "measure (\<lambda>(E, d, r, s). length d - src_pos s)", simp)
  fix E d r s x s1 b s2 y s3
  assume a: "ask E s = (Inr x, s1)" "read_some E d (copy_limit r) s1 = (Inr b, s2)" "b \<noteq> []"
    "write_all E b s2 = (Inr y, s3)"
  then have "src_pos s1 = src_pos s" "src_pos s2 = src_pos s1 + length b" "length b \<le> length d - src_pos s1"
    "src_pos s3 = src_pos s2" "0 < length b"
    using read_some_pos [OF a(2)] ask_pos [OF a(1)] write_all_pos [OF a(4)] by simp_all
  then have "length d - src_pos s3 < length d - src_pos s" by linarith
  then show "((E, d, map_option (\<lambda>n. n - length b) r, s3), E, d, r, s) \<in> measure (\<lambda>(E, d, r, s). length d - src_pos s)"
    by simp
qed

declare copy.simps [simp del]

function chunks :: "nat \<Rightarrow> 'a list \<Rightarrow> 'a list list" where
  "chunks n xs = (if xs = [] \<or> n = 0 then [] else take n xs # chunks n (drop n xs))"
  by pat_completeness auto
termination by (relation "measure (\<lambda>(n, xs). length xs)") auto

declare chunks.simps [simp del]

fun write_chunks :: "env \<Rightarrow> bytes list \<Rightarrow> io \<Rightarrow> unit res \<times> io" where
  "write_chunks E [] s = (Inr (), s)"
| "write_chunks E (b # bs) s =
     then_io (ask E s) (\<lambda>_ s1. then_io (write_all E b s1) (\<lambda>_ s2. write_chunks E bs s2))"

record sect =
  sec_start :: nat
  sec_end :: nat
  sec_data :: bytes

fun sections_ok :: "nat \<Rightarrow> sect list \<Rightarrow> bool" where
  "sections_ok p [] = True"
| "sections_ok p (x # xs) =
     (if sec_start x < p \<or> sec_end x < sec_start x then False else sections_ok (sec_end x) xs)"

fun write_loop :: "env \<Rightarrow> bytes \<Rightarrow> nat \<Rightarrow> sect list \<Rightarrow> io \<Rightarrow> unit res \<times> io" where
  "write_loop E d p [] s = copy E d None s"
| "write_loop E d p (x # xs) s =
     then_io (copy E d (Some (sec_start x - p)) s) (\<lambda>_ s1.
     then_io (write_chunks E (chunks buffer_len (sec_data x)) s1) (\<lambda>_ s2.
       write_loop E d (sec_end x) xs (s2\<lparr>src_pos := sec_end x\<rparr>)))"

definition write_sections :: "env \<Rightarrow> bytes \<Rightarrow> sect list \<Rightarrow> io \<Rightarrow> unit res \<times> io" where
  "write_sections E d sections s =
     (let xs = sort_key sec_start sections
      in if sections_ok 0 xs then write_loop E d 0 xs (s\<lparr>src_pos := 0\<rparr>)
         else (Inl ''overlapping or invalid file sections'', s))"

text \<open>\<^verbatim>\<open>write_optional_sections\<close>: nothing to do is a success without output.\<close>

definition write_optional_sections :: "env \<Rightarrow> bytes \<Rightarrow> sect list \<Rightarrow> io \<Rightarrow> bool res \<times> io" where
  "write_optional_sections E d sections s =
     (if sections = [] then then_io (ask E s) (\<lambda>_ s1. (Inr False, s1))
      else then_io (write_sections E d sections s) (\<lambda>_ s1. (Inr True, s1)))"

text \<open>\<^verbatim>\<open>discard_bytes\<close>: read \<open>length - offset\<close> more bytes and drop them.\<close>

function discard :: "env \<Rightarrow> bytes \<Rightarrow> nat \<Rightarrow> nat \<Rightarrow> io \<Rightarrow> unit res \<times> io" where
  "discard E d len offset s =
     (if len \<le> offset then (Inr (), s)
      else then_io (ask E s) (\<lambda>_ s1.
        then_io (read_some E d (min (len - offset) buffer_len) s1) (\<lambda>b s2.
          if b = [] then (Inl (if offset = 0 then ''EOF'' else ''unexpected EOF''), s2)
          else discard E d len (offset + length b) s2)))"
  by pat_completeness auto
termination by (relation "measure (\<lambda>(E, d, len, offset, s). len - offset)") (auto intro!: diff_less_mono2)

declare discard.simps [simp del]


section \<open>What a rewrite writes\<close>

text \<open>The reference: the file with the sections replaced.\<close>

fun splice :: "bytes \<Rightarrow> nat \<Rightarrow> sect list \<Rightarrow> bytes" where
  "splice d p [] = drop p d"
| "splice d p (x # xs) = slice d p (sec_start x) @ sec_data x @ splice d (sec_end x) xs"

text \<open>
  A call that is to write \<open>w\<close>: it appends a prefix of \<open>w\<close>, all of it when it succeeds, and it
  succeeds only if every check it made said so.
\<close>

definition appends :: "env \<Rightarrow> io \<Rightarrow> bytes \<Rightarrow> 'a res \<times> io \<Rightarrow> bool" where
  "appends E s w r \<longleftrightarrow>
     (\<exists>p. out (snd r) = out s @ p \<and> prefix p w \<and> (res_ok (fst r) \<noteq> None \<longrightarrow> p = w)) \<and>
     checks s \<le> checks (snd r) \<and>
     (res_ok (fst r) \<noteq> None \<longrightarrow> (\<forall>k. checks s \<le> k \<and> k < checks (snd r) \<longrightarrow> env_check E k = Inr ()))"

named_theorems io_steps

lemma appends_seq:
  assumes "appends E s v r" and "\<And>x s'. r = (Inr x, s') \<Longrightarrow> appends E s' w (f x s')"
  shows "appends E s (v @ w) (then_io r f)"
proof (cases r)
  case (Pair y s')
  show ?thesis
  proof (cases y)
    case (Inl e)
    then show ?thesis using assms(1) Pair by (auto simp: appends_def intro: prefix_prefix)
  next
    case (Inr x)
    then have "appends E s' w (f x s')" using assms(2) Pair by simp
    then obtain q where q: "out (snd (f x s')) = out s' @ q" "prefix q w"
      "res_ok (fst (f x s')) \<noteq> None \<longrightarrow> q = w" "checks s' \<le> checks (snd (f x s'))"
      "res_ok (fst (f x s')) \<noteq> None \<longrightarrow> (\<forall>k. checks s' \<le> k \<and> k < checks (snd (f x s')) \<longrightarrow> env_check E k = Inr ())"
      by (auto simp: appends_def)
    have v: "out s' = out s @ v" "checks s \<le> checks s'" "\<forall>k. checks s \<le> k \<and> k < checks s' \<longrightarrow> env_check E k = Inr ()"
      using assms(1) Pair Inr by (auto simp: appends_def)
    have "\<forall>k. checks s \<le> k \<and> k < checks (snd (f x s')) \<longrightarrow> env_check E k = Inr ()"
      if "res_ok (fst (f x s')) \<noteq> None"
      using that q(5) v(3) by (metis not_le)
    with q v Pair Inr show ?thesis
      by (auto simp: appends_def intro!: exI [of _ "v @ q"])
  qed
qed

lemma appends_ask [io_steps]: "appends E s [] (ask E s)"
  by (cases "env_check E (checks s)") (auto simp: appends_def ask_def less_Suc_eq)

lemma appends_read [io_steps]: "appends E s [] (read_some E d n s)"
  by (auto simp: appends_def read_some_def Let_def split: sum.split)

lemma appends_write [io_steps]: "appends E s b (write_all E b s)"
  by (auto simp: appends_def write_all_def take_is_prefix split: option.split)

lemma appends_error: "out s' = out s \<Longrightarrow> checks s' = checks s \<Longrightarrow> appends E s w (Inl e, s')"
  by (simp add: appends_def)

lemma appends_ok: "appends E s [] (Inr x, s)"
  by (auto simp: appends_def)

lemma appends_out: "appends E s w r \<Longrightarrow> r = (Inr x, s') \<Longrightarrow> out s' = out s @ w"
  by (auto simp: appends_def)

lemma ask_kept: "ask E s = (r, s') \<Longrightarrow> out s' = out s \<and> src_pos s' = src_pos s"
  unfolding ask_def by clarsimp

lemma appends_move: "appends E (s\<lparr>src_pos := p\<rparr>) w r = appends E s w r"
  by (simp add: appends_def)

lemma take_length_take: "take (length (take m xs)) xs = take m xs"
  by (cases "m \<le> length xs") (simp_all add: min_absorb2 min_absorb1)

lemma read_some_Inr:
  "read_some E d n s = (Inr b, s') \<Longrightarrow>
     src_pos s' = src_pos s + length b \<and> (\<exists>k. b = take k (drop (src_pos s) d) \<and> k \<le> n \<and> (n \<noteq> 0 \<longrightarrow> k \<noteq> 0))"
proof (cases "env_read E (reads s)")
  case (Inr m)
  moreover assume "read_some E d n s = (Inr b, s')"
  ultimately have "b = take (min n (Suc m)) (drop (src_pos s) d)" "src_pos s' = src_pos s + length b"
    by (auto simp: read_some_def Let_def)
  then show ?thesis by (auto intro!: exI [of _ "min n (Suc m)"])
qed (simp add: read_some_def)

lemma read_some_take:
  assumes "read_some E d n s = (Inr b, s')" and "b \<noteq> []"
  shows "src_pos s' = src_pos s + length b \<and> b = slice d (src_pos s) (src_pos s + length b) \<and> length b \<le> n \<and>
    src_pos s + length b \<le> length d"
proof -
  from read_some_Inr [OF assms(1)] obtain k where k: "b = take k (drop (src_pos s) d)" "k \<le> n"
      "src_pos s' = src_pos s + length b" by blast
  then have "b = take (length b) (drop (src_pos s) d)" using take_length_take by metis
  moreover have "length b \<le> length d - src_pos s" "length b \<le> n" unfolding k(1) using k(2) by simp_all
  moreover have "0 < length b" using assms(2) by simp
  then have "src_pos s + length b \<le> length d" using \<open>length b \<le> length d - src_pos s\<close> by linarith
  ultimately show ?thesis using k(3) by (simp add: slice_def)
qed

lemma read_some_empty:
  assumes "read_some E d n s = (Inr [], s')" and "n \<noteq> 0"
  shows "length d \<le> src_pos s \<and> src_pos s' = src_pos s"
  using read_some_Inr [OF assms(1)] assms(2) by auto

definition to_copy :: "bytes \<Rightarrow> nat option \<Rightarrow> nat \<Rightarrow> bytes" where
  "to_copy d remaining p = (case remaining of None \<Rightarrow> drop p d | Some n \<Rightarrow> slice d p (p + n))"

lemma to_copy_step:
  "p + length b \<le> length d \<Longrightarrow> b = slice d p (p + length b) \<Longrightarrow> length b \<le> copy_limit r \<Longrightarrow>
     to_copy d r p = b @ to_copy d (map_option (\<lambda>n. n - length b) r) (p + length b)"
proof (cases r)
  case None
  assume "b = slice d p (p + length b)"
  then have "b = take (length b) (drop p d)" by (simp add: slice_def)
  with None show ?thesis
    by (simp add: to_copy_def) (metis add.commute append_take_drop_id drop_drop)
next
  case (Some n)
  assume b: "b = slice d p (p + length b)" and "length b \<le> copy_limit r"
  then have "length b \<le> n" using Some by (simp add: copy_limit_def)
  then have "slice d p (p + n) = slice d p (p + length b) @ slice d (p + length b) (p + length b + (n - length b))"
    using take_add [of "length b" "n - length b" "drop p d"] by (simp add: slice_def add.commute)
  with b Some show ?thesis by (simp add: to_copy_def)
qed

lemma appends_copy: "appends E s (to_copy d r (src_pos s)) (copy E d r s)"
proof (induction E d r s rule: copy.induct)
  case (1 E d r s)
  have rest: "appends E s1 (to_copy d r (src_pos s1)) (if copy_limit r = 0 then ask E s1
       else then_io (read_some E d (copy_limit r) s1) (\<lambda>b s2.
         if b = [] then
           (if r \<noteq> None then (Inl ''unexpected EOF while copying audio'', s2) else ask E s2)
         else then_io (write_all E b s2) (\<lambda>_ s3. copy E d (map_option (\<lambda>n. n - length b) r) s3)))"
    if s1: "ask E s = (Inr (), s1)" for s1
  proof (cases "copy_limit r = 0")
    case True
    then have "to_copy d r (src_pos s1) = []"
      by (auto simp: copy_limit_def to_copy_def buffer_len_def slice_def split: option.splits)
    with True show ?thesis by (simp add: appends_ask)
  next
    case False
    have "appends E s2 (to_copy d r (src_pos s1)) (if b = [] then
           (if r \<noteq> None then (Inl ''unexpected EOF while copying audio'', s2) else ask E s2)
         else then_io (write_all E b s2) (\<lambda>_ s3. copy E d (map_option (\<lambda>n. n - length b) r) s3))"
      if s2: "read_some E d (copy_limit r) s1 = (Inr b, s2)" for b s2
    proof (cases "b = []")
      case True
      then have "length d \<le> src_pos s1" using read_some_empty s2 False by blast
      then show ?thesis using True
        by (cases r) (auto simp: to_copy_def appends_error appends_ask)
    next
      case b: False
      note t = read_some_take [OF s2 b]
      have "appends E s2 (b @ to_copy d (map_option (\<lambda>n. n - length b) r) (src_pos s1 + length b))
          (then_io (write_all E b s2) (\<lambda>_ s3. copy E d (map_option (\<lambda>n. n - length b) r) s3))"
      proof (rule appends_seq [OF appends_write])
        fix x s3 assume s3: "write_all E b s2 = (Inr x, s3)"
        then have "src_pos s3 = src_pos s1 + length b" using t by (simp add: write_all_pos [OF s3])
        then show "appends E s3 (to_copy d (map_option (\<lambda>n. n - length b) r) (src_pos s1 + length b))
            (copy E d (map_option (\<lambda>n. n - length b) r) s3)"
          using 1 [OF s1 False s2 b s3] by simp
      qed
      then show ?thesis using b t to_copy_step [of "src_pos s1" b d r] by simp
    qed
    then have "appends E s1 ([] @ to_copy d r (src_pos s1)) (then_io (read_some E d (copy_limit r) s1) (\<lambda>b s2. if b = [] then
           (if r \<noteq> None then (Inl ''unexpected EOF while copying audio'', s2) else ask E s2)
         else then_io (write_all E b s2) (\<lambda>_ s3. copy E d (map_option (\<lambda>n. n - length b) r) s3)))"
      by (rule appends_seq [OF appends_read])
    then show ?thesis using False by simp
  qed
  have "appends E s ([] @ to_copy d r (src_pos s)) (copy E d r s)"
    unfolding copy.simps [of E d r s]
  proof (rule appends_seq [OF appends_ask])
    fix x s1 assume *: "ask E s = (Inr x, s1)"
    then have "src_pos s1 = src_pos s" by (rule ask_pos)
    then show "appends E s1 (to_copy d r (src_pos s)) (if copy_limit r = 0 then ask E s1
       else then_io (read_some E d (copy_limit r) s1) (\<lambda>b s2.
         if b = [] then
           (if r \<noteq> None then (Inl ''unexpected EOF while copying audio'', s2) else ask E s2)
         else then_io (write_all E b s2) (\<lambda>_ s3. copy E d (map_option (\<lambda>n. n - length b) r) s3)))"
      using rest [of s1] * by simp
  qed
  then show ?case by simp
qed


lemma concat_chunks: "0 < n \<Longrightarrow> concat (chunks n xs) = xs"
  by (induction n xs rule: chunks.induct) (simp add: chunks.simps)

lemma appends_chunks: "appends E s (concat bs) (write_chunks E bs s)"
proof (induction bs arbitrary: s)
  case Nil
  then show ?case by (simp add: appends_ok)
next
  case (Cons b bs)
  have "appends E s1 (b @ concat bs) (then_io (write_all E b s1) (\<lambda>_ s2. write_chunks E bs s2))" for s1
    by (rule appends_seq [OF appends_write]) (rule Cons.IH)
  then have "appends E s ([] @ b @ concat bs) (write_chunks E (b # bs) s)"
    unfolding write_chunks.simps by (intro appends_seq [OF appends_ask])
  then show ?case by simp
qed

lemma appends_loop:
  "sections_ok p xs \<Longrightarrow> src_pos s = p \<Longrightarrow> appends E s (splice d p xs) (write_loop E d p xs s)"
proof (induction xs arbitrary: p s)
  case Nil
  then show ?case using appends_copy [of E s d None] by (simp add: to_copy_def)
next
  case (Cons x xs)
  then have ok: "p \<le> sec_start x" "sections_ok (sec_end x) xs" by (auto split: if_splits)
  have "appends E s2 (splice d (sec_end x) xs) (write_loop E d (sec_end x) xs (s2\<lparr>src_pos := sec_end x\<rparr>))" for s2
    using Cons.IH [OF ok(2), of "s2\<lparr>src_pos := sec_end x\<rparr>"] by (simp add: appends_move)
  then have "appends E s1 (sec_data x @ splice d (sec_end x) xs) (then_io (write_chunks E (chunks buffer_len (sec_data x)) s1)
      (\<lambda>_ s2. write_loop E d (sec_end x) xs (s2\<lparr>src_pos := sec_end x\<rparr>)))" for s1
    using appends_chunks [of E s1 "chunks buffer_len (sec_data x)"]
    by (intro appends_seq) (simp_all add: concat_chunks buffer_len_def)
  moreover have "appends E s (slice d p (sec_start x)) (copy E d (Some (sec_start x - p)) s)"
    using appends_copy [of E s d "Some (sec_start x - p)"] ok Cons.prems by (simp add: to_copy_def)
  ultimately show ?case by (simp add: appends_seq)
qed

lemma write_sections_Inr:
  "write_sections E d xs s = (Inr u, s') \<Longrightarrow>
     sections_ok 0 (sort_key sec_start xs) \<and> out s' = out s @ splice d 0 (sort_key sec_start xs)"
  using appends_loop [of 0 "sort_key sec_start xs" "s\<lparr>src_pos := 0\<rparr>" E d]
  by (auto simp: write_sections_def Let_def appends_move dest: appends_out split: if_splits)

text \<open>An environment in which nothing fails.\<close>

definition quiet :: "env \<Rightarrow> bool" where
  "quiet E \<longleftrightarrow> (\<forall>k. env_check E k = Inr () \<and> env_write E k = None \<and> \<not> isl (env_read E k))"

text \<open>The sections start inside the file.\<close>

definition inside :: "bytes \<Rightarrow> nat \<Rightarrow> nat option \<Rightarrow> bool" where
  "inside d p r = (case r of None \<Rightarrow> True | Some n \<Rightarrow> n = 0 \<or> p + n \<le> length d)"

lemma quiet_ask: "quiet E \<Longrightarrow> ask E s = (Inr (), s\<lparr>checks := checks s + 1\<rparr>)"
  by (simp add: quiet_def ask_def)

lemma quiet_write: "quiet E \<Longrightarrow> write_all E b s = (Inr (), s\<lparr>writes := writes s + 1, out := out s @ b\<rparr>)"
  by (simp add: quiet_def write_all_def)

lemma quiet_read: "quiet E \<Longrightarrow> \<exists>b s'. read_some E d n s = (Inr b, s')"
  by (cases "env_read E (reads s)") (auto simp: quiet_def read_some_def Let_def dest!: spec [of _ "reads s"])

lemma copy_succeeds: "quiet E \<Longrightarrow> fst (copy E d r s) = Inr () \<longleftrightarrow> inside d (src_pos s) r"
proof (induction E d r s rule: copy.induct)
  case (1 E d r s)
  let ?s1 = "s\<lparr>checks := checks s + 1\<rparr>"
  show ?case
  proof (cases "copy_limit r = 0")
    case True
    then have "r = Some 0" by (auto simp: copy_limit_def buffer_len_def min_def split: option.splits if_splits)
    with True 1(2) show ?thesis by (simp add: copy.simps [of E d "Some 0" s] quiet_ask inside_def)
  next
    case False
    obtain b s2 where s2: "read_some E d (copy_limit r) ?s1 = (Inr b, s2)" using quiet_read [OF 1(2)] by blast
    show ?thesis
    proof (cases "b = []")
      case True
      then have "length d \<le> src_pos s" using read_some_empty [of E d "copy_limit r" ?s1] s2 False by auto
      moreover have "r = Some n \<Longrightarrow> 0 < n" for n using False by (auto simp: copy_limit_def)
      moreover have "copy E d r s = (if r \<noteq> None then (Inl ''unexpected EOF while copying audio'', s2) else ask E s2)"
        using True False s2 1(2) by (simp add: copy.simps [of E d r s] quiet_ask)
      ultimately show ?thesis using 1(2) by (cases r) (auto simp: quiet_ask inside_def)
    next
      case b: False
      let ?s3 = "s2\<lparr>writes := writes s2 + 1, out := out s2 @ b\<rparr>"
      have "src_pos ?s1 = src_pos s" by simp
      then have t: "src_pos s2 = src_pos s + length b" "length b \<le> copy_limit r" "src_pos s + length b \<le> length d"
        using read_some_take [OF s2 b] by argo+
      have "fst (copy E d r s) = fst (copy E d (map_option (\<lambda>n. n - length b) r) ?s3)"
        unfolding copy.simps [of E d r s]
        by (simp only: quiet_ask [OF 1(2)] quiet_write [OF 1(2)] s2 then_io_simps False b if_False)
      also have "\<dots> = Inr () \<longleftrightarrow> inside d (src_pos ?s3) (map_option (\<lambda>n. n - length b) r)"
        by (rule 1(1) [OF quiet_ask [OF 1(2)] False s2 b quiet_write [OF 1(2)] 1(2)])
      also have "\<dots> \<longleftrightarrow> inside d (src_pos s) r"
      proof (cases r)
        case (Some n)
        then have "length b \<le> n" using t(2) by (simp add: copy_limit_def)
        moreover have "0 < length b" using b by simp
        ultimately have "(n - length b = 0 \<or> src_pos s2 + (n - length b) \<le> length d) = (n = 0 \<or> src_pos s + n \<le> length d)"
          using t(1,3) by linarith
        moreover have "src_pos ?s3 = src_pos s2" by simp
        ultimately show ?thesis using Some by (simp only: inside_def option.case option.map)
      qed (simp add: inside_def)
      finally show ?thesis .
    qed
  qed
qed

lemma chunks_succeed: "quiet E \<Longrightarrow> fst (write_chunks E bs s) = Inr ()"
  by (induction bs arbitrary: s) (simp_all add: quiet_ask quiet_write)

definition starts_inside :: "bytes \<Rightarrow> sect list \<Rightarrow> bool" where
  "starts_inside d xs = list_all (\<lambda>x. sec_start x \<le> length d) xs"

lemma then_io_ok: "fst r = Inr x \<Longrightarrow> then_io r f = f x (snd r)"
  by (cases r) simp

text \<open>Once a section starts beyond the end, the copy before it fails, unless it is empty.\<close>

lemma loop_succeeds:
  "quiet E \<Longrightarrow> sections_ok p xs \<Longrightarrow> src_pos s = p \<Longrightarrow> starts_inside d xs \<Longrightarrow> fst (write_loop E d p xs s) = Inr ()"
proof (induction xs arbitrary: p s)
  case Nil
  then show ?case by (simp add: copy_succeeds inside_def)
next
  case (Cons x xs)
  then have ok: "p \<le> sec_start x" "sections_ok (sec_end x) xs" by (auto split: if_splits)
  have "fst (copy E d (Some (sec_start x - p)) s) = Inr ()"
    using Cons.prems ok by (simp add: copy_succeeds inside_def starts_inside_def)
  moreover have "fst (write_loop E d (sec_end x) xs (s2\<lparr>src_pos := sec_end x\<rparr>)) = Inr ()" for s2
    using Cons.prems ok by (intro Cons.IH) (auto simp: starts_inside_def)
  ultimately show ?case
    using chunks_succeed [OF Cons.prems(1)] by (simp add: then_io_ok)
qed


text \<open>
  C27.  A rewrite never writes anything but the file with its sections replaced: whatever the
  environment does, the output grows by a prefix of the spliced file; if the rewrite succeeds it is
  the whole spliced file and every cancellation check it made answered that it may go on; sections
  that overlap or end before they start are refused before anything is written.
\<close>

theorem rewrite_writes_the_splice:
  "(let xs = sort_key sec_start sections; r = write_sections E d sections s
    in if sections_ok 0 xs then
         (\<exists>p. out (snd r) = out s @ p \<and> prefix p (splice d 0 xs) \<and>
              (fst r = Inr () \<longrightarrow> p = splice d 0 xs \<and>
                 (\<forall>k. checks s \<le> k \<and> k < checks (snd r) \<longrightarrow> env_check E k = Inr ())))
       else r = (Inl ''overlapping or invalid file sections'', s))"
  using appends_loop [of 0 "sort_key sec_start sections" "s\<lparr>src_pos := 0\<rparr>" E d]
  by (auto simp: write_sections_def Let_def appends_move appends_def)

theorem rewrite_writes_the_splice_witness:
  "\<exists>p. out (snd (write_sections \<lparr>env_check = (\<lambda>k. if k < 3 then Inr () else Inl ''cancelled''), env_read = (\<lambda>_. Inr 0),
       env_write = (\<lambda>_. None)\<rparr> ''abcd'' [\<lparr>sec_start = 1, sec_end = 2, sec_data = ''XY''\<rparr>]
       \<lparr>out = ''-'', src_pos = 0, checks = 0, reads = 0, writes = 0\<rparr>)) = ''-'' @ p \<and> prefix p ''aXYcd''"
  using rewrite_writes_the_splice [of "[\<lparr>sec_start = 1, sec_end = 2, sec_data = ''XY''\<rparr>]"
      "\<lparr>env_check = (\<lambda>k. if k < 3 then Inr () else Inl ''cancelled''), env_read = (\<lambda>_. Inr 0), env_write = (\<lambda>_. None)\<rparr>"
      "''abcd''" "\<lparr>out = ''-'', src_pos = 0, checks = 0, reads = 0, writes = 0\<rparr>"]
  by (auto simp: Let_def slice_def)

text \<open>
  A rewrite whose sections are in order and start inside the file succeeds when nothing fails,
  however few bytes each read gives: the loop ends and the output is the spliced file.
\<close>

theorem rewrite_succeeds:
  assumes "quiet E" and "sections_ok 0 (sort_key sec_start sections)" and "starts_inside d sections"
  shows "fst (write_sections E d sections s) = Inr () \<and>
    out (snd (write_sections E d sections s)) = out s @ splice d 0 (sort_key sec_start sections)"
proof -
  let ?xs = "sort_key sec_start sections"
  have "starts_inside d ?xs" using assms(3) by (simp add: starts_inside_def list_all_iff)
  then have "fst (write_loop E d 0 ?xs (s\<lparr>src_pos := 0\<rparr>)) = Inr ()"
    using assms by (intro loop_succeeds) auto
  then show ?thesis
    using appends_loop [OF assms(2), of "s\<lparr>src_pos := 0\<rparr>" E d] assms(2)
    by (auto simp: write_sections_def Let_def appends_move appends_def)
qed

theorem rewrite_succeeds_witness:
  "fst (write_sections \<lparr>env_check = (\<lambda>_. Inr ()), env_read = (\<lambda>_. Inr 7), env_write = (\<lambda>_. None)\<rparr> ''abcd''
     [\<lparr>sec_start = 3, sec_end = 4, sec_data = ''Z''\<rparr>, \<lparr>sec_start = 0, sec_end = 2, sec_data = ''XY''\<rparr>]
     \<lparr>out = [], src_pos = 0, checks = 0, reads = 0, writes = 0\<rparr>) = Inr ()"
  by (rule conjunct1 [OF rewrite_succeeds]) (simp_all add: quiet_def starts_inside_def)

end
