(* ===== verification/Metadata.thy ===== *)
theory Metadata
  imports Strings
begin

text \<open>
  The tag model (rust\_backend/crates/core/src/tags.rs) and the interpretation of Vorbis and APE
  comments (rust\_backend/crates/core/src/tags/comments.rs).  Strings are their UTF-8 bytes.
\<close>

section \<open>Numbers and flags in tags\<close>

text \<open>\<^verbatim>\<open>isize\<close> is 64 bits wide.\<close>

definition number :: "bytes \<Rightarrow> int" where
  "number value =
     (case parse_i64 (trim value) of
        Inr n \<Rightarrow> n
      | Inl PosOverflow \<Rightarrow> i64_max
      | Inl NegOverflow \<Rightarrow> i64_min
      | Inl _ \<Rightarrow> 0)"

definition pair :: "bytes \<Rightarrow> int \<times> int" where
  "pair value =
     (let v = trim value in
      case position ((=) CHR ''/'') v of
        Some i \<Rightarrow> if 0 < i then (number (take i v), number (drop (i + 1) v)) else (number v, 0)
      | None \<Rightarrow> (number v, 0))"

definition truthy :: "bytes \<Rightarrow> bool" where
  "truthy value = (map ascii_lower (trim value) \<in> set [''1'', ''true'', ''yes'', ''explicit''])"

section \<open>The tag record\<close>

record audio_metadata =
  am_title :: bytes
  am_artist :: bytes
  am_album :: bytes
  am_album_artist :: bytes
  am_genre :: bytes
  am_year :: bytes
  am_date :: bytes
  am_track_number :: int
  am_total_tracks :: int
  am_disc_number :: int
  am_total_discs :: int
  am_isrc :: bytes
  am_lyrics :: bytes
  am_label :: bytes
  am_copyright :: bytes
  am_composer :: bytes
  am_comment :: bytes
  am_album_type :: bytes
  am_explicit :: bool
  am_upc :: bytes
  am_track_gain :: bytes
  am_track_peak :: bytes
  am_album_gain :: bytes
  am_album_peak :: bytes

definition no_metadata :: audio_metadata where
  "no_metadata = \<lparr>am_title = [], am_artist = [], am_album = [], am_album_artist = [], am_genre = [],
     am_year = [], am_date = [], am_track_number = 0, am_total_tracks = 0, am_disc_number = 0,
     am_total_discs = 0, am_isrc = [], am_lyrics = [], am_label = [], am_copyright = [], am_composer = [],
     am_comment = [], am_album_type = [], am_explicit = False, am_upc = [], am_track_gain = [],
     am_track_peak = [], am_album_gain = [], am_album_peak = []\<rparr>"

section \<open>Vorbis comment blocks\<close>

type_synonym item = "bytes \<times> bytes"

fun parse_entries :: "bytes \<Rightarrow> nat \<Rightarrow> nat \<Rightarrow> nat \<Rightarrow> item list" where
  "parse_entries data max_comment 0 offset = []"
| "parse_entries data max_comment (Suc n) offset =
     (case get_range data offset (sat_add offset 4) of
        None \<Rightarrow> []
      | Some len_bytes \<Rightarrow>
          let len = get_le len_bytes; start = offset + 4 in
          case get_range data start (sat_add start len) of
            None \<Rightarrow> []
          | Some value \<Rightarrow>
              let rest = parse_entries data max_comment n (start + len) in
              if len \<le> max_comment
              then case position ((=) CHR ''='') value of
                  None \<Rightarrow> rest
                | Some i \<Rightarrow> (utf8 (take i value), utf8 (drop (i + 1) value)) # rest
              else rest)"

definition parse_block :: "bytes \<Rightarrow> nat \<Rightarrow> item list" where
  "parse_block data max_comment =
     (case get_range data 0 4 of
        None \<Rightarrow> []
      | Some vendor_bytes \<Rightarrow>
          let e = get_le vendor_bytes + 8 in
          case get_range data (e - 4) e of
            None \<Rightarrow> []
          | Some count_bytes \<Rightarrow>
              let count = get_le count_bytes
              in parse_entries data max_comment
                   (if max_comment = usize_max then count else min count 100) e)"

text \<open>Distinct trimmed values, compared without case, joined with commas.\<close>

fun distinct_folded :: "case_tables \<Rightarrow> bytes list \<Rightarrow> bytes list \<Rightarrow> bytes list" where
  "distinct_folded T seen [] = []"
| "distinct_folded T seen (v # vs) =
     (if v \<noteq> [] \<and> lowercase T v \<notin> set seen then v # distinct_folded T (lowercase T v # seen) vs
      else distinct_folded T seen vs)"

definition joined :: "case_tables \<Rightarrow> bytes list \<Rightarrow> bytes" where
  "joined T vs = join '', '' (distinct_folded T [] (map trim vs))"

section \<open>FLAC comments\<close>

definition tag_values :: "case_tables \<Rightarrow> item list \<Rightarrow> bytes \<Rightarrow> bytes list" where
  "tag_values T items name = map snd (filter (\<lambda>(k, _). length k = length name \<and> uppercase T k = name) items)"

definition first_value :: "case_tables \<Rightarrow> item list \<Rightarrow> bytes \<Rightarrow> bytes" where
  "first_value T items name = (case tag_values T items name of [] \<Rightarrow> [] | v # _ \<Rightarrow> v)"

definition find_or_empty :: "(bytes \<Rightarrow> bool) \<Rightarrow> bytes list \<Rightarrow> bytes" where
  "find_or_empty p vs = (case filter p vs of [] \<Rightarrow> [] | v # _ \<Rightarrow> v)"

text \<open>The loop over \<^verbatim>\<open>TRACKNUMBER\<close> and \<^verbatim>\<open>TRACK\<close>, and over the disc names.\<close>

definition index_of :: "(bytes \<Rightarrow> bytes) \<Rightarrow> bytes \<Rightarrow> bytes \<Rightarrow> int \<times> int \<Rightarrow> int \<times> int" where
  "index_of g name alias old =
     (let first = (if g name \<noteq> [] then pair (g name) else old)
      in if fst first \<noteq> 0 then first
         else if g alias \<noteq> [] then pair (g alias) else first)"

definition flac_comments :: "case_tables \<Rightarrow> audio_metadata \<Rightarrow> item list \<Rightarrow> audio_metadata" where
  "flac_comments T m items =
     (let g = first_value T items;
          date = g ''DATE'';
          track = index_of g ''TRACKNUMBER'' ''TRACK'' (am_track_number m, am_total_tracks m);
          disc = index_of g ''DISCNUMBER'' ''DISC'' (am_disc_number m, am_total_discs m);
          album_type = g ''RELEASETYPE'';
          upc = g ''BARCODE''
      in m\<lparr>am_title := g ''TITLE'',
           am_artist := joined T (tag_values T items ''ARTIST''),
           am_album := g ''ALBUM'',
           am_album_artist := find_or_empty (\<lambda>v. v \<noteq> [])
             (map (\<lambda>n. joined T (tag_values T items n)) [''ALBUMARTIST'', ''ALBUM ARTIST'', ''ALBUM_ARTIST'']),
           am_date := (if date = [] then g ''YEAR'' else date),
           am_isrc := g ''ISRC'',
           am_lyrics := find_or_empty (\<lambda>v. trim v \<noteq> []) (map g [''LYRICS'', ''UNSYNCEDLYRICS'', ''SYNCEDLYRICS'']),
           am_track_number := fst track, am_total_tracks := snd track,
           am_disc_number := fst disc, am_total_discs := snd disc,
           am_genre := g ''GENRE'',
           am_label := find_or_empty (\<lambda>v. v \<noteq> []) (map g [''ORGANIZATION'', ''LABEL'', ''PUBLISHER'']),
           am_copyright := g ''COPYRIGHT'',
           am_composer := g ''COMPOSER'',
           am_comment := g ''COMMENT'',
           am_explicit := truthy (g ''ITUNESADVISORY''),
           am_album_type := (if album_type = [] \<and> truthy (g ''COMPILATION'') then ''compilation'' else album_type),
           am_upc := (if upc = [] then g ''UPC'' else upc),
           am_track_gain := g ''REPLAYGAIN_TRACK_GAIN'',
           am_track_peak := g ''REPLAYGAIN_TRACK_PEAK'',
           am_album_gain := g ''REPLAYGAIN_ALBUM_GAIN'',
           am_album_peak := g ''REPLAYGAIN_ALBUM_PEAK''\<rparr>)"

section \<open>Ogg and APE comments\<close>

text \<open>
  \<^verbatim>\<open>format!("{:.2} dB", f64::from(value) / 256.0 + 5.0)\<close>: the sum is exact, and formatting
  rounds to hundredths, ties to even.
\<close>

definition hundredths :: "nat \<Rightarrow> nat" where
  "hundredths n =
     (let q = n * 100 div 256; r = n * 100 mod 256
      in if r < 128 then q else if 128 < r then q + 1 else if even q then q else q + 1)"

definition show_gain :: "int \<Rightarrow> bytes" where
  "show_gain value =
     (let n = value + 1280; h = hundredths (nat \<bar>n\<bar>)
      in (if n < 0 then ''-'' else []) @ show_nat (h div 100) @ ''.'' @
         [char_of (48 + h mod 100 div 10), char_of (48 + h mod 10)] @ '' dB'')"

abbreviation parse_i16 :: "bytes \<Rightarrow> int_error + int" where
  "parse_i16 \<equiv> parse_int (- 32768) 32767"

definition r128 :: "bytes \<Rightarrow> bytes \<Rightarrow> bytes" where
  "r128 old value =
     (if old \<noteq> [] then old
      else case parse_i16 (trim value) of Inl _ \<Rightarrow> old | Inr n \<Rightarrow> show_gain n)"

definition apply_comment :: "case_tables \<Rightarrow> audio_metadata \<Rightarrow> bytes \<Rightarrow> bytes \<Rightarrow> bool \<Rightarrow> audio_metadata" where
  "apply_comment T m raw_key raw_value ape =
     (let key = uppercase T (if ape then trim raw_key else raw_key);
          value = (if ape then trim raw_value else raw_value)
      in if ape \<and> value = [] then m
         else if key = ''TITLE'' then m\<lparr>am_title := value\<rparr>
         else if key = ''ARTIST'' then m\<lparr>am_artist := value\<rparr>
         else if key = ''ALBUM'' then m\<lparr>am_album := value\<rparr>
         else if key \<in> set [''ALBUMARTIST'', ''ALBUM ARTIST''] then m\<lparr>am_album_artist := value\<rparr>
         else if key = ''ALBUM_ARTIST'' \<and> \<not> ape then m\<lparr>am_album_artist := value\<rparr>
         else if key \<in> set [''DATE'', ''YEAR''] then
           (if ape then (if key = ''YEAR'' then m\<lparr>am_year := value\<rparr> else m\<lparr>am_date := value\<rparr>)
            else if 4 \<le> length value then m\<lparr>am_date := value, am_year := utf8 (take 4 value)\<rparr>
            else m\<lparr>am_date := value\<rparr>)
         else if key = ''GENRE'' then m\<lparr>am_genre := value\<rparr>
         else if key \<in> set [''TRACK'', ''TRACKNUMBER''] then
           m\<lparr>am_track_number := fst (pair value), am_total_tracks := snd (pair value)\<rparr>
         else if key \<in> set [''DISC'', ''DISCNUMBER''] then
           m\<lparr>am_disc_number := fst (pair value), am_total_discs := snd (pair value)\<rparr>
         else if key = ''ISRC'' then m\<lparr>am_isrc := value\<rparr>
         else if key = ''COMPOSER'' then m\<lparr>am_composer := value\<rparr>
         else if key = ''COMMENT'' then m\<lparr>am_comment := value\<rparr>
         else if key = ''DESCRIPTION'' \<and> \<not> ape then m\<lparr>am_comment := value\<rparr>
         else if key \<in> set [''LYRICS'', ''UNSYNCEDLYRICS'', ''SYNCEDLYRICS''] \<and> am_lyrics m = [] then
           m\<lparr>am_lyrics := value\<rparr>
         else if key \<in> set [''LABEL'', ''PUBLISHER''] then m\<lparr>am_label := value\<rparr>
         else if key = ''ORGANIZATION'' \<and> \<not> ape then m\<lparr>am_label := value\<rparr>
         else if key = ''COPYRIGHT'' then m\<lparr>am_copyright := value\<rparr>
         else if key = ''ITUNESADVISORY'' then m\<lparr>am_explicit := truthy value\<rparr>
         else if key = ''RELEASETYPE'' then m\<lparr>am_album_type := value\<rparr>
         else if key \<in> set [''BARCODE'', ''UPC''] then m\<lparr>am_upc := value\<rparr>
         else if key = ''COMPILATION'' \<and> truthy value \<and> am_album_type m = [] then
           m\<lparr>am_album_type := ''compilation''\<rparr>
         else if key = ''REPLAYGAIN_TRACK_GAIN'' then m\<lparr>am_track_gain := value\<rparr>
         else if key = ''REPLAYGAIN_TRACK_PEAK'' then m\<lparr>am_track_peak := value\<rparr>
         else if key = ''REPLAYGAIN_ALBUM_GAIN'' then m\<lparr>am_album_gain := value\<rparr>
         else if key = ''REPLAYGAIN_ALBUM_PEAK'' then m\<lparr>am_album_peak := value\<rparr>
         else if key = ''R128_TRACK_GAIN'' \<and> \<not> ape then m\<lparr>am_track_gain := r128 (am_track_gain m) value\<rparr>
         else if key = ''R128_ALBUM_GAIN'' \<and> \<not> ape then m\<lparr>am_album_gain := r128 (am_album_gain m) value\<rparr>
         else m)"

definition ape_keys :: "bytes list" where
  "ape_keys = [''TITLE'', ''ARTIST'', ''ALBUM'', ''ALBUMARTIST'', ''ALBUM ARTIST'', ''GENRE'', ''YEAR'',
     ''DATE'', ''TRACK'', ''TRACKNUMBER'', ''DISC'', ''DISCNUMBER'', ''ISRC'', ''LYRICS'',
     ''UNSYNCEDLYRICS'', ''SYNCEDLYRICS'', ''LABEL'', ''PUBLISHER'', ''COPYRIGHT'', ''COMPOSER'',
     ''COMMENT'', ''ITUNESADVISORY'', ''RELEASETYPE'', ''BARCODE'', ''UPC'', ''COMPILATION'',
     ''REPLAYGAIN_TRACK_GAIN'', ''REPLAYGAIN_TRACK_PEAK'', ''REPLAYGAIN_ALBUM_GAIN'',
     ''REPLAYGAIN_ALBUM_PEAK'']"

definition ape_key :: "case_tables \<Rightarrow> bytes \<Rightarrow> bool" where
  "ape_key T key = (uppercase T (trim key) \<in> set ape_keys)"

definition is_album_artist :: "bytes \<Rightarrow> bool" where
  "is_album_artist k = (k \<in> set [''ALBUMARTIST'', ''ALBUM_ARTIST'', ''ALBUM ARTIST''])"

definition ogg_comments :: "case_tables \<Rightarrow> item list \<Rightarrow> audio_metadata" where
  "ogg_comments T items =
     (let artists = map snd (filter (\<lambda>(k, _). uppercase T k = ''ARTIST'') items);
          album_artists = map snd (filter (\<lambda>(k, _). is_album_artist (uppercase T k)) items);
          others = filter (\<lambda>(k, _). uppercase T k \<noteq> ''ARTIST'' \<and> \<not> is_album_artist (uppercase T k)) items;
          m = foldl (\<lambda>m (k, v). apply_comment T m k v False) no_metadata others;
          m1 = (if artists \<noteq> [] then m\<lparr>am_artist := joined T artists\<rparr> else m)
      in if album_artists \<noteq> [] then m1\<lparr>am_album_artist := joined T album_artists\<rparr> else m1)"

end
