(* ===== verification/Vorbis.thy ===== *)
theory Vorbis
  imports Metadata Reader BTree
begin

text \<open>
  Editing Vorbis comments (the comment part of rust\_backend/crates/core/src/tags/write.rs), shared
  by the FLAC and Ogg writers.  The artist-splitting regular expression is the parameter \<open>rx\<close>.
\<close>

type_synonym tag_fields = "(bytes, bytes) btree"

definition max_tag_bytes :: nat where "max_tag_bytes = 64 * 1024 * 1024"

section \<open>Fields\<close>

definition gain_fields :: "bytes list" where
  "gain_fields = [''replaygain_track_gain'', ''replaygain_track_peak'', ''replaygain_album_gain'',
     ''replaygain_album_peak'']"

definition clears_replay_gain :: "tag_fields \<Rightarrow> bool" where
  "clears_replay_gain fs = list_all (\<lambda>k. case bt_get fs k of None \<Rightarrow> False | Some v \<Rightarrow> trim v = []) gain_fields"

definition validate_fields :: "tag_fields \<Rightarrow> unit res" where
  "validate_fields fs =
     (let n = foldl (\<lambda>n (k, v). n + length k + length v) 0 fs
      in if usize_max < n \<or> max_tag_bytes < n then Inl ''tag edit fields exceed 64 MiB'' else Inr ())"

definition edit_index :: "int \<times> int \<Rightarrow> tag_fields \<Rightarrow> bytes \<Rightarrow> bytes \<Rightarrow> bytes" where
  "edit_index current fs key total_key =
     (let num = (case bt_get fs key of None \<Rightarrow> fst current | Some v \<Rightarrow> unwrap_or (parse_i64 (trim v)) 0);
          tot = (case bt_get fs total_key of None \<Rightarrow> snd current | Some v \<Rightarrow> unwrap_or (parse_i64 (trim v)) 0)
      in if num \<le> 0 then []
         else if 0 < tot then show_int num @ ''/'' @ show_int tot
         else show_int num)"

text \<open>The regular expression of \<^verbatim>\<open>metadata_fields\<close>, an optional sign and digits at the start.\<close>

definition integer_prefix :: "bytes \<Rightarrow> bytes option" where
  "integer_prefix s =
     (let (sign, rest) = (case s of c # cs \<Rightarrow> if c = CHR ''+'' \<or> c = CHR ''-'' then ([c], cs) else ([], s) | [] \<Rightarrow> ([], []));
          ds = takeWhile is_digit rest
      in if ds = [] then None else Some (sign @ ds))"

definition string_fields :: "(bytes \<times> (audio_metadata \<Rightarrow> bytes)) list" where
  "string_fields =
    [(''title'', am_title), (''artist'', am_artist), (''album'', am_album), (''album_artist'', am_album_artist),
     (''date'', am_date), (''genre'', am_genre), (''composer'', am_composer), (''label'', am_label),
     (''copyright'', am_copyright), (''isrc'', am_isrc), (''lyrics'', am_lyrics), (''comment'', am_comment),
     (''album_type'', am_album_type), (''upc'', am_upc), (''replaygain_track_gain'', am_track_gain),
     (''replaygain_track_peak'', am_track_peak), (''replaygain_album_gain'', am_album_gain),
     (''replaygain_album_peak'', am_album_peak)]"

definition number_fields :: "(bytes \<times> (audio_metadata \<Rightarrow> int)) list" where
  "number_fields = [(''track_number'', am_track_number), (''track_total'', am_total_tracks),
     (''disc_number'', am_disc_number), (''disc_total'', am_total_discs)]"

definition metadata_fields :: "audio_metadata \<Rightarrow> tag_fields \<Rightarrow> tag_fields" where
  "metadata_fields m fs =
     (let r1 = foldl (\<lambda>r (f, g). bt_insert f (case bt_get fs f of None \<Rightarrow> g m | Some v \<Rightarrow> v) r) [] string_fields;
          r2 = foldl (\<lambda>r (f, g). bt_insert f (show_int
                 (case bt_get fs f of
                    None \<Rightarrow> g m
                  | Some v \<Rightarrow> (case integer_prefix (trim v) of None \<Rightarrow> 0 | Some n \<Rightarrow> unwrap_or (parse_i64 n) 0))) r)
               r1 number_fields;
          explicit = (case bt_get fs ''explicit'' of None \<Rightarrow> am_explicit m | Some v \<Rightarrow> truthy v);
          r3 = bt_insert ''explicit'' (if explicit then ''1'' else []) r2;
          compilation = eq_ignore_ascii_case (trim (the (bt_get r3 ''album_type''))) ''compilation''
      in bt_insert ''compilation'' (if compilation then ''1'' else []) r3)"

fun distinct_parts :: "case_tables \<Rightarrow> bytes list \<Rightarrow> bytes list \<Rightarrow> bytes list" where
  "distinct_parts T seen [] = []"
| "distinct_parts T seen (v # vs) =
     (if lowercase T v \<notin> set seen then v # distinct_parts T (lowercase T v # seen) vs
      else distinct_parts T seen vs)"

definition split_artists :: "(bytes \<Rightarrow> bytes list) \<Rightarrow> case_tables \<Rightarrow> bytes \<Rightarrow> bytes list" where
  "split_artists rx T raw =
     (let value = trim raw in
      if value = [] then []
      else let result = distinct_parts T [] (filter (\<lambda>v. v \<noteq> []) (map trim (rx value)))
           in if result = [] then [value] else result)"

section \<open>Comment blocks\<close>

definition put_string :: "bytes \<Rightarrow> bytes" where "put_string s = put_le32 (length s) @ s"

definition comment_block :: "bytes \<Rightarrow> bytes list \<Rightarrow> bytes" where
  "comment_block vendor comments =
     put_string vendor @ put_le32 (length comments) @ concat (map put_string comments)"

definition get_string :: "bytes \<Rightarrow> nat \<Rightarrow> (bytes \<times> nat) res" where
  "get_string data p =
     bind_res (read_bytes data 4 p) (\<lambda>(n, q).
       if length data - q < get_le n then Inl ''truncated Vorbis comment''
       else read_bytes data (get_le n) q)"

fun get_strings :: "bytes \<Rightarrow> nat \<Rightarrow> nat \<Rightarrow> (bytes list \<times> nat) res" where
  "get_strings data 0 p = Inr ([], p)"
| "get_strings data (Suc n) p =
     bind_res (get_string data p) (\<lambda>(s, q).
     bind_res (get_strings data n q) (\<lambda>(ss, r). Inr (s # ss, r)))"

definition parse_comments :: "bytes \<Rightarrow> (bytes \<times> bytes list) res" where
  "parse_comments data =
     bind_res (get_string data 0) (\<lambda>(vendor, p).
     bind_res (read_bytes data 4 p) (\<lambda>(count, q).
     bind_res (get_strings data (get_le count) q) (\<lambda>(comments, _). Inr (vendor, comments))))"

definition comment_key :: "case_tables \<Rightarrow> bytes \<Rightarrow> bytes" where
  "comment_key T c =
     (case position ((=) CHR ''='') c of
        Some i \<Rightarrow> if 0 < i then uppercase T (from_utf8_lossy (take i c)) else []
      | None \<Rightarrow> [])"

definition set_comment :: "case_tables \<Rightarrow> bytes \<Rightarrow> bytes \<Rightarrow> bytes list \<Rightarrow> bytes list" where
  "set_comment T key value comments =
     (let kept = filter (\<lambda>c. comment_key T c \<noteq> key) comments
      in if value \<noteq> [] then kept @ [key @ ''='' @ value] else kept)"

definition get_comment :: "case_tables \<Rightarrow> bytes list \<Rightarrow> bytes \<Rightarrow> bytes" where
  "get_comment T comments key =
     (case filter (\<lambda>c. comment_key T c = key) comments of
        [] \<Rightarrow> []
      | c # _ \<Rightarrow> from_utf8_lossy (drop (length key + 1) c))"

section \<open>Editing\<close>

definition simple_keys :: "(bytes \<times> bytes) list" where
  "simple_keys =
    [(''title'', ''TITLE''), (''album'', ''ALBUM''), (''date'', ''DATE''), (''isrc'', ''ISRC''),
     (''genre'', ''GENRE''), (''label'', ''ORGANIZATION''), (''copyright'', ''COPYRIGHT''),
     (''composer'', ''COMPOSER''), (''comment'', ''COMMENT''), (''explicit'', ''ITUNESADVISORY''),
     (''album_type'', ''RELEASETYPE''), (''upc'', ''BARCODE''), (''barcode'', ''BARCODE''),
     (''compilation'', ''COMPILATION''), (''replaygain_track_gain'', ''REPLAYGAIN_TRACK_GAIN''),
     (''replaygain_track_peak'', ''REPLAYGAIN_TRACK_PEAK''), (''replaygain_album_gain'', ''REPLAYGAIN_ALBUM_GAIN''),
     (''replaygain_album_peak'', ''REPLAYGAIN_ALBUM_PEAK'')]"

definition alias_keys :: "(bytes \<times> bytes list) list" where
  "alias_keys = [(''label'', [''LABEL'', ''PUBLISHER'']), (''date'', [''YEAR''])]"

definition clear_comments :: "case_tables \<Rightarrow> bytes list \<Rightarrow> bytes list \<Rightarrow> bytes list" where
  "clear_comments T keys comments = foldl (\<lambda>cs k. set_comment T k [] cs) comments keys"

definition add_artists :: "bytes \<Rightarrow> bytes list \<Rightarrow> bytes list \<Rightarrow> bytes list" where
  "add_artists key new_values comments =
     comments @ map (\<lambda>v. key @ ''='' @ v) (filter (\<lambda>v. trim v \<noteq> []) new_values)"

definition artist_values :: "(bytes \<Rightarrow> bytes list) \<Rightarrow> case_tables \<Rightarrow> bytes option \<Rightarrow> bytes \<Rightarrow> bytes list" where
  "artist_values rx T mode value =
     (if (case mode of None \<Rightarrow> False | Some m \<Rightarrow> eq_ignore_ascii_case (trim m) ''split_vorbis'')
      then split_artists rx T value else [value])"

definition edit_artist ::
    "(bytes \<Rightarrow> bytes list) \<Rightarrow> case_tables \<Rightarrow> tag_fields \<Rightarrow> bytes \<Rightarrow> bytes \<Rightarrow> bytes list \<Rightarrow> bytes list" where
  "edit_artist rx T fs field key comments =
     (case bt_get fs field of
        None \<Rightarrow> comments
      | Some value \<Rightarrow>
          let cs = add_artists key (artist_values rx T (bt_get fs ''artist_tag_mode'') value)
                     (set_comment T key [] comments)
          in if field = ''album_artist'' then clear_comments T [''ALBUM ARTIST'', ''ALBUM_ARTIST''] cs else cs)"

definition edit_number ::
    "case_tables \<Rightarrow> tag_fields \<Rightarrow> bytes \<times> bytes \<times> bytes \<times> bytes \<Rightarrow> bytes list \<Rightarrow> bytes list" where
  "edit_number T fs = (\<lambda>(field, total_field, key, alias) comments.
     if bt_get fs field \<noteq> None \<or> bt_get fs total_field \<noteq> None then
       let c1 = pair (get_comment T comments key);
           current = (if c1 = (0, 0) then pair (get_comment T comments alias) else c1)
       in set_comment T alias [] (set_comment T key (edit_index current fs field total_field) comments)
     else comments)"

definition edit_simple :: "case_tables \<Rightarrow> tag_fields \<Rightarrow> bytes list \<Rightarrow> bytes list" where
  "edit_simple T fs comments =
     foldl (\<lambda>cs (field, key). case bt_get fs field of None \<Rightarrow> cs | Some v \<Rightarrow> set_comment T key v cs)
       comments simple_keys"

definition clear_aliases :: "case_tables \<Rightarrow> tag_fields \<Rightarrow> bytes list \<Rightarrow> bytes list" where
  "clear_aliases T fs comments =
     foldl (\<lambda>cs (field, aliases). if bt_get fs field \<noteq> None then clear_comments T aliases cs else cs)
       comments alias_keys"

definition edit_lyrics :: "case_tables \<Rightarrow> tag_fields \<Rightarrow> bytes list \<Rightarrow> bytes list" where
  "edit_lyrics T fs comments =
     (case bt_get fs ''lyrics'' of
        None \<Rightarrow> comments
      | Some v \<Rightarrow> set_comment T ''UNSYNCEDLYRICS'' v (set_comment T ''LYRICS'' v
                   (set_comment T ''SYNCEDLYRICS'' [] comments)))"

definition edit_comments ::
    "(bytes \<Rightarrow> bytes list) \<Rightarrow> case_tables \<Rightarrow> tag_fields \<Rightarrow> bytes list \<Rightarrow> bytes list" where
  "edit_comments rx T fs comments =
     (let c1 = clear_aliases T fs (edit_simple T fs comments);
          c2 = edit_artist rx T fs ''artist'' ''ARTIST'' c1;
          c3 = edit_artist rx T fs ''album_artist'' ''ALBUMARTIST'' c2;
          c4 = edit_number T fs (''track_number'', ''track_total'', ''TRACKNUMBER'', ''TRACK'') c3;
          c5 = edit_number T fs (''disc_number'', ''disc_total'', ''DISCNUMBER'', ''DISC'') c4
      in edit_lyrics T fs c5)"

section \<open>Blocks are read back\<close>

definition short :: "bytes \<Rightarrow> bool" where "short s \<longleftrightarrow> length s < 2 ^ 32"

text \<open>What can be written: every length and the number of comments fit into 32 bits.\<close>

definition block_fits :: "bytes \<Rightarrow> bytes list \<Rightarrow> bool" where
  "block_fits vendor comments \<longleftrightarrow> short vendor \<and> length comments < 2 ^ 32 \<and> list_all short comments"

lemma length_put_string [simp, lens]: "length (put_string s) = 4 + length s"
  by (simp add: put_string_def)

lemma get_string_append [codec]:
  "short s \<Longrightarrow> p = length pre \<Longrightarrow> get_string (pre @ put_string s @ post) p = Inr (s, p + 4 + length s)"
  using read_bytes_append [of "length pre" pre 4 "put_le32 (length s)" "s @ post"]
    read_bytes_append [of "length pre + 4" "pre @ put_le32 (length s)" "length s" s post]
  by (simp add: get_string_def put_string_def short_def)

lemma get_strings_append [codec]:
  "list_all short cs \<Longrightarrow> p = length pre \<Longrightarrow>
     get_strings (pre @ concat (map put_string cs) @ post) (length cs) p =
       Inr (cs, p + length (concat (map put_string cs)))"
proof (induction cs arbitrary: pre p)
  case Nil
  then show ?case by simp
next
  case (Cons c cs)
  have "get_strings ((pre @ put_string c) @ concat (map put_string cs) @ post) (length cs) (length (pre @ put_string c)) =
      Inr (cs, length (pre @ put_string c) + length (concat (map put_string cs)))"
    using Cons by (intro Cons.IH) auto
  moreover have "get_string (pre @ put_string c @ concat (map put_string cs) @ post) (length pre) =
      Inr (c, length pre + 4 + length c)"
    using Cons.prems by (intro get_string_append) auto
  ultimately show ?case using Cons.prems by (simp add: ac_simps)
qed

lemma parse_comment_block: "block_fits v cs \<Longrightarrow> parse_comments (comment_block v cs @ rest) = Inr (v, cs)"
proof -
  assume f: "block_fits v cs"
  let ?tail = "concat (map put_string cs) @ rest"
  have "get_string ([] @ put_string v @ put_le32 (length cs) @ ?tail) 0 = Inr (v, 4 + length v)"
    using f get_string_append [of v 0 "[]"] by (simp add: block_fits_def)
  moreover have "read_bytes (put_string v @ put_le32 (length cs) @ ?tail) 4 (4 + length v) =
      Inr (put_le32 (length cs), 4 + length v + 4)"
    by (intro read_bytes_append) auto
  moreover have "get_strings ((put_string v @ put_le32 (length cs)) @ concat (map put_string cs) @ rest) (length cs)
      (4 + length v + 4) = Inr (cs, 4 + length v + 4 + length (concat (map put_string cs)))"
    using f by (intro get_strings_append) (auto simp: block_fits_def)
  ultimately show ?thesis using f by (simp add: parse_comments_def comment_block_def block_fits_def)
qed

text \<open>Whatever is parsed is a block of the written form, with trailing bytes that are dropped.\<close>

lemma get_string_Inr: "get_string d p = Inr (s, q) \<Longrightarrow> p \<le> length d \<Longrightarrow>
  q \<le> length d \<and> short s \<and> slice d p q = put_string s \<and> p \<le> q"
proof -
  assume h: "get_string d p = Inr (s, q)" and p: "p \<le> length d"
  then obtain n r where n: "read_bytes d 4 p = Inr (n, r)" "get_le n \<le> length d - r"
      "read_bytes d (get_le n) r = Inr (s, q)"
    by (auto simp: get_string_def bind_res_Inr split: if_splits)
  then have r: "r = p + 4" "p + 4 \<le> length d" "n = slice d p (p + 4)" by (auto simp: read_bytes_Inr)
  then have ln: "length n = 4" by simp
  have q: "q = p + 4 + get_le n" "q \<le> length d" "s = slice d (p + 4) q" "length s = get_le n"
    using n r by (auto simp: read_bytes_Inr slice_def)
  have "slice d p q = n @ s"
    using q r by (simp add: slice_def) (metis add.commute take_add drop_drop add.left_commute)
  moreover have "n = put_le32 (get_le n)" using put_get_le [of n] ln by simp
  ultimately show ?thesis using q get_le4_bound [OF ln] by (simp add: put_string_def short_def)
qed


lemma slice_join: "p \<le> q \<Longrightarrow> q \<le> r \<Longrightarrow> slice d p q @ slice d q r = slice d p r"
proof -
  assume "p \<le> q" "q \<le> r"
  then have "r - p = (q - p) + (r - q)" and "drop q d = drop (q - p) (drop p d)" by simp_all
  then show ?thesis by (simp add: slice_def take_add)
qed

lemma get_strings_Inr: "get_strings d n p = Inr (cs, q) \<Longrightarrow> p \<le> length d \<Longrightarrow>
  q \<le> length d \<and> length cs = n \<and> list_all short cs \<and> slice d p q = concat (map put_string cs) \<and> p \<le> q"
proof (induction n arbitrary: p cs)
  case 0
  then show ?case by (auto simp: slice_def)
next
  case (Suc n)
  from Suc.prems obtain s r ss where s: "get_string d p = Inr (s, r)" "get_strings d n r = Inr (ss, q)" "cs = s # ss"
    by (auto simp: bind_res_Inr)
  from get_string_Inr [OF s(1) Suc.prems(2)] Suc.IH [OF s(2)]
  have "r \<le> length d" "short s" "slice d p r = put_string s" "p \<le> r" "q \<le> length d" "length ss = n"
    "list_all short ss" "slice d r q = concat (map put_string ss)" "r \<le> q" by auto
  with s show ?case using slice_join [of p r q d] by simp
qed

lemma parse_comments_Inr:
  assumes "parse_comments d = Inr (v, cs)"
  shows "block_fits v cs \<and> (\<exists>rest. d = comment_block v cs @ rest)"
proof -
  from assms obtain p n q r where h: "get_string d 0 = Inr (v, p)" "read_bytes d 4 p = Inr (n, q)"
      "get_strings d (get_le n) q = Inr (cs, r)"
    by (auto simp: parse_comments_def bind_res_Inr)
  have v: "p \<le> length d" "short v" "slice d 0 p = put_string v" using get_string_Inr [OF h(1)] by auto
  have n: "q = p + 4" "q \<le> length d" "n = slice d p q" "length n = 4"
    using h(2) by (auto simp: read_bytes_Inr)
  have cs: "r \<le> length d" "length cs = get_le n" "list_all short cs" "slice d q r = concat (map put_string cs)" "q \<le> r"
    using get_strings_Inr [OF h(3) n(2)] by auto
  have "n = put_le32 (length cs)" using put_get_le [of n] n(4) cs(2) by simp
  then have "slice d 0 r = comment_block v cs"
    using slice_join [of 0 p r d] slice_join [of p q r d] v n cs by (simp add: comment_block_def)
  then have "d = comment_block v cs @ drop r d" by (metis append_take_drop_id diff_zero drop0 slice_def)
  then show ?thesis using v cs get_le4_bound [OF n(4)] by (auto simp: block_fits_def)
qed

text \<open>
  C24.  The comment parser accepts exactly what the comment writer produces: a block yields a vendor
  and comments if and only if it starts with the serialization of that vendor and those comments
  and every length is below 2^32; what follows is dropped.
\<close>

theorem parse_comments_exact:
  "parse_comments d = Inr (v, cs) \<longleftrightarrow> block_fits v cs \<and> (\<exists>rest. d = comment_block v cs @ rest)"
  using parse_comment_block parse_comments_Inr by metis

section \<open>Setting and getting a comment\<close>

text \<open>The keys of the program are ASCII, upper case and contain no \<^verbatim>\<open>=\<close>.\<close>

definition tag_key :: "bytes \<Rightarrow> bool" where
  "tag_key k \<longleftrightarrow> k \<noteq> [] \<and> list_all (\<lambda>b. u8 b < 128 \<and> b \<noteq> CHR ''='' \<and> ascii_upper b = b) k"

lemma tag_keyD: "tag_key k \<Longrightarrow> k \<noteq> [] \<and> ascii_str k \<and> CHR ''='' \<notin> set k \<and> map ascii_upper k = k"
  by (auto simp: tag_key_def ascii_str_def list_all_iff map_idI)

lemma position_key: "CHR ''='' \<notin> set k \<Longrightarrow> position ((=) CHR ''='') (k @ CHR ''='' # v) = Some (length k)"
  by (rule position_append) auto

lemma comment_key_put: "tag_key k \<Longrightarrow> comment_key T (k @ CHR ''='' # v) = k"
  by (simp add: comment_key_def position_key tag_keyD uppercase_ascii from_utf8_lossy_valid ascii_utf8)

lemma comment_key_blank: "comment_key T c \<noteq> [] \<Longrightarrow> CHR ''='' \<in> set c"
  by (cases "position ((=) CHR ''='') c") (simp_all add: comment_key_def position_None, metis nth_mem position_Some)

lemma set_comment_frame:
  "tag_key k \<Longrightarrow> \<not> P k \<Longrightarrow>
     filter (\<lambda>c. P (comment_key T c)) (set_comment T k v cs) = filter (\<lambda>c. P (comment_key T c)) cs"
proof -
  assume "tag_key k" "\<not> P k"
  moreover from \<open>\<not> P k\<close> have "(P (comment_key T c) \<and> comment_key T c \<noteq> k) = P (comment_key T c)" for c by metis
  ultimately show ?thesis by (simp add: set_comment_def Let_def comment_key_put conj_commute)
qed

lemma set_comment_keys: "tag_key k \<Longrightarrow>
  filter (\<lambda>c. comment_key T c = k) (set_comment T k v cs) = (if v = [] then [] else [k @ CHR ''='' # v])"
  by (simp add: set_comment_def Let_def comment_key_put)

lemma get_set_comment: "tag_key k \<Longrightarrow> is_utf8 v \<Longrightarrow> get_comment T (set_comment T k v cs) k = v"
  by (simp add: get_comment_def set_comment_keys from_utf8_lossy_valid)

lemma get_set_other: "tag_key k \<Longrightarrow> k \<noteq> k' \<Longrightarrow> get_comment T (set_comment T k v cs) k' = get_comment T cs k'"
  using set_comment_frame [of k "\<lambda>x. x = k'" T v cs] by (simp add: get_comment_def)


section \<open>What an edit leaves alone\<close>

text \<open>The comment keys that an edit may write or remove.\<close>

definition edited_keys :: "tag_fields \<Rightarrow> bytes list" where
  "edited_keys fs =
     (let given = (\<lambda>f. bt_get fs f \<noteq> None)
      in map snd (filter (\<lambda>(f, _). given f) simple_keys)
       @ concat (map snd (filter (\<lambda>(f, _). given f) alias_keys))
       @ (if given ''artist'' then [''ARTIST''] else [])
       @ (if given ''album_artist'' then [''ALBUMARTIST'', ''ALBUM ARTIST'', ''ALBUM_ARTIST''] else [])
       @ (if given ''track_number'' \<or> given ''track_total'' then [''TRACKNUMBER'', ''TRACK''] else [])
       @ (if given ''disc_number'' \<or> given ''disc_total'' then [''DISCNUMBER'', ''DISC''] else [])
       @ (if given ''lyrics'' then [''SYNCEDLYRICS'', ''LYRICS'', ''UNSYNCEDLYRICS''] else []))"

definition untouched :: "case_tables \<Rightarrow> (bytes \<Rightarrow> bool) \<Rightarrow> bytes list \<Rightarrow> bytes list" where
  "untouched T P cs = filter (\<lambda>c. P (comment_key T c)) cs"

lemma foldl_frame: "(\<And>x s. x \<in> set xs \<Longrightarrow> F (g s x) = F s) \<Longrightarrow> F (foldl g s xs) = F s"
  by (induction xs arbitrary: s) auto

lemma untouched_set: "tag_key k \<Longrightarrow> \<not> P k \<Longrightarrow> untouched T P (set_comment T k v cs) = untouched T P cs"
  by (simp add: untouched_def set_comment_frame)

lemma untouched_clear: "list_all (\<lambda>k. tag_key k \<and> \<not> P k) ks \<Longrightarrow> untouched T P (clear_comments T ks cs) = untouched T P cs"
  unfolding clear_comments_def by (rule foldl_frame) (simp add: list_all_iff untouched_set)

lemma untouched_add: "tag_key k \<Longrightarrow> \<not> P k \<Longrightarrow> untouched T P (add_artists k vs cs) = untouched T P cs"
  by (induction vs arbitrary: cs) (auto simp: untouched_def add_artists_def comment_key_put)

lemma untouched_artist:
  "tag_key k \<Longrightarrow> bt_get fs f = None \<or> \<not> P k \<and> (f = ''album_artist'' \<longrightarrow> \<not> P ''ALBUM ARTIST'' \<and> \<not> P ''ALBUM_ARTIST'') \<Longrightarrow>
     untouched T P (edit_artist rx T fs f k cs) = untouched T P cs"
proof -
  have keys: "tag_key ''ALBUM ARTIST''" "tag_key ''ALBUM_ARTIST''" by code_simp+
  assume "tag_key k" and "bt_get fs f = None \<or> \<not> P k \<and> (f = ''album_artist'' \<longrightarrow> \<not> P ''ALBUM ARTIST'' \<and> \<not> P ''ALBUM_ARTIST'')"
  then show ?thesis
    by (cases "bt_get fs f") (auto simp: edit_artist_def Let_def untouched_clear keys untouched_add untouched_set)
qed

lemma untouched_number:
  "tag_key k \<Longrightarrow> tag_key a \<Longrightarrow> bt_get fs f = None \<and> bt_get fs t = None \<or> \<not> P k \<and> \<not> P a \<Longrightarrow>
     untouched T P (edit_number T fs (f, t, k, a) cs) = untouched T P cs"
  by (auto simp: edit_number_def Let_def untouched_set)

lemma keys_ok:
  "list_all (\<lambda>(_, k). tag_key k) simple_keys"
  "list_all (\<lambda>(_, ks). list_all tag_key ks) alias_keys"
  "list_all tag_key [''ARTIST'', ''ALBUMARTIST'', ''ALBUM ARTIST'', ''ALBUM_ARTIST'', ''TRACKNUMBER'', ''TRACK'',
     ''DISCNUMBER'', ''DISC'', ''SYNCEDLYRICS'', ''LYRICS'', ''UNSYNCEDLYRICS'']"
  by code_simp+

lemma list_all_given: "list_all Q (if b then xs else []) \<longleftrightarrow> (b \<longrightarrow> list_all Q xs)"
  by simp

lemma untouched_edit:
  assumes P: "list_all (\<lambda>k. \<not> P k) (edited_keys fs)"
  shows "untouched T P (edit_comments rx T fs cs) = untouched T P cs"
proof -
  let ?g = "\<lambda>f. bt_get fs f \<noteq> None"
  from P have P1: "list_all (\<lambda>k. \<not> P k) (map snd (filter (\<lambda>(f, _). ?g f) simple_keys))"
    and P2: "list_all (\<lambda>k. \<not> P k) (concat (map snd (filter (\<lambda>(f, _). ?g f) alias_keys)))"
    and P3: "?g ''artist'' \<longrightarrow> \<not> P ''ARTIST''"
    and P4: "?g ''album_artist'' \<longrightarrow> \<not> P ''ALBUMARTIST'' \<and> \<not> P ''ALBUM ARTIST'' \<and> \<not> P ''ALBUM_ARTIST''"
    and P5: "?g ''track_number'' \<or> ?g ''track_total'' \<longrightarrow> \<not> P ''TRACKNUMBER'' \<and> \<not> P ''TRACK''"
    and P6: "?g ''disc_number'' \<or> ?g ''disc_total'' \<longrightarrow> \<not> P ''DISCNUMBER'' \<and> \<not> P ''DISC''"
    and P7: "?g ''lyrics'' \<longrightarrow> \<not> P ''SYNCEDLYRICS'' \<and> \<not> P ''LYRICS'' \<and> \<not> P ''UNSYNCEDLYRICS''"
    unfolding edited_keys_def Let_def list_all_append list_all_given list.pred_inject by blast+
  have "untouched T P (edit_simple T fs cs) = untouched T P cs" for cs
    unfolding edit_simple_def
  proof (rule foldl_frame, clarify)
    fix f k s assume m: "(f, k) \<in> set simple_keys"
    then have "tag_key k" using keys_ok(1) by (auto simp: list_all_iff)
    moreover have "?g f \<Longrightarrow> \<not> P k"
      using P1 m by (force simp: list_all_iff)
    ultimately show "untouched T P (case bt_get fs f of None \<Rightarrow> s | Some v \<Rightarrow> set_comment T k v s) = untouched T P s"
      by (cases "bt_get fs f") (auto simp: untouched_set)
  qed
  moreover have "untouched T P (clear_aliases T fs cs) = untouched T P cs" for cs
    unfolding clear_aliases_def
  proof (rule foldl_frame, clarify)
    fix f ks s assume m: "(f, ks) \<in> set alias_keys"
    then have "list_all tag_key ks" using keys_ok(2) by (auto simp: list_all_iff)
    moreover have "?g f \<Longrightarrow> list_all (\<lambda>k. \<not> P k) ks"
      using P2 m by (force simp: list_all_iff)
    ultimately show "untouched T P (if ?g f then clear_comments T ks s else s) = untouched T P s"
      by (auto simp: list_all_iff intro!: untouched_clear)
  qed
  moreover have "untouched T P (edit_artist rx T fs ''artist'' ''ARTIST'' cs) = untouched T P cs" for cs
    by (rule untouched_artist) (use keys_ok(3) P3 in auto)
  moreover have "untouched T P (edit_artist rx T fs ''album_artist'' ''ALBUMARTIST'' cs) = untouched T P cs" for cs
    by (rule untouched_artist) (use keys_ok(3) P4 in auto)
  moreover have "untouched T P (edit_number T fs (''track_number'', ''track_total'', ''TRACKNUMBER'', ''TRACK'') cs) = untouched T P cs" for cs
    by (rule untouched_number) (use keys_ok(3) P5 in auto)
  moreover have "untouched T P (edit_number T fs (''disc_number'', ''disc_total'', ''DISCNUMBER'', ''DISC'') cs) = untouched T P cs" for cs
    by (rule untouched_number) (use keys_ok(3) P6 in auto)
  moreover have "untouched T P (edit_lyrics T fs cs) = untouched T P cs" for cs
    using keys_ok(3) P7 by (auto simp: edit_lyrics_def untouched_set split: option.split)
  ultimately show ?thesis by (simp add: edit_comments_def Let_def)
qed


section \<open>The reader sees the edit\<close>

text \<open>The key and value of one comment, and the comments as the tag reader lists them.\<close>

definition item_of :: "bytes \<Rightarrow> item option" where
  "item_of c = map_option (\<lambda>i. (utf8 (take i c), utf8 (drop (i + 1) c))) (position ((=) CHR ''='') c)"

definition items :: "bytes list \<Rightarrow> item list" where
  "items cs = List.map_filter item_of cs"

lemma items_simps [simp]:
  "items [] = []"
  "items (c # cs) = (case item_of c of None \<Rightarrow> items cs | Some kv \<Rightarrow> kv # items cs)"
  "items (cs @ ds) = items cs @ items ds"
  by (simp_all add: items_def List.map_filter_def split: option.split)

lemma parse_entries_step:
  "get_range d p (sat_add p 4) = Some l \<Longrightarrow> get_range d (p + 4) (sat_add (p + 4) (get_le l)) = Some c \<Longrightarrow>
     parse_entries d m (Suc n) p =
       (case item_of c of Some kv \<Rightarrow> if get_le l \<le> m then kv # parse_entries d m n (p + 4 + get_le l)
                                   else parse_entries d m n (p + 4 + get_le l)
        | None \<Rightarrow> parse_entries d m n (p + 4 + get_le l))"
  by (simp add: Let_def item_of_def split: option.split)

text \<open>Entries longer than the reader's limit \<open>m\<close> are skipped.\<close>

lemma parse_entries_limited:
  "length pre + length (concat (map put_string cs)) + length post \<le> usize_max \<Longrightarrow> list_all short cs \<Longrightarrow> p = length pre \<Longrightarrow>
     n \<le> length cs \<Longrightarrow>
     parse_entries (pre @ concat (map put_string cs) @ post) m n p = items (filter (\<lambda>c. length c \<le> m) (take n cs))"
proof (induction cs arbitrary: pre p n)
  case Nil
  then show ?case by simp
next
  case (Cons c cs)
  let ?l = "put_le32 (length c)"
  let ?d = "(pre @ put_string c) @ concat (map put_string cs) @ post"
  show ?case
  proof (cases n)
    case (Suc k)
    have small: "length pre + 4 + length c \<le> usize_max" using Cons.prems by simp
    have l: "get_le ?l = length c" using Cons.prems by (simp add: short_def)
    have e: "get_range ?d p (sat_add p 4) = Some ?l"
      using Cons.prems small by (simp add: put_string_def get_range_append_mid)
    have f: "get_range ?d (p + 4) (sat_add (p + 4) (get_le ?l)) = Some c"
      unfolding l using Cons.prems small by (simp add: put_string_def get_range_def)
    have g: "parse_entries ?d m k (p + 4 + get_le ?l) = items (filter (\<lambda>c. length c \<le> m) (take k cs))"
      using Cons.prems l Suc by (intro Cons.IH) auto
    have "parse_entries ?d m (Suc k) p = items (filter (\<lambda>c. length c \<le> m) (c # take k cs))"
      unfolding parse_entries_step [OF e f] g unfolding l by (cases "length c \<le> m") (simp_all split: option.split)
    then show ?thesis using Suc by simp
  qed simp
qed

lemma parse_block_limited:
  assumes "block_fits v cs" and "length (comment_block v cs @ rest) \<le> usize_max"
  shows "parse_block (comment_block v cs @ rest) m =
    items (filter (\<lambda>c. length c \<le> m) (if m = usize_max then cs else take 100 cs))"
proof -
  let ?d = "comment_block v cs @ rest" and ?e = "length v + 8"
  let ?n = "if m = usize_max then length cs else min (length cs) 100"
  have "get_range ?d 0 4 = Some (put_le32 (length v))"
    by (simp add: comment_block_def put_string_def get_range_def)
  moreover have "get_range (put_string v @ put_le32 (length cs) @ concat (map put_string cs) @ rest) (?e - 4) ?e =
      Some (put_le32 (length cs))"
    by (rule get_range_append_mid) auto
  moreover have "parse_entries ((put_string v @ put_le32 (length cs)) @ concat (map put_string cs) @ rest) m ?n ?e =
      items (filter (\<lambda>c. length c \<le> m) (take ?n cs))"
    using assms by (intro parse_entries_limited) (auto simp: block_fits_def comment_block_def)
  moreover have "take ?n cs = (if m = usize_max then cs else take 100 cs)" by (simp add: min_def)
  ultimately show ?thesis
    using assms by (simp add: parse_block_def Let_def block_fits_def short_def comment_block_def)
qed

lemma parse_block_written:
  assumes "block_fits v cs" and "length (comment_block v cs @ rest) \<le> usize_max"
  shows "parse_block (comment_block v cs @ rest) usize_max = items cs"
proof -
  have "length c \<le> usize_max" if "c \<in> set cs" for c
    using assms(1) that by (auto simp: block_fits_def list_all_iff short_def usize_max_def)
  then have "filter (\<lambda>c. length c \<le> usize_max) cs = cs" by (simp add: filter_id_conv)
  then show ?thesis using parse_block_limited [OF assms, of usize_max] by simp
qed

text \<open>A key the reader accepts for an ASCII name is itself ASCII: no byte was replaced.\<close>

lemma encode_char_length: "length (encode_char c) = 1 \<longleftrightarrow> c < 128"
  by (simp add: encode_char_def)

lemma encode_char_last: "128 \<le> c \<Longrightarrow> \<not> ascii_str (encode_char c)"
proof -
  have "128 \<le> u8 (char_of (128 + c mod 64))" by simp
  moreover assume "128 \<le> c"
  ultimately show ?thesis by (simp add: encode_char_def ascii_str_def)
qed

lemma ascii_str_append [simp]: "ascii_str (a @ b) \<longleftrightarrow> ascii_str a \<and> ascii_str b"
  by (simp add: ascii_str_def)

lemma ascii_encode: "ascii_str (encode_chars cs) \<Longrightarrow> length (encode_chars cs) = length cs"
proof (induction cs)
  case (Cons c cs)
  then have "c < 128" using encode_char_last [of c] by (cases "c < 128") auto
  with Cons show ?case using encode_char_length [of c] by simp
qed simp

lemma length_chars: "length (chars s) \<le> length s \<and> (length (chars s) = length s \<longrightarrow> is_utf8 s \<longrightarrow> ascii_str s)"
proof (induction s rule: chars.induct)
  case (1 s)
  show ?case
  proof (cases "char_len s")
    case None
    show ?thesis
    proof (cases "s = []")
      case False
      with None 1 have "length (chars (tl s)) \<le> length s - 1" by simp
      moreover have "0 < length s" using False by simp
      ultimately have "Suc (length (chars (tl s))) \<le> length s" by linarith
      with None False show ?thesis by (simp add: chars.simps [of s] is_utf8_bad)
    qed (simp add: ascii_str_def)
  next
    case (Some n)
    note b = char_len_bounds [OF Some]
    have ne: "s \<noteq> []" using Some by auto
    with 1 Some have IH: "length (chars (drop n s)) \<le> length s - n"
      "length (chars (drop n s)) = length s - n \<longrightarrow> is_utf8 (drop n s) \<longrightarrow> ascii_str (drop n s)" by auto
    have "ascii_str s" if "Suc (length (chars (drop n s))) = length s" "is_utf8 s"
    proof -
      have "n = 1" using that IH b by linarith
      then obtain x xs where "s = x # xs" "u8 x < 128" using Some by (cases s) (auto split: if_splits list.splits)
      with \<open>n = 1\<close> that IH Some show ?thesis by (simp add: is_utf8_step ascii_str_def)
    qed
    with IH b Some show ?thesis by (auto simp: chars_Some)
  qed
qed

lemma utf8_ascii: "ascii_str (utf8 s) \<Longrightarrow> ascii_str s"
proof (cases "is_utf8 s")
  case False
  assume "ascii_str (utf8 s)"
  moreover have "\<not> ascii_str repl" by (simp add: repl_def ascii_str_def)
  ultimately show ?thesis using False by (subst (asm) utf8_invalid) auto
qed simp

lemma reader_key_ascii:
  assumes "ascii_str name" and "length (utf8 s) = length name" and "uppercase T (utf8 s) = name"
  shows "ascii_str s"
proof -
  have "length (encode_chars (map (upper_char T) (chars (utf8 s)))) = length (chars (utf8 s))"
    using ascii_encode [of "map (upper_char T) (chars (utf8 s))"] assms by (simp add: uppercase_def)
  then have "length (chars (utf8 s)) = length (utf8 s)"
    using assms(2,3) by (simp add: uppercase_def)
  then show ?thesis using length_chars [of "utf8 s"] by (auto intro: utf8_ascii)
qed


text \<open>The values the tag reader finds for a name depend on the comments with that key only.\<close>

lemma item_of_key:
  assumes "tag_key name" and "item_of c = Some (k, v)" and "length k = length name" and "uppercase T k = name"
  shows "comment_key T c = name"
proof -
  from assms obtain i where i: "position ((=) CHR ''='') c = Some i" "k = utf8 (take i c)"
    by (auto simp: item_of_def)
  have a: "ascii_str (take i c)"
    using reader_key_ascii [of name "take i c" T] assms i tag_keyD by auto
  then have "k = take i c" using i by (simp add: ascii_utf8)
  moreover have "0 < i" using assms(1,3) i by (cases i) (auto simp: tag_key_def)
  ultimately show ?thesis
    using a i assms by (simp add: comment_key_def from_utf8_lossy_valid ascii_utf8)
qed

lemma values_untouched:
  "tag_key name \<Longrightarrow> tag_values T (items (untouched T ((=) name) cs)) name = tag_values T (items cs) name"
proof (induction cs)
  case Nil
  then show ?case by (simp add: untouched_def)
next
  case (Cons c cs)
  note IH = Cons.IH [OF Cons.prems]
  have skip: "tag_values T (items (c # cs)) name = tag_values T (items cs) name" if n: "comment_key T c \<noteq> name"
  proof (cases "item_of c")
    case (Some kv)
    obtain k v where kv: "kv = (k, v)" by (cases kv)
    have "\<not> (length k = length name \<and> uppercase T k = name)"
      using item_of_key [OF Cons.prems, of c k v T] n Some kv by blast
    with Some kv show ?thesis by (simp add: tag_values_def)
  qed simp
  show ?case
  proof (cases "comment_key T c = name")
    case True
    then have "untouched T ((=) name) (c # cs) = c # untouched T ((=) name) cs" by (simp add: untouched_def)
    moreover have "tag_values T (items (c # xs)) name = tag_values T (case item_of c of None \<Rightarrow> [] | Some kv \<Rightarrow> [kv]) name
        @ tag_values T (items xs) name" for xs
      by (cases "item_of c") (simp_all add: tag_values_def)
    ultimately show ?thesis using IH by simp
  next
    case False
    then have "untouched T ((=) name) (c # cs) = untouched T ((=) name) cs" by (auto simp: untouched_def)
    with False show ?thesis using IH skip by simp
  qed
qed

lemma item_of_put: "tag_key k \<Longrightarrow> is_utf8 v \<Longrightarrow> item_of (k @ CHR ''='' # v) = Some (k, v)"
  by (simp add: item_of_def position_key tag_keyD ascii_utf8)

text \<open>What is left under a key after a fold of settings: the last one given.\<close>

fun last_given :: "tag_fields \<Rightarrow> bytes \<Rightarrow> (bytes \<times> bytes) list \<Rightarrow> bytes option" where
  "last_given fs name [] = None"
| "last_given fs name ((f, k) # xs) =
     (case last_given fs name xs of
        Some v \<Rightarrow> Some v
      | None \<Rightarrow> if k = name then bt_get fs f else None)"

lemma untouched_put: "tag_key k \<Longrightarrow> untouched T ((=) k) (set_comment T k v cs) = (if v = [] then [] else [k @ CHR ''='' # v])"
  using set_comment_keys [of k T v cs] by (simp add: untouched_def eq_commute)

lemma untouched_simple:
  "list_all (\<lambda>(_, k). tag_key k) xs \<Longrightarrow>
     untouched T ((=) name) (foldl (\<lambda>cs (f, k). case bt_get fs f of None \<Rightarrow> cs | Some v \<Rightarrow> set_comment T k v cs) cs xs) =
       (case last_given fs name xs of
          None \<Rightarrow> untouched T ((=) name) cs
        | Some v \<Rightarrow> if v = [] then [] else [name @ CHR ''='' # v])"
proof (induction xs arbitrary: cs)
  case Nil
  then show ?case by simp
next
  case (Cons x xs)
  obtain f k where x: "x = (f, k)" by (cases x)
  with Cons.prems have k: "tag_key k" by simp
  have "untouched T ((=) name) (case bt_get fs f of None \<Rightarrow> cs | Some v \<Rightarrow> set_comment T k v cs) =
      (case (if k = name then bt_get fs f else None) of
         None \<Rightarrow> untouched T ((=) name) cs | Some v \<Rightarrow> if v = [] then [] else [name @ CHR ''='' # v])"
    using k by (auto simp: untouched_put untouched_set split: option.split)
  with Cons x show ?case by (auto split: option.split)
qed

text \<open>The later steps of an edit do not touch the keys of the simple fields.\<close>

definition later_keys :: "bytes list" where
  "later_keys = concat (map snd alias_keys) @ [''ARTIST'', ''ALBUMARTIST'', ''ALBUM ARTIST'', ''ALBUM_ARTIST'',
     ''TRACKNUMBER'', ''TRACK'', ''DISCNUMBER'', ''DISC'', ''SYNCEDLYRICS'', ''LYRICS'', ''UNSYNCEDLYRICS'']"

lemma simple_not_later: "list_all (\<lambda>(_, k). k \<notin> set later_keys) simple_keys"
  by (simp add: simple_keys_def later_keys_def alias_keys_def)


lemma untouched_later:
  assumes P: "list_all (\<lambda>k. \<not> P k) later_keys"
  shows "untouched T P (edit_comments rx T fs cs) = untouched T P (edit_simple T fs cs)"
proof -
  note P = P [unfolded later_keys_def list_all_append list.pred_inject]
  have "untouched T P (clear_aliases T fs cs) = untouched T P cs" for cs
    unfolding clear_aliases_def
  proof (rule foldl_frame, clarify)
    fix f ks s assume m: "(f, ks) \<in> set alias_keys"
    then have "list_all tag_key ks" using keys_ok(2) by (auto simp: list_all_iff)
    moreover have "list_all (\<lambda>k. \<not> P k) ks" using P m by (force simp: list_all_iff)
    ultimately show "untouched T P (if bt_get fs f \<noteq> None then clear_comments T ks s else s) = untouched T P s"
      by (auto simp: list_all_iff intro!: untouched_clear)
  qed
  moreover have "untouched T P (edit_artist rx T fs ''artist'' ''ARTIST'' cs) = untouched T P cs" for cs
    by (rule untouched_artist) (use keys_ok(3) P in auto)
  moreover have "untouched T P (edit_artist rx T fs ''album_artist'' ''ALBUMARTIST'' cs) = untouched T P cs" for cs
    by (rule untouched_artist) (use keys_ok(3) P in auto)
  moreover have "untouched T P (edit_number T fs (''track_number'', ''track_total'', ''TRACKNUMBER'', ''TRACK'') cs) = untouched T P cs" for cs
    by (rule untouched_number) (use keys_ok(3) P in auto)
  moreover have "untouched T P (edit_number T fs (''disc_number'', ''disc_total'', ''DISCNUMBER'', ''DISC'') cs) = untouched T P cs" for cs
    by (rule untouched_number) (use keys_ok(3) P in auto)
  moreover have "untouched T P (edit_lyrics T fs cs) = untouched T P cs" for cs
    using keys_ok(3) P by (auto simp: edit_lyrics_def untouched_set split: option.split)
  ultimately show ?thesis by (simp add: edit_comments_def Let_def)
qed

lemma last_given_simple:
  "(field, key) \<in> set simple_keys \<Longrightarrow> bt_get fs field = Some v \<Longrightarrow>
     field \<noteq> ''upc'' \<or> bt_get fs ''barcode'' = None \<Longrightarrow> last_given fs key simple_keys = Some v"
  unfolding simple_keys_def
  by (simp only: list.set insert_iff prod.inject empty_iff simp_thms(31)) (elim disjE conjE FalseE; simp)

text \<open>
  C25.  An edit keeps every comment whose key it does not name, byte for byte and in the same order,
  whatever the file contains: the comments outside the keys of the given fields are the same list
  before and after.
\<close>

theorem edit_keeps_other_comments:
  "untouched T (\<lambda>k. k \<notin> set (edited_keys fs)) (edit_comments rx T fs cs) =
     untouched T (\<lambda>k. k \<notin> set (edited_keys fs)) cs"
  by (rule untouched_edit) (simp add: list_all_iff)

text \<open>
  C26.  What the editor writes is what the tag reader shows: after an edit with the text field
  \<open>field\<close> set to \<open>v\<close>, serializing the comments and reading the block back, the reader finds for the
  key of the field exactly \<open>v\<close>, and nothing when \<open>v\<close> is empty; of \<^verbatim>\<open>upc\<close> and \<^verbatim>\<open>barcode\<close>, which
  share a key, the second wins.
\<close>

theorem edit_is_read_back:
  assumes "(field, key) \<in> set simple_keys" and "bt_get fs field = Some v" and "is_utf8 v"
    and "field \<noteq> ''upc'' \<or> bt_get fs ''barcode'' = None"
    and "block_fits vendor (edit_comments rx T fs cs)"
    and "length (comment_block vendor (edit_comments rx T fs cs) @ rest) \<le> usize_max"
  shows "tag_values T (parse_block (comment_block vendor (edit_comments rx T fs cs) @ rest) usize_max) key =
    (if v = [] then [] else [v])"
proof -
  have key: "tag_key key" "key \<notin> set later_keys"
    using assms(1) keys_ok(1) simple_not_later by (auto simp: list_all_iff)
  have "untouched T ((=) key) (edit_comments rx T fs cs) = untouched T ((=) key) (edit_simple T fs cs)"
    using key by (intro untouched_later) (auto simp: list_all_iff)
  also have "\<dots> = (if v = [] then [] else [key @ CHR ''='' # v])"
    unfolding edit_simple_def
    by (simp add: untouched_simple [OF keys_ok(1)] last_given_simple [OF assms(1,2,4)])
  finally have "tag_values T (items (edit_comments rx T fs cs)) key = tag_values T (items (if v = [] then [] else [key @ CHR ''='' # v])) key"
    using values_untouched [OF key(1)] by metis
  also have "\<dots> = (if v = [] then [] else [v])"
    using key tag_keyD [OF key(1)] by (simp add: tag_values_def item_of_put assms(3) uppercase_ascii)
  finally show ?thesis using parse_block_written [OF assms(5,6)] by simp
qed

theorem edit_is_read_back_witness:
  "tag_values \<lparr>to_lower = (\<lambda>c. [c]), to_upper = (\<lambda>c. [c])\<rparr>
     (parse_block (comment_block ''v'' (edit_comments (\<lambda>s. [s]) \<lparr>to_lower = (\<lambda>c. [c]), to_upper = (\<lambda>c. [c])\<rparr>
        [(''title'', ''New'')] [])) usize_max) ''TITLE'' = [''New'']"
proof -
  let ?T = "\<lparr>to_lower = (\<lambda>c. [c]), to_upper = (\<lambda>c. [c])\<rparr>"
  have e: "edit_comments (\<lambda>s. [s]) ?T [(''title'', ''New'')] [] = [''TITLE=New'']"
    by (simp add: edit_comments_def edit_simple_def clear_aliases_def edit_artist_def edit_number_def edit_lyrics_def
        simple_keys_def alias_keys_def set_comment_def)
  show ?thesis
    using edit_is_read_back [of "''title''" "''TITLE''" "[(''title'', ''New'')]" "''New''" "''v''" "\<lambda>s. [s]" ?T "[]" "[]"]
    by (simp add: e simple_keys_def ascii_utf8 ascii_str_def block_fits_def short_def comment_block_def put_string_def usize_max_def)
qed


section \<open>Track and disc numbers\<close>

definition in_i64 :: "int \<Rightarrow> bool" where "in_i64 x \<longleftrightarrow> i64_min \<le> x \<and> x \<le> i64_max"

text \<open>The number a field asks for, and the pair the edit means to store.\<close>

definition asked :: "tag_fields \<Rightarrow> bytes \<Rightarrow> int \<Rightarrow> int" where
  "asked fs key old = (case bt_get fs key of None \<Rightarrow> old | Some v \<Rightarrow> unwrap_or (parse_i64 (trim v)) 0)"

definition index_pair :: "int \<Rightarrow> int \<Rightarrow> int \<times> int" where
  "index_pair n m = (if n \<le> 0 then (0, 0) else (n, max 0 m))"

lemma asked_range: "in_i64 old \<Longrightarrow> in_i64 (asked fs key old)"
  using parse_i64_range
  by (auto simp: asked_def in_i64_def unwrap_or_def i64_min_def i64_max_def split: option.split sum.split)

lemma number_show: "0 \<le> n \<Longrightarrow> n \<le> i64_max \<Longrightarrow> number (show_nat (nat n)) = n"
  by (simp add: number_def trim_digits show_nat_digits parse_show_nat_i64)

lemma no_slash: "list_all is_digit s \<Longrightarrow> CHR ''/'' \<notin> set s"
  by (auto simp: list_all_iff is_digit_def)

lemma trim_number_pair: "list_all is_digit a \<Longrightarrow> list_all is_digit b \<Longrightarrow> a \<noteq> [] \<Longrightarrow> b \<noteq> [] \<Longrightarrow>
  trim (a @ ''/'' @ b) = a @ ''/'' @ b"
proof -
  assume h: "list_all is_digit a" "list_all is_digit b" "a \<noteq> []" "b \<noteq> []"
  have "\<not> is_white (u8 c)" if "is_digit c" for c
    using that by (auto simp: is_digit_def is_white_def)
  moreover have "is_digit (hd a)" "is_digit (last b)" using h by (auto simp: list_all_iff)
  moreover have "ascii_str (a @ ''/'' @ b)" using h ascii_digits by (auto simp: ascii_str_def)
  ultimately show ?thesis using h by (simp add: trim_ascii trim_list_id)
qed

lemma pair_index:
  assumes "n \<le> i64_max" and "m \<le> i64_max"
  shows "pair (if n \<le> 0 then [] else if 0 < m then show_int n @ ''/'' @ show_int m else show_int n) = index_pair n m"
proof (cases "n \<le> 0")
  case True
  have "number [] = 0" by (simp add: number_def parse_int_def)
  with True show ?thesis by (simp add: pair_def index_pair_def)
next
  case n: False
  let ?a = "show_nat (nat n)" and ?b = "show_nat (nat m)"
  have a: "position ((=) CHR ''/'') ?a = None"
    using no_slash [OF show_nat_digits [of "nat n"]] by (auto simp: position_None)
  have p: "position ((=) CHR ''/'') (?a @ CHR ''/'' # ?b) = Some (length ?a)"
    using no_slash [OF show_nat_digits [of "nat n"]] by (intro position_append) auto
  have "pair (?a @ ''/'' @ ?b) = (n, m)" if "0 < m"
    using n assms that trim_number_pair [OF show_nat_digits show_nat_digits, of "nat n" "nat m"]
    by (simp add: pair_def p number_show)
  moreover have "pair ?a = (n, 0)"
    using n assms by (simp add: pair_def trim_digits show_nat_digits a number_show)
  ultimately show ?thesis using n by (auto simp: index_pair_def show_int_def)
qed

lemma edit_index_alt: "edit_index c fs f t =
  (let n = asked fs f (fst c); m = asked fs t (snd c)
   in if n \<le> 0 then [] else if 0 < m then show_int n @ ''/'' @ show_int m else show_int n)"
  by (simp only: edit_index_def asked_def Let_def)

lemma edit_index_pair: "in_i64 (fst c) \<Longrightarrow> in_i64 (snd c) \<Longrightarrow>
  pair (edit_index c fs f t) = index_pair (asked fs f (fst c)) (asked fs t (snd c))"
  using pair_index [of "asked fs f (fst c)" "asked fs t (snd c)"] asked_range [of "fst c" fs f] asked_range [of "snd c" fs t]
  by (simp add: edit_index_alt Let_def in_i64_def)

lemma number_range: "in_i64 (number s)"
  using parse_i64_range [of "trim s"]
  by (auto simp: number_def in_i64_def i64_min_def i64_max_def split: sum.split int_error.split)

lemma pair_range: "in_i64 (fst (pair s))" "in_i64 (snd (pair s))"
  by (auto simp: pair_def Let_def number_range in_i64_def [of 0] i64_min_def i64_max_def split: option.split)

text \<open>The pair an edit starts from: the editor's own reading of the comments.\<close>

definition current_index :: "case_tables \<Rightarrow> bytes list \<Rightarrow> bytes \<Rightarrow> bytes \<Rightarrow> int \<times> int" where
  "current_index T cs key alt =
     (let c = pair (get_comment T cs key) in if c = (0, 0) then pair (get_comment T cs alt) else c)"

definition number_keys :: "(bytes \<times> bytes \<times> bytes \<times> bytes) list" where
  "number_keys = [(''track_number'', ''track_total'', ''TRACKNUMBER'', ''TRACK''),
     (''disc_number'', ''disc_total'', ''DISCNUMBER'', ''DISC'')]"

lemma edit_index_utf8: "is_utf8 (edit_index c fs f t)"
proof -
  have "ascii_str (show_int i)" for i
    using ascii_digits [OF show_nat_digits] by (auto simp: show_int_def ascii_str_def)
  then have "ascii_str (edit_index c fs f t)" by (auto simp: edit_index_alt Let_def ascii_str_def)
  then show ?thesis by (rule ascii_utf8)
qed

lemma values_edit_number:
  assumes "tag_key k" "tag_key a" "k \<noteq> a" and "bt_get fs f \<noteq> None \<or> bt_get fs t \<noteq> None"
  shows "untouched T ((=) k) (edit_number T fs (f, t, k, a) cs) =
    (let v = edit_index (current_index T cs k a) fs f t in if v = [] then [] else [k @ CHR ''='' # v])"
  using assms by (simp add: edit_number_def current_index_def Let_def untouched_set untouched_put)


lemma untouched_lyrics: "list_all (\<lambda>k. \<not> P k) [''SYNCEDLYRICS'', ''LYRICS'', ''UNSYNCEDLYRICS''] \<Longrightarrow>
  untouched T P (edit_lyrics T fs cs) = untouched T P cs"
  using keys_ok(3) by (auto simp: edit_lyrics_def untouched_set split: option.split)

lemma last_given_None: "list_all (\<lambda>(_, k'). k' \<noteq> k) xs \<Longrightarrow> last_given fs k xs = None"
  by (induction xs) auto

lemma get_comment_untouched: "get_comment T (untouched T ((=) k) cs) k = get_comment T cs k"
proof -
  have "filter (\<lambda>c. k = comment_key T c \<and> comment_key T c = k) cs = filter (\<lambda>c. comment_key T c = k) cs"
    by (rule filter_cong) auto
  then show ?thesis by (simp add: get_comment_def untouched_def)
qed

text \<open>The steps of an edit before the numbers leave the number comments alone.\<close>

lemma untouched_before:
  assumes "k \<in> {''TRACKNUMBER'', ''TRACK'', ''DISCNUMBER'', ''DISC''}"
  shows "untouched T ((=) k) (edit_artist rx T fs ''album_artist'' ''ALBUMARTIST'' (edit_artist rx T fs ''artist'' ''ARTIST''
      (clear_aliases T fs (edit_simple T fs cs)))) = untouched T ((=) k) cs"
proof -
  have "k \<in> set later_keys" using assms by (auto simp: later_keys_def)
  then have "list_all (\<lambda>(_, k'). k' \<noteq> k) simple_keys"
    using simple_not_later by (auto simp: list_all_iff)
  then have "last_given fs k simple_keys = None" by (rule last_given_None)
  then have "untouched T ((=) k) (edit_simple T fs cs) = untouched T ((=) k) cs"
    by (simp add: edit_simple_def untouched_simple [OF keys_ok(1)])
  moreover have "untouched T ((=) k) (clear_aliases T fs cs) = untouched T ((=) k) cs" for cs
    using assms keys_ok(2) by (auto simp: clear_aliases_def alias_keys_def untouched_clear)
  moreover have "untouched T ((=) k) (edit_artist rx T fs ''artist'' ''ARTIST'' cs) = untouched T ((=) k) cs" for cs
    by (rule untouched_artist) (use assms keys_ok(3) in auto)
  moreover have "untouched T ((=) k) (edit_artist rx T fs ''album_artist'' ''ALBUMARTIST'' cs) = untouched T ((=) k) cs" for cs
    by (rule untouched_artist) (use assms keys_ok(3) in auto)
  ultimately show ?thesis by simp
qed

text \<open>
  Track and disc numbers survive an edit: the reader finds the number and total the fields ask
  for, where a missing one of the two keeps the value the editor read from the old comments
  (of the number key, or of its short form when that says nothing); a number that is not positive
  removes the tag and the total goes with it.  No value overflows: all of them are \<^verbatim>\<open>i64\<close>.
\<close>

theorem numbers_are_read_back:
  assumes "(f, t, k, a) \<in> set number_keys" and "bt_get fs f \<noteq> None \<or> bt_get fs t \<noteq> None"
  shows "pair (first_value T (items (edit_comments rx T fs cs)) k) =
    index_pair (asked fs f (fst (current_index T cs k a))) (asked fs t (snd (current_index T cs k a)))"
    (is "_ = ?r")
proof -
  let ?c3 = "edit_artist rx T fs ''album_artist'' ''ALBUMARTIST'' (edit_artist rx T fs ''artist'' ''ARTIST''
      (clear_aliases T fs (edit_simple T fs cs)))"
  let ?tr = "edit_number T fs (''track_number'', ''track_total'', ''TRACKNUMBER'', ''TRACK'')"
  let ?di = "edit_number T fs (''disc_number'', ''disc_total'', ''DISCNUMBER'', ''DISC'')"
  have e: "edit_comments rx T fs cs = edit_lyrics T fs (?di (?tr ?c3))" by (simp add: edit_comments_def)
  have k: "tag_key k" "tag_key a" "k \<noteq> a" using assms(1) keys_ok(3) by (auto simp: number_keys_def)
  have cur: "current_index T ds k a = current_index T cs k a"
    if "untouched T ((=) k) ds = untouched T ((=) k) cs" "untouched T ((=) a) ds = untouched T ((=) a) cs" for ds
    unfolding current_index_def using that get_comment_untouched by metis
  have v: "untouched T ((=) k) (edit_comments rx T fs cs) =
      (let v = edit_index (current_index T cs k a) fs f t in if v = [] then [] else [k @ CHR ''='' # v])"
    using assms(1) unfolding number_keys_def
  proof (simp only: list.set insert_iff prod.inject empty_iff simp_thms(31), elim disjE conjE)
    assume *: "f = ''track_number''" "t = ''track_total''" "k = ''TRACKNUMBER''" "a = ''TRACK''"
    have "untouched T ((=) k) (edit_comments rx T fs cs) = untouched T ((=) k) (?tr ?c3)"
      unfolding e using * keys_ok(3) by (simp add: untouched_lyrics untouched_number)
    also have "\<dots> = (let v = edit_index (current_index T ?c3 k a) fs f t in if v = [] then [] else [k @ CHR ''='' # v])"
      using values_edit_number [OF k assms(2)] * by simp
    also have "current_index T ?c3 k a = current_index T cs k a"
      by (rule cur) (rule untouched_before; simp add: *)+
    finally show ?thesis .
  next
    assume *: "f = ''disc_number''" "t = ''disc_total''" "k = ''DISCNUMBER''" "a = ''DISC''"
    have u: "untouched T ((=) x) (?tr ?c3) = untouched T ((=) x) cs" if "x \<in> {k, a}" for x
    proof -
      have "untouched T ((=) x) (?tr ?c3) = untouched T ((=) x) ?c3"
        by (rule untouched_number) (use that * keys_ok(3) in auto)
      then show ?thesis using untouched_before [of x T rx fs cs] that * by auto
    qed
    have "untouched T ((=) k) (edit_comments rx T fs cs) = untouched T ((=) k) (?di (?tr ?c3))"
      unfolding e using * by (simp add: untouched_lyrics)
    also have "\<dots> = (let v = edit_index (current_index T (?tr ?c3) k a) fs f t in if v = [] then [] else [k @ CHR ''='' # v])"
      using values_edit_number [OF k assms(2)] * by simp
    also have "current_index T (?tr ?c3) k a = current_index T cs k a"
      by (rule cur) (rule u; simp)+
    finally show ?thesis .
  qed
  let ?v = "edit_index (current_index T cs k a) fs f t"
  have "tag_values T (items (edit_comments rx T fs cs)) k = tag_values T (items (if ?v = [] then [] else [k @ CHR ''='' # ?v])) k"
    using values_untouched [OF k(1)] v by (metis (no_types))
  also have "\<dots> = (if ?v = [] then [] else [?v])"
    using k tag_keyD [OF k(1)] by (simp add: tag_values_def item_of_put edit_index_utf8 uppercase_ascii)
  finally have "first_value T (items (edit_comments rx T fs cs)) k = ?v"
    by (simp add: first_value_def)
  then show ?thesis
    using edit_index_pair pair_range by (simp add: current_index_def Let_def)
qed

theorem numbers_are_read_back_witness:
  "pair (first_value \<lparr>to_lower = (\<lambda>c. [c]), to_upper = (\<lambda>c. [c])\<rparr> (items (edit_comments (\<lambda>s. [s])
     \<lparr>to_lower = (\<lambda>c. [c]), to_upper = (\<lambda>c. [c])\<rparr> [(''track_number'', ''3''), (''track_total'', ''9'')] [])) ''TRACKNUMBER'') = (3, 9)"
proof -
  have "trim ''3'' = ''3''" "trim ''9'' = ''9''" by (simp_all add: trim_digits is_digit_def)
  then show ?thesis
    by (subst numbers_are_read_back [of "''track_number''" "''track_total''" _ "''TRACK''"])
      (simp_all add: number_keys_def asked_def unwrap_or_def parse_int_def is_digit_def Let_def i64_min_def i64_max_def index_pair_def)
qed

end
