(* ===== verification/Flac.thy ===== *)
theory Flac
  imports Sections Vorbis
begin

text \<open>
  FLAC files: the metadata reader (the FLAC part of rust\_backend/crates/core/src/tags/containers.rs)
  and the header writer with its three entry points (rust\_backend/crates/core/src/tags/write.rs).
  The image library and the artist-splitting regular expression are parameters.
\<close>

section \<open>Reading whole blocks in the environment\<close>

lemma read_some_len: "read_some E d n s = (Inr b, s') \<Longrightarrow> length b \<le> n"
  using read_some_Inr [of E d n s b s'] by auto

text \<open>\<^verbatim>\<open>exact\<close> over reads of any size: \<open>acc\<close> is what has been read.\<close>

function exact_io :: "env \<Rightarrow> bytes \<Rightarrow> nat \<Rightarrow> bytes \<Rightarrow> io \<Rightarrow> bytes res \<times> io" where
  "exact_io E d n acc s =
     (if n \<le> length acc then (Inr acc, s)
      else then_io (read_some E d (n - length acc) s) (\<lambda>b s1.
        if b = [] then (Inl (if acc = [] then ''EOF'' else ''unexpected EOF''), s1)
        else exact_io E d n (acc @ b) s1))"
  by pat_completeness auto
termination by (relation "measure (\<lambda>(E, d, n, acc, s). n - length acc)") (auto intro!: diff_less_mono2)

declare exact_io.simps [simp del]

abbreviation bytes_io :: "env \<Rightarrow> bytes \<Rightarrow> nat \<Rightarrow> io \<Rightarrow> bytes res \<times> io" where
  "bytes_io E d n \<equiv> exact_io E d n []"

section \<open>Cover art\<close>

record cover_art =
  ca_data :: bytes
  ca_mime :: bytes

text \<open>The image library.\<close>

record 'i image_lib =
  im_guess :: "bytes \<Rightarrow> unit res"
  im_decode :: "bytes \<Rightarrow> 'i option"
  im_jpeg :: "'i \<Rightarrow> nat \<Rightarrow> bytes option"
  im_resize :: "'i \<Rightarrow> nat \<Rightarrow> 'i"
  im_dimensions :: "bytes \<Rightarrow> (nat \<times> nat) option"

definition cover_mime :: "bytes \<Rightarrow> bytes" where
  "cover_mime data =
     (if starts_with data [CHR 0x89, CHR ''P'', CHR ''N'', CHR ''G'', CHR 0x0D, CHR 0x0A, CHR 0x1A, CHR 0x0A] then ''image/png''
      else if starts_with data [CHR 0xFF, CHR 0xD8, CHR 0xFF] then ''image/jpeg''
      else if starts_with data ''GIF87a'' \<or> starts_with data ''GIF89a'' then ''image/gif''
      else if 12 \<le> length data \<and> take 4 data = ''RIFF'' \<and> slice data 8 12 = ''WEBP'' then ''image/webp''
      else ''image/jpeg'')"

definition max_picture :: nat where "max_picture = 16000000"

text \<open>The first encoding that is small enough; the check is made before each attempt.\<close>

fun first_small :: "env \<Rightarrow> (nat \<Rightarrow> bytes option) \<Rightarrow> nat list \<Rightarrow> io \<Rightarrow> bytes option res \<times> io" where
  "first_small E enc [] s = (Inr None, s)"
| "first_small E enc (q # qs) s =
     then_io (ask E s) (\<lambda>_ s1.
       case enc q of
         Some b \<Rightarrow> if length b \<le> max_picture then (Inr (Some b), s1) else first_small E enc qs s1
       | None \<Rightarrow> first_small E enc qs s1)"

definition picture_bytes :: "bytes \<Rightarrow> nat \<times> nat \<Rightarrow> nat \<Rightarrow> bytes \<Rightarrow> bytes" where
  "picture_bytes mime dims depth data =
     put_be32 3 @ put_be32 (length mime) @ mime @ put_be32 11 @ ''Front Cover'' @
     put_be32 (fst dims) @ put_be32 (snd dims) @ put_be32 depth @ put_be32 0 @ put_be32 (length data) @ data"

definition finish_picture :: "'i image_lib \<Rightarrow> bytes \<Rightarrow> bytes option res" where
  "finish_picture img data =
     (let mime = cover_mime data
      in bind_res (im_guess img data) (\<lambda>_.
           case im_dimensions img data of
             None \<Rightarrow> Inr (Some (picture_bytes mime (0, 0) 0 data))
           | Some wh \<Rightarrow> Inr (Some (picture_bytes mime wh
               (if mime = ''image/png'' then 32 else if mime = ''image/jpeg'' then 24 else 0) data))))"

definition picture :: "'i image_lib \<Rightarrow> env \<Rightarrow> bytes \<Rightarrow> io \<Rightarrow> bytes option res \<times> io" where
  "picture img E original s =
     (if length original \<le> max_picture then
        then_io (ask E s) (\<lambda>_ s1. (finish_picture img original, s1))
      else case im_guess img original of
        Inl e \<Rightarrow> (Inl e, s)
      | Inr _ \<Rightarrow>
          (case im_decode img original of
             None \<Rightarrow> (Inr None, s)
           | Some im \<Rightarrow>
               then_io (first_small E (im_jpeg img im) [90, 80, 70, 60] s) (\<lambda>r s1.
               then_io (case r of
                          Some b \<Rightarrow> (Inr r, s1)
                        | None \<Rightarrow> first_small E (\<lambda>n. im_jpeg img (im_resize img im n) 85) [1500, 1200, 1000, 800] s1)
                 (\<lambda>r s2. case r of
                    None \<Rightarrow> (Inr None, s2)
                  | Some b \<Rightarrow> then_io (ask E s2) (\<lambda>_ s3. (finish_picture img b, s3))))))"

text \<open>\<^verbatim>\<open>picture_block\<close>: the picture type and the picture; every error is \<^verbatim>\<open>None\<close>.\<close>

definition picture_block :: "bytes \<Rightarrow> bool \<Rightarrow> (nat \<times> cover_art) option" where
  "picture_block data ogg_limits = res_ok (
     bind_res (read_bytes data 4 0) (\<lambda>(kind, p1).
     bind_res (read_bytes data 4 p1) (\<lambda>(ml, p2).
       if length data - 8 < get_be ml \<or> ogg_limits \<and> 256 < get_be ml then Inl ''invalid picture MIME length''
       else bind_res (read_bytes data (get_be ml) p2) (\<lambda>(mime, p3).
     bind_res (read_bytes data 4 p3) (\<lambda>(description, p4).
       if ogg_limits \<and> 10000 < get_be description then Inl ''invalid picture description length''
       else let p5 = p4 + get_be description + 16 in
     bind_res (read_bytes data 4 p5) (\<lambda>(dl, p6).
       if get_be dl = 0 \<or> length data - p6 < get_be dl \<or> ogg_limits \<and> 10000000 < get_be dl
       then Inl ''invalid picture data length''
       else bind_res (read_bytes data (get_be dl) p6) (\<lambda>(b, _).
         Inr (get_be kind, \<lparr>ca_data = b, ca_mime = utf8 mime\<rparr>))))))))"

section \<open>The reader\<close>

fun valid_entries :: "bytes \<Rightarrow> nat \<Rightarrow> nat \<Rightarrow> bool" where
  "valid_entries data 0 offset = True"
| "valid_entries data (Suc n) offset =
     (case get_range data offset (sat_add offset 4) of
        None \<Rightarrow> False
      | Some l \<Rightarrow>
          let len = get_le l; next_offset = sat_add (sat_add offset 4) len
          in if length data < next_offset \<or> len = 0 \<and> next_offset = length data then False
             else valid_entries data n next_offset)"

definition valid_comments :: "bytes \<Rightarrow> bool" where
  "valid_comments data =
     (case get_range data 0 4 of
        None \<Rightarrow> False
      | Some vendor \<Rightarrow>
          let offset = get_le vendor + 8 in
          case get_range data (offset - 4) offset of
            None \<Rightarrow> False
          | Some count \<Rightarrow> valid_entries data (get_le count) offset)"

text \<open>The state of \<^verbatim>\<open>flac_inner\<close>; \<open>fr_cover\<close> is what the caller's \<^verbatim>\<open>&mut Option<CoverArt>\<close> holds.\<close>

record flac_state =
  fr_metadata :: audio_metadata
  fr_found :: bool
  fr_front :: bool
  fr_cover :: "cover_art option"

definition is_sync :: "bytes \<Rightarrow> bool" where
  "is_sync b \<longleftrightarrow> u8 (b ! 0) = 0xff \<and> u8 (b ! 1) div 4 = 0x3e"

text \<open>One metadata block: \<open>kind\<close> is the low seven bits of its first byte.\<close>

definition flac_block :: "case_tables \<Rightarrow> bool \<Rightarrow> nat \<Rightarrow> bytes \<Rightarrow> flac_state \<Rightarrow> flac_state" where
  "flac_block T want kind data st =
     (if kind = 4 \<and> \<not> fr_found st then
        (if valid_comments data then
           st\<lparr>fr_metadata := flac_comments T (fr_metadata st) (parse_block data usize_max), fr_found := True\<rparr>
         else st)
      else if kind = 6 \<and> \<not> fr_front st \<and> want then
        (case picture_block data False of
           Some (k, p) \<Rightarrow>
             if k = 3 \<or> fr_cover st = None then st\<lparr>fr_front := (k = 3), fr_cover := Some p\<rparr> else st
         | None \<Rightarrow> st)
      else st)"

function flac_loop :: "case_tables \<Rightarrow> bytes \<Rightarrow> bool \<Rightarrow> nat \<Rightarrow> flac_state \<Rightarrow> flac_state res" where
  "flac_loop T d want p st =
     bind_res (read_bytes d 4 p) (\<lambda>(h, q).
       let len = get_be (drop 1 h) in
       if length d < q + len then Inl (if q = length d then ''EOF'' else ''unexpected EOF'')
       else let st' = flac_block T want (u8 (h ! 0) mod 128) (slice d q (q + len)) st in
         if 128 \<le> u8 (h ! 0) then
           bind_res (read_bytes d 2 (q + len)) (\<lambda>(sync, _).
             if is_sync sync then Inr st' else Inl ''frames do not begin with sync code'')
         else flac_loop T d want (q + len) st')"
  by pat_completeness auto
termination by (relation "measure (\<lambda>(T, d, want, p, st). length d - p)") (auto simp: read_bytes_Inr)

declare flac_loop.simps [simp del]

definition flac_inner :: "case_tables \<Rightarrow> bytes \<Rightarrow> cover_art option option \<Rightarrow> flac_state res" where
  "flac_inner T d cover =
     bind_res (read_bytes d 4 0) (\<lambda>(signature, _).
       if signature \<noteq> ''fLaC'' then Inl ''fLaC head incorrect''
       else flac_loop T d (cover \<noteq> None) 4
         \<lparr>fr_metadata = no_metadata, fr_found = False, fr_front = False,
          fr_cover = (case cover of None \<Rightarrow> None | Some c \<Rightarrow> c)\<rparr>)"

definition map_error :: "(string \<Rightarrow> string) \<Rightarrow> 'a res \<Rightarrow> 'a res" where
  "map_error f r = (case r of Inl e \<Rightarrow> Inl (f e) | Inr x \<Rightarrow> Inr x)"

definition flac_read :: "case_tables \<Rightarrow> bytes \<Rightarrow> audio_metadata res" where
  "flac_read T d = map_error ((@) ''failed to parse FLAC file: '') (bind_res (flac_inner T d None) (\<lambda>st. Inr (fr_metadata st)))"

definition sniff_mime :: "cover_art \<Rightarrow> cover_art" where
  "sniff_mime c = c\<lparr>ca_mime := (if 8 < length (ca_data c) \<and> slice (ca_data c) 1 4 = ''PNG'' then ''image/png'' else ''image/jpeg'')\<rparr>"

definition flac_with_cover :: "case_tables \<Rightarrow> bytes \<Rightarrow> cover_art option \<Rightarrow> (audio_metadata \<times> cover_art option) res" where
  "flac_with_cover T d cover =
     map_error ((@) ''failed to parse FLAC file: '') (bind_res (flac_inner T d (Some cover)) (\<lambda>st.
       Inr (fr_metadata st, map_option sniff_mime (fr_cover st))))"

definition flac_cover :: "case_tables \<Rightarrow> bytes \<Rightarrow> cover_art res" where
  "flac_cover T d = bind_res (flac_with_cover T d None) (\<lambda>(_, cover). ok_or cover ''no cover art found in file'')"


section \<open>The writer\<close>

type_synonym block = "nat \<times> bytes"

function read_blocks :: "env \<Rightarrow> bytes \<Rightarrow> bool \<Rightarrow> nat \<Rightarrow> block list \<Rightarrow> io \<Rightarrow> block list res \<times> io" where
  "read_blocks E d replace tot blocks s =
     then_io (ask E s) (\<lambda>_ s1.
       if 65536 \<le> length blocks then (Inl ''FLAC metadata block count exceeds 65536'', s1)
       else then_io (bytes_io E d 4 s1) (\<lambda>h s2.
         let len = get_be (drop 1 h); kind = u8 (h ! 0) mod 128 in
         if max_tag_bytes < tot + len + 4 then (Inl ''FLAC metadata exceeds 64 MiB'', s2)
         else then_io (if kind = 6 \<and> replace
                       then then_io (discard E d len 0 s2) (\<lambda>_ s3. (Inr [], s3))
                       else bytes_io E d len s2) (\<lambda>data s3.
           if 128 \<le> u8 (h ! 0) then (Inr (blocks @ [(kind, data)]), s3)
           else read_blocks E d replace (tot + len + 4) (blocks @ [(kind, data)]) s3)))"
  by pat_completeness auto
termination by (relation "measure (\<lambda>(E, d, c, t, blocks, s). 65536 - length blocks)") auto

declare read_blocks.simps [simp del]

text \<open>The enrichment contract: canonical keys, empty values skipped, no aliases removed.\<close>

definition embed_comments ::
    "(bytes \<Rightarrow> bytes list) \<Rightarrow> case_tables \<Rightarrow> bytes \<Rightarrow> tag_fields \<Rightarrow> bytes list \<Rightarrow> bytes list" where
  "embed_comments rx T mode fs comments =
     foldl (\<lambda>cs (key, value).
       if key = ''ARTIST'' \<or> key = ''ALBUMARTIST'' then
         (let vs = artist_values rx T (Some mode) value
          in if vs \<noteq> [] then add_artists key vs (set_comment T key [] cs) else cs)
       else set_comment T key value cs) comments (filter (\<lambda>(_, v). v \<noteq> []) fs)"

definition first_block :: "nat \<Rightarrow> block list \<Rightarrow> nat option" where
  "first_block k blocks = position (\<lambda>b. fst b = k) blocks"

fun put_blocks :: "bytes \<Rightarrow> block list \<Rightarrow> bytes res" where
  "put_blocks head [] = Inr head"
| "put_blocks head ((kind, data) # bs) =
     (if max_tag_bytes < length head + length data + 4 then Inl ''FLAC metadata exceeds 64 MiB''
      else if 0xffffff < length data then Inl ''FLAC metadata block exceeds 24-bit size''
      else put_blocks (head @ [char_of (kind + (if bs = [] then 128 else 0))] @ put_be24 (length data) @ data) bs)"

definition new_comments ::
    "(bytes \<Rightarrow> bytes list) \<Rightarrow> case_tables \<Rightarrow> tag_fields \<Rightarrow> bytes option \<Rightarrow> bytes list \<Rightarrow> bytes list" where
  "new_comments rx T fs mode comments =
     (case mode of Some m \<Rightarrow> embed_comments rx T m fs comments | None \<Rightarrow> edit_comments rx T fs comments)"

definition with_comments :: "block list \<Rightarrow> bytes \<Rightarrow> block list" where
  "with_comments blocks data =
     (case first_block 4 blocks of Some i \<Rightarrow> blocks[i := (fst (blocks ! i), data)] | None \<Rightarrow> blocks @ [(4, data)])"

definition with_cover :: "block list \<Rightarrow> bytes option \<Rightarrow> block list" where
  "with_cover blocks pic =
     filter (\<lambda>(k, _). k \<noteq> 6) blocks @ (case pic of None \<Rightarrow> [] | Some p \<Rightarrow> [(6, p)])"

definition flac_header ::
    "(bytes \<Rightarrow> bytes list) \<Rightarrow> case_tables \<Rightarrow> 'i image_lib \<Rightarrow> env \<Rightarrow> bytes \<Rightarrow> tag_fields \<Rightarrow> bytes option \<Rightarrow> bytes option \<Rightarrow>
     io \<Rightarrow> (bytes \<times> nat) res \<times> io" where
  "flac_header rx T img E d fs cover mode s =
     then_io (bytes_io E d 4 s) (\<lambda>signature s1.
       if signature \<noteq> ''fLaC'' then (Inl ''fLaC head incorrect'', s1)
       else then_io (read_blocks E d (cover \<noteq> None) 0 [] s1) (\<lambda>blocks s2.
         let audio_start = src_pos s2 in
         then_io (bytes_io E d 2 s2) (\<lambda>sync s3.
           if \<not> is_sync sync then (Inl ''frames do not begin with sync code'', s3)
           else case (case first_block 4 blocks of
                        Some i \<Rightarrow> parse_comments (snd (blocks ! i)) | None \<Rightarrow> Inr (''SpotiFLAC'', [])) of
             Inl e \<Rightarrow> (Inl e, s3)
           | Inr (vendor, comments) \<Rightarrow>
               let blocks1 = with_comments blocks (comment_block vendor (new_comments rx T fs mode comments)) in
               then_io (case cover of
                          None \<Rightarrow> (Inr blocks1, s3)
                        | Some c \<Rightarrow> then_io (picture img E c s3) (\<lambda>p s4. (Inr (with_cover blocks1 p), s4)))
                 (\<lambda>blocks2 s4. case put_blocks ''fLaC'' blocks2 of
                    Inl e \<Rightarrow> (Inl e, s4)
                  | Inr head \<Rightarrow> (Inr (head, audio_start), s4)))))"

definition seek_to :: "nat \<Rightarrow> io \<Rightarrow> io" where "seek_to p s = s\<lparr>src_pos := p\<rparr>"

text \<open>An empty cover counts as none.\<close>

definition real_cover :: "bytes option \<Rightarrow> bytes option" where
  "real_cover cover = (case cover of Some c \<Rightarrow> if c = [] then None else Some c | None \<Rightarrow> None)"

definition head_section :: "bytes \<Rightarrow> nat \<Rightarrow> sect" where
  "head_section data e = \<lparr>sec_start = 0, sec_end = e, sec_data = data\<rparr>"

text \<open>
  \<^verbatim>\<open>rewrite_audio_tags\<close> for FLAC (\<open>mode\<close> is \<^verbatim>\<open>None\<close>) and \<^verbatim>\<open>embed_flac_metadata\<close>, which share
  their steps; \<^verbatim>\<open>validate_fields\<close> comes after the first check.
\<close>

definition rewrite_flac ::
    "(bytes \<Rightarrow> bytes list) \<Rightarrow> case_tables \<Rightarrow> 'i image_lib \<Rightarrow> env \<Rightarrow> bytes \<Rightarrow> tag_fields \<Rightarrow> bytes option \<Rightarrow> bytes option \<Rightarrow>
     io \<Rightarrow> unit res \<times> io" where
  "rewrite_flac rx T img E d fs cover mode s =
     then_io (ask E s) (\<lambda>_ s1.
       case validate_fields fs of
         Inl e \<Rightarrow> (Inl e, s1)
       | Inr _ \<Rightarrow>
           then_io (flac_header rx T img E d fs (real_cover cover) mode (seek_to 0 s1)) (\<lambda>(data, e) s2.
             write_sections E d [head_section data e] s2))"

text \<open>The comparison of \<^verbatim>\<open>rewrite_flac_tags_if_changed\<close>, chunk by chunk.\<close>

fun same_chunks :: "env \<Rightarrow> bytes \<Rightarrow> bytes list \<Rightarrow> io \<Rightarrow> bool res \<times> io" where
  "same_chunks E d [] s = (Inr True, s)"
| "same_chunks E d (c # cs) s =
     then_io (bytes_io E d (length c) s) (\<lambda>b s1. if b \<noteq> c then (Inr False, s1) else same_chunks E d cs s1)"

definition rewrite_flac_if_changed ::
    "(bytes \<Rightarrow> bytes list) \<Rightarrow> case_tables \<Rightarrow> 'i image_lib \<Rightarrow> env \<Rightarrow> bytes \<Rightarrow> tag_fields \<Rightarrow> bytes option \<Rightarrow> io \<Rightarrow> bool res \<times> io" where
  "rewrite_flac_if_changed rx T img E d fs cover s =
     then_io (ask E s) (\<lambda>_ s1.
       case validate_fields fs of
         Inl e \<Rightarrow> (Inl e, s1)
       | Inr _ \<Rightarrow>
           then_io (flac_header rx T img E d fs (real_cover cover) None (seek_to 0 s1)) (\<lambda>(data, e) s2.
             let write = (\<lambda>s. then_io (write_sections E d [head_section data e] s) (\<lambda>_ s'. (Inr True, s')))
             in if length data = e then
                  then_io (same_chunks E d (chunks buffer_len data) (seek_to 0 s2)) (\<lambda>same s3.
                  then_io (ask E s3) (\<lambda>_ s4. if same then (Inr False, s4) else write s4))
                else write s2))"


section \<open>What reading in the environment gives\<close>

lemma slice_extend: "p \<le> q \<Longrightarrow> slice d p q @ slice d q r = slice d p (max q r)"
  using slice_join [of p q r d] by (cases "q \<le> r") (auto simp: slice_def max_def)

lemma exact_io_done: "n \<le> length acc \<Longrightarrow> exact_io E d n acc s = (Inr acc, s)"
  by (subst exact_io.simps) simp

lemma discard_done: "len \<le> offset \<Longrightarrow> discard E d len offset s = (Inr (), s)"
  by (subst discard.simps) simp

lemma exact_io_Inr:
  "exact_io E d n acc s = (Inr b, s') \<Longrightarrow> length acc \<le> n \<Longrightarrow> acc = slice d p (p + length acc) \<Longrightarrow>
     src_pos s = p + length acc \<Longrightarrow>
     b = slice d p (p + n) \<and> length b = n \<and> src_pos s' = p + n \<and> (n = length acc \<or> p + n \<le> length d)"
proof (induction E d n acc s rule: exact_io.induct)
  case (1 E d n acc s)
  show ?case
  proof (cases "n \<le> length acc")
    case True
    then have e: "n = length acc" using 1(3) by simp
    from 1(2) have "b = acc" "s' = s" by (simp_all add: exact_io_done [OF True])
    then show ?thesis using 1(4,5) unfolding e by simp
  next
    case False
    with 1(2) obtain c s1 where c: "read_some E d (n - length acc) s = (Inr c, s1)" "c \<noteq> []"
        "exact_io E d n (acc @ c) s1 = (Inr b, s')"
      by (cases "read_some E d (n - length acc) s"; cases "fst (read_some E d (n - length acc) s)")
        (auto simp: exact_io.simps [of E d n acc s] split: if_splits)
    note t = read_some_take [OF c(1,2)]
    have "length c \<le> n - length acc" using t by blast
    then have len: "length (acc @ c) \<le> n" using False unfolding length_append by linarith
    have "slice d p (p + length acc) @ slice d (p + length acc) (p + length acc + length c) = slice d p (p + length acc + length c)"
      by (rule slice_join) simp_all
    then have "acc @ c = slice d p (p + length (acc @ c))"
      using t 1(4,5) by (metis add.assoc length_append)
    moreover have "src_pos s1 = p + length (acc @ c)" using t 1(5) by simp
    ultimately have "b = slice d p (p + n) \<and> length b = n \<and> src_pos s' = p + n \<and> (n = length (acc @ c) \<or> p + n \<le> length d)"
      using 1(1) [OF False c(1,2,3) len] by blast
    moreover have "p + length (acc @ c) \<le> length d" using t 1(5) by simp
    ultimately show ?thesis by auto
  qed
qed

lemma bytes_io_Inr: "bytes_io E d n s = (Inr b, s') \<Longrightarrow>
  b = slice d (src_pos s) (src_pos s + n) \<and> length b = n \<and> src_pos s' = src_pos s + n \<and> (n = 0 \<or> src_pos s + n \<le> length d)"
  using exact_io_Inr [of E d n "[]" s b s' "src_pos s"] by (metis add.right_neutral le0 list.size(3) slice_def diff_self_eq_0 take0)

lemma appends_exact [io_steps]: "appends E s [] (exact_io E d n acc s)"
proof (induction E d n acc s rule: exact_io.induct)
  case (1 E d n acc s)
  show ?case
  proof (cases "n \<le> length acc")
    case True
    then show ?thesis by (simp add: exact_io.simps [of E d n acc s] appends_ok)
  next
    case False
    have "appends E s ([] @ []) (then_io (read_some E d (n - length acc) s) (\<lambda>b s1.
        if b = [] then (Inl (if acc = [] then ''EOF'' else ''unexpected EOF''), s1) else exact_io E d n (acc @ b) s1))"
      by (rule appends_seq [OF appends_read]) (use 1 False in \<open>auto simp: appends_error\<close>)
    then show ?thesis using False by (simp add: exact_io.simps [of E d n acc s])
  qed
qed

lemma discard_Inr: "discard E d len offset s = (Inr u, s') \<Longrightarrow> offset \<le> len \<Longrightarrow>
  src_pos s' = src_pos s + (len - offset) \<and> (len = offset \<or> src_pos s' \<le> length d)"
proof (induction E d len offset s rule: discard.induct)
  case (1 E d len offset s)
  show ?case
  proof (cases "len \<le> offset")
    case True
    then show ?thesis using 1(2,3) by (auto simp: discard_done)
  next
    case False
    with 1(2) obtain s1 c s2 where c: "ask E s = (Inr (), s1)" "read_some E d (min (len - offset) buffer_len) s1 = (Inr c, s2)"
        "c \<noteq> []" "discard E d len (offset + length c) s2 = (Inr u, s')"
      by (cases "ask E s"; cases "fst (ask E s)"; cases "read_some E d (min (len - offset) buffer_len) (snd (ask E s))";
          cases "fst (read_some E d (min (len - offset) buffer_len) (snd (ask E s)))")
        (auto simp: discard.simps [of E d len offset s] split: if_splits)
    note t = read_some_take [OF c(2,3)]
    have "src_pos s1 = src_pos s" using ask_pos [OF c(1)] .
    moreover have "length c \<le> len - offset" using t by simp
    moreover have "offset + length c \<le> len" using \<open>length c \<le> len - offset\<close> False by linarith
    then have "src_pos s' = src_pos s2 + (len - (offset + length c)) \<and> (len = offset + length c \<or> src_pos s' \<le> length d)"
      by (rule 1(1) [OF False c])
    moreover have "src_pos s2 = src_pos s1 + length c" "src_pos s1 + length c \<le> length d" using t by simp_all
    ultimately show ?thesis using False by auto
  qed
qed

lemma appends_discard [io_steps]: "appends E s [] (discard E d len offset s)"
proof (induction E d len offset s rule: discard.induct)
  case (1 E d len offset s)
  show ?case
  proof (cases "len \<le> offset")
    case True
    then show ?thesis by (simp add: discard.simps [of E d len offset s] appends_ok)
  next
    case False
    have "appends E s ([] @ [] @ []) (then_io (ask E s) (\<lambda>_ s1.
        then_io (read_some E d (min (len - offset) buffer_len) s1) (\<lambda>b s2.
          if b = [] then (Inl (if offset = 0 then ''EOF'' else ''unexpected EOF''), s2)
          else discard E d len (offset + length b) s2)))"
      by (intro appends_seq [OF appends_ask] appends_seq [OF appends_read])
        (use 1 False in \<open>auto simp: appends_error\<close>)
    then show ?thesis using False by (simp add: discard.simps [of E d len offset s])
  qed
qed


section \<open>Headers as lists of blocks\<close>

text \<open>The bytes of a list of metadata blocks; the last one carries the flag.\<close>

fun encode_blocks :: "block list \<Rightarrow> bytes" where
  "encode_blocks [] = []"
| "encode_blocks ((k, x) # bs) =
     char_of (k + (if bs = [] then 128 else 0)) # put_be24 (length x) @ x @ encode_blocks bs"

definition block_ok :: "block \<Rightarrow> bool" where
  "block_ok b \<longleftrightarrow> fst b < 128 \<and> length (snd b) < 2 ^ 24"

text \<open>A picture that is about to be replaced is read but not kept.\<close>

definition blank :: "bool \<Rightarrow> block \<Rightarrow> block" where
  "blank replace b = (fst b, if fst b = 6 \<and> replace then [] else snd b)"

lemma header_bytes: "length h = 4 \<Longrightarrow>
  h = char_of (u8 (h ! 0) mod 128 + (if 128 \<le> u8 (h ! 0) then 128 else 0)) # put_be24 (get_be (drop 1 h))"
proof -
  assume "length h = 4"
  then obtain b r where h: "h = b # r" "length r = 3" by (cases h) auto
  have "u8 b - 128 < 128" using u8_less [of b] by linarith
  then have "u8 b mod 128 + (if 128 \<le> u8 b then 128 else 0) = u8 b"
    by (cases "128 \<le> u8 b") (simp_all add: le_mod_geq)
  moreover have "put_be24 (get_be r) = r" using put_get_be [of r] h(2) by simp
  ultimately show ?thesis unfolding h(1) by simp
qed

lemma then_io_Inr: "then_io r f = (Inr y, s') \<longleftrightarrow> (\<exists>x s1. r = (Inr x, s1) \<and> f x s1 = (Inr y, s'))"
  by (cases r; cases "fst r") auto

lemma read_blocks_Inr:
  "read_blocks E d rep tot blocks s = (Inr bs, s') \<Longrightarrow>
     \<exists>raw. raw \<noteq> [] \<and> bs = blocks @ map (blank rep) raw \<and> slice d (src_pos s) (src_pos s') = encode_blocks raw \<and>
       src_pos s \<le> src_pos s' \<and> src_pos s' \<le> length d \<and> list_all block_ok raw"
proof (induction E d rep tot blocks s rule: read_blocks.induct)
  case (1 E d rep tot blocks s)
  let ?len = "\<lambda>h. get_be (drop 1 h)" and ?kind = "\<lambda>h. u8 (h ! 0) mod 128"
  let ?get = "\<lambda>h s2. if ?kind h = 6 \<and> rep then then_io (discard E d (?len h) 0 s2) (\<lambda>_ s3. (Inr [], s3))
    else bytes_io E d (?len h) s2"
  from 1(2) obtain u s1 where c1: "ask E s = (Inr u, s1)"
    and r1: "(if 65536 \<le> length blocks then (Inl ''FLAC metadata block count exceeds 65536'', s1)
       else then_io (bytes_io E d 4 s1) (\<lambda>h s2.
         let len = get_be (drop 1 h); kind = u8 (h ! 0) mod 128 in
         if max_tag_bytes < tot + len + 4 then (Inl ''FLAC metadata exceeds 64 MiB'', s2)
         else then_io (if kind = 6 \<and> rep
                       then then_io (discard E d len 0 s2) (\<lambda>_ s3. (Inr [], s3))
                       else bytes_io E d len s2) (\<lambda>data s3.
           if 128 \<le> u8 (h ! 0) then (Inr (blocks @ [(kind, data)]), s3)
           else read_blocks E d rep (tot + len + 4) (blocks @ [(kind, data)]) s3))) = (Inr bs, s')"
    unfolding read_blocks.simps [of E d rep tot blocks s] then_io_Inr by blast
  then have c2: "\<not> 65536 \<le> length blocks" by (cases "65536 \<le> length blocks") simp_all
  from r1 obtain h s2 where c3: "bytes_io E d 4 s1 = (Inr h, s2)"
    and r2: "(if max_tag_bytes < tot + ?len h + 4 then (Inl ''FLAC metadata exceeds 64 MiB'', s2)
         else then_io (?get h s2) (\<lambda>data s3.
           if 128 \<le> u8 (h ! 0) then (Inr (blocks @ [(?kind h, data)]), s3)
           else read_blocks E d rep (tot + ?len h + 4) (blocks @ [(?kind h, data)]) s3)) = (Inr bs, s')"
    unfolding if_not_P [OF c2] then_io_Inr Let_def by blast
  then have c4: "\<not> max_tag_bytes < tot + ?len h + 4" by (cases "max_tag_bytes < tot + ?len h + 4") simp_all
  from r2 obtain data s3 where c5: "?get h s2 = (Inr data, s3)"
    and rest: "(if 128 \<le> u8 (h ! 0) then (Inr (blocks @ [(?kind h, data)]), s3)
         else read_blocks E d rep (tot + ?len h + 4) (blocks @ [(?kind h, data)]) s3) = (Inr bs, s')"
    unfolding if_not_P [OF c4] then_io_Inr by blast
  note c = c1 c2 c3 c4 c5
  note h = bytes_io_Inr [OF c(3)]
  have p1: "src_pos s1 = src_pos s" by (rule ask_pos [OF c(1)])
  have h4: "length h = 4" "src_pos s2 = src_pos s + 4" "src_pos s + 4 \<le> length d" "slice d (src_pos s) (src_pos s + 4) = h"
    using h p1 by simp_all
  let ?raw = "slice d (src_pos s2) (src_pos s2 + ?len h)"
  have data: "src_pos s3 = src_pos s2 + ?len h \<and> src_pos s3 \<le> length d \<and> data = (if ?kind h = 6 \<and> rep then [] else ?raw)"
  proof (cases "?kind h = 6 \<and> rep")
    case True
    then obtain u where "discard E d (?len h) 0 s2 = (Inr u, s3)" "data = []"
      using c(5) by (auto simp: then_io_Inr)
    then show ?thesis using True discard_Inr [of E d "?len h" 0 s2 u s3] h4 by auto
  next
    case False
    then have "bytes_io E d (?len h) s2 = (Inr data, s3)" using c(5) by auto
    from bytes_io_Inr [OF this] h4 False show ?thesis by auto
  qed
  have rl: "length ?raw = ?len h" using data h4 by simp
  have lenh: "?len h < 2 ^ 24" using get_be_bound [of "drop 1 h"] h4 by simp
  let ?b = "(?kind h, ?raw)"
  have ok: "block_ok ?b" using lenh rl by (simp add: block_ok_def)
  have b: "blank rep ?b = (?kind h, data)" using data by (auto simp: blank_def)
  have part: "slice d (src_pos s) (src_pos s3) = h @ ?raw"
    using slice_join [of "src_pos s" "src_pos s2" "src_pos s3" d] h4 data by simp
  show ?case
  proof (cases "128 \<le> u8 (h ! 0)")
    case True
    then have bs: "bs = blocks @ [(?kind h, data)]" "s' = s3" using rest by auto
    have "encode_blocks [?b] = h @ ?raw" using header_bytes [OF h4(1)] True rl by simp
    then show ?thesis using bs b ok part h4 data by (intro exI [of _ "[?b]"]) auto
  next
    case False
    then have r: "read_blocks E d rep (tot + ?len h + 4) (blocks @ [(?kind h, data)]) s3 = (Inr bs, s')" using rest by simp
    from 1(1) [OF c(1,2,3) refl refl c(4,5) False this] obtain raw where raw: "raw \<noteq> []"
        "bs = (blocks @ [(?kind h, data)]) @ map (blank rep) raw" "slice d (src_pos s3) (src_pos s') = encode_blocks raw"
        "src_pos s3 \<le> src_pos s'" "src_pos s' \<le> length d" "list_all block_ok raw" by blast
    have "encode_blocks (?b # raw) = h @ ?raw @ encode_blocks raw"
      using header_bytes [OF h4(1)] False rl raw(1) by simp
    moreover have "slice d (src_pos s) (src_pos s') = slice d (src_pos s) (src_pos s3) @ slice d (src_pos s3) (src_pos s')"
      using slice_join [of "src_pos s" "src_pos s3" "src_pos s'" d] h4 data raw(4) by simp
    ultimately show ?thesis using raw b ok part h4 data by (intro exI [of _ "?b # raw"]) auto
  qed
qed

lemma put_blocks_Inr: "put_blocks head bs = Inr h \<Longrightarrow> h = head @ encode_blocks bs \<and> list_all (\<lambda>b. length (snd b) < 2 ^ 24) bs \<and>
    length h \<le> max max_tag_bytes (length head)"
  by (induction head bs rule: put_blocks.induct) (auto split: if_splits)


text \<open>The comments stored in a list of blocks: those of the first comment block, or none yet.\<close>

definition stored_comments :: "block list \<Rightarrow> (bytes \<times> bytes list) res" where
  "stored_comments blocks =
     (case first_block 4 blocks of Some i \<Rightarrow> parse_comments (snd (blocks ! i)) | None \<Rightarrow> Inr (''SpotiFLAC'', []))"

text \<open>The block list an edit means to write.\<close>

definition edited_blocks :: "block list \<Rightarrow> bytes \<Rightarrow> bytes list \<Rightarrow> bytes option option \<Rightarrow> block list" where
  "edited_blocks blocks vendor comments cover =
     (let bs = with_comments blocks (comment_block vendor comments)
      in case cover of None \<Rightarrow> bs | Some p \<Rightarrow> with_cover bs p)"

lemma first_block_Some: "first_block k bs = Some i \<Longrightarrow> i < length bs \<and> fst (bs ! i) = k \<and> (\<forall>j < i. fst (bs ! j) \<noteq> k)"
  unfolding first_block_def by (rule position_Some)

lemma first_block_blank [simp]: "first_block k (map (blank rep) bs) = first_block k bs"
  unfolding first_block_def by (induction bs) (auto simp: blank_def)

lemma blank_comments: "first_block 4 bs = Some i \<Longrightarrow> snd (map (blank rep) bs ! i) = snd (bs ! i)"
  using first_block_Some [of 4 bs i] by (simp add: blank_def)

lemma stored_blank [simp]: "stored_comments (map (blank rep) bs) = stored_comments bs"
  by (simp add: stored_comments_def blank_comments split: option.split)

lemma blank_pair: "blank rep (k, x) = (k, if k = 6 \<and> rep then [] else x)"
  by (simp add: blank_def)

lemma filter_update: "i < length xs \<Longrightarrow> fst (xs ! i) = 4 \<Longrightarrow>
  filter (\<lambda>(k, _). k \<noteq> 6) ((map (blank rep) xs)[i := (4, y)]) = filter (\<lambda>(k, _). k \<noteq> (6::nat)) (xs[i := (4, y)])"
proof (induction xs arbitrary: i)
  case (Cons x xs)
  have "filter (\<lambda>(k, _). k \<noteq> 6) (map (blank rep) xs) = filter (\<lambda>(k, _). k \<noteq> 6) xs" for xs
    by (induction xs) (auto simp: blank_def)
  with Cons show ?case by (cases i; cases x) (auto simp: blank_pair)
qed simp

lemma edited_blank: "edited_blocks (map (blank (cover \<noteq> None)) bs) v cs cover = edited_blocks bs v cs cover"
proof (cases cover)
  case None
  have "map (blank False) bs = bs" by (rule map_idI) (simp add: blank_def)
  with None show ?thesis by simp
next
  case (Some p)
  have f: "filter (\<lambda>(k, _). k \<noteq> 6) (map (blank rep) xs) = filter (\<lambda>(k, _). k \<noteq> 6) xs" for xs rep
    by (induction xs) (auto simp: blank_def)
  show ?thesis
  proof (cases "first_block 4 bs")
    case None
    then show ?thesis using Some by (simp add: edited_blocks_def with_comments_def with_cover_def f)
  next
    case i: (Some i)
    note b = first_block_Some [OF i]
    then have "fst (map (blank True) bs ! i) = 4" by (simp add: blank_def)
    with Some i b show ?thesis
      by (simp add: edited_blocks_def with_comments_def with_cover_def filter_update)
  qed
qed

text \<open>Reading operations compose: none of them writes.\<close>

lemma appends_then: "appends E s [] r \<Longrightarrow> (\<And>x s'. r = (Inr x, s') \<Longrightarrow> appends E s' w (f x s')) \<Longrightarrow> appends E s w (then_io r f)"
  using appends_seq [of E s "[]" r w f] by simp

lemma appends_if: "(b \<Longrightarrow> appends E s w r) \<Longrightarrow> (\<not> b \<Longrightarrow> appends E s w r') \<Longrightarrow> appends E s w (if b then r else r')"
  by simp

lemma appends_blocks [io_steps]: "appends E s [] (read_blocks E d rep tot blocks s)"
proof (induction E d rep tot blocks s rule: read_blocks.induct)
  case (1 E d rep tot blocks s)
  have get: "appends E s2 [] (if k then then_io (discard E d n 0 s2) (\<lambda>_ s3. (Inr [], s3)) else bytes_io E d n s2)" for k n s2
    by (simp add: appends_then appends_discard appends_ok appends_exact)
  show ?case
    unfolding read_blocks.simps [of E d rep tot blocks s] Let_def
    by (intro appends_then [OF appends_ask] appends_then [OF appends_exact] appends_then [OF get] appends_if
        appends_error refl appends_ok 1 [OF _ _ _ refl refl]; assumption)
qed


lemma appends_small: "appends E s [] (first_small E enc qs s)"
proof (induction qs arbitrary: s)
  case (Cons q qs)
  then show ?case
    by (auto intro!: appends_then [OF appends_ask] simp: appends_ok split: option.split)
qed (simp add: appends_ok)

lemma appends_finish: "appends E s [] (finish_picture img b, s)"
  by (cases "finish_picture img b") (simp_all add: appends_error appends_ok)

lemma appends_picture [io_steps]: "appends E s [] (picture img E c s)"
  unfolding picture_def
  by (intro appends_if appends_then [OF appends_ask] appends_finish)
    (auto intro!: appends_then [OF appends_small] appends_then [OF appends_ask] appends_then [OF appends_ok]
      simp: appends_error appends_ok appends_finish appends_small simp del: first_small.simps split: sum.split option.split)

lemma appends_header: "appends E s [] (flac_header rx T img E d fs cover mode s)"
  unfolding flac_header_def Let_def
  by (intro appends_then [OF appends_exact] appends_then [OF appends_blocks] appends_if)
    (auto intro!: appends_then appends_picture simp: appends_error appends_ok split: sum.split option.split)

text \<open>Inversion of a successful header edit.\<close>

lemma flac_header_Inr:
  assumes "flac_header rx T img E d fs cover mode s = (Inr (head, e), s')" and "src_pos s = 0"
  shows "\<exists>raw audio vendor comments p. raw \<noteq> [] \<and> list_all block_ok raw \<and> is_sync audio \<and> 2 \<le> length audio \<and>
    d = ''fLaC'' @ encode_blocks raw @ audio \<and> drop e d = audio \<and> stored_comments raw = Inr (vendor, comments) \<and>
    head = ''fLaC'' @ encode_blocks (edited_blocks raw vendor (new_comments rx T fs mode comments) p) \<and>
    (p = None \<longleftrightarrow> cover = None) \<and> length head \<le> max_tag_bytes \<and>
    list_all (\<lambda>b. length (snd b) < 2 ^ 24) (edited_blocks raw vendor (new_comments rx T fs mode comments) p)"
proof -
  from assms(1) obtain sg s1 where c1: "bytes_io E d 4 s = (Inr sg, s1)" "sg = ''fLaC''"
    and r1: "then_io (read_blocks E d (cover \<noteq> None) 0 [] s1) (\<lambda>blocks s2.
        let audio_start = src_pos s2 in
         then_io (bytes_io E d 2 s2) (\<lambda>sync s3.
           if \<not> is_sync sync then (Inl ''frames do not begin with sync code'', s3)
           else case (case first_block 4 blocks of
                        Some i \<Rightarrow> parse_comments (snd (blocks ! i)) | None \<Rightarrow> Inr (''SpotiFLAC'', [])) of
             Inl e \<Rightarrow> (Inl e, s3)
           | Inr (vendor, comments) \<Rightarrow>
               let blocks1 = with_comments blocks (comment_block vendor (new_comments rx T fs mode comments)) in
               then_io (case cover of
                          None \<Rightarrow> (Inr blocks1, s3)
                        | Some c \<Rightarrow> then_io (picture img E c s3) (\<lambda>p s4. (Inr (with_cover blocks1 p), s4)))
                 (\<lambda>blocks2 s4. case put_blocks ''fLaC'' blocks2 of
                    Inl e \<Rightarrow> (Inl e, s4)
                  | Inr head \<Rightarrow> (Inr (head, audio_start), s4)))) = (Inr (head, e), s')"
    by (auto simp: flac_header_def then_io_Inr [of "bytes_io E d 4 s"] split: if_splits)
  from r1 obtain blocks s2 sync s3 where c2: "read_blocks E d (cover \<noteq> None) 0 [] s1 = (Inr blocks, s2)"
    and c3: "bytes_io E d 2 s2 = (Inr sync, s3)" and sync: "is_sync sync"
    and r2: "(case stored_comments blocks of
             Inl e \<Rightarrow> (Inl e, s3)
           | Inr (vendor, comments) \<Rightarrow>
               let blocks1 = with_comments blocks (comment_block vendor (new_comments rx T fs mode comments)) in
               then_io (case cover of
                          None \<Rightarrow> (Inr blocks1, s3)
                        | Some c \<Rightarrow> then_io (picture img E c s3) (\<lambda>p s4. (Inr (with_cover blocks1 p), s4)))
                 (\<lambda>blocks2 s4. case put_blocks ''fLaC'' blocks2 of
                    Inl e \<Rightarrow> (Inl e, s4)
                  | Inr head \<Rightarrow> (Inr (head, src_pos s2), s4))) = (Inr (head, e), s')"
    unfolding then_io_Inr [of "read_blocks E d (cover \<noteq> None) 0 [] s1"] Let_def [of "src_pos _"] stored_comments_def [symmetric]
    by (auto simp: then_io_Inr [of "bytes_io E d 2 _"] split: if_splits)
  then obtain vendor comments where sc: "stored_comments blocks = Inr (vendor, comments)"
    by (cases "stored_comments blocks") auto
  let ?b1 = "with_comments blocks (comment_block vendor (new_comments rx T fs mode comments))"
  from r2 obtain p s4 where p: "p = None \<longleftrightarrow> cover = None"
    and r3: "(case put_blocks ''fLaC'' (edited_blocks blocks vendor (new_comments rx T fs mode comments) p) of
        Inl e \<Rightarrow> (Inl e, s4) | Inr head \<Rightarrow> (Inr (head, src_pos s2), s4)) = (Inr (head, e), s')"
  proof (cases cover)
    case None
    then show ?thesis using that [of None s3] r2 sc by (simp add: edited_blocks_def)
  next
    case (Some c)
    then obtain xa s5 where "picture img E c s3 = (Inr xa, s5)"
        "(case put_blocks ''fLaC'' (with_cover ?b1 xa) of
          Inl e \<Rightarrow> (Inl e, s5) | Inr head \<Rightarrow> (Inr (head, src_pos s2), s5)) = (Inr (head, e), s')"
      using r2 sc by (auto simp: then_io_Inr)
    then show ?thesis using that [of "Some xa" s5] Some by (simp add: edited_blocks_def)
  qed
  let ?new = "edited_blocks blocks vendor (new_comments rx T fs mode comments) p"
  from r3 have e: "e = src_pos s2" and pb: "put_blocks ''fLaC'' ?new = Inr head"
    by (cases "put_blocks ''fLaC'' ?new"; simp)+
  from read_blocks_Inr [OF c2] obtain raw where raw: "raw \<noteq> []" "blocks = map (blank (cover \<noteq> None)) raw"
      "slice d (src_pos s1) (src_pos s2) = encode_blocks raw" "src_pos s1 \<le> src_pos s2" "src_pos s2 \<le> length d"
      "list_all block_ok raw" by auto
  have s1: "src_pos s1 = 4" "take 4 d = ''fLaC''" using bytes_io_Inr [OF c1(1)] c1(2) assms(2) by (auto simp: slice_def)
  have sy: "sync = take 2 (drop (src_pos s2) d)" "src_pos s2 + 2 \<le> length d"
    using bytes_io_Inr [OF c3] by (auto simp: slice_def)
  have "d = take 4 d @ slice d 4 (src_pos s2) @ drop (src_pos s2) d"
    using raw(4) s1(1) by (simp add: slice_def) (metis append_take_drop_id drop_drop le_add_diff_inverse2)
  then have "d = ''fLaC'' @ encode_blocks raw @ drop e d" using s1 raw(3) e by simp
  moreover have "is_sync (drop e d)" using sync sy e by (simp add: is_sync_def)
  moreover have "?new = edited_blocks raw vendor (new_comments rx T fs mode comments) p"
    using edited_blank [of p raw] p raw(2) by simp
  moreover have "length head \<le> max max_tag_bytes (length ''fLaC'')" using put_blocks_Inr [OF pb] by blast
  then have "length head \<le> max_tag_bytes" by (simp add: max_tag_bytes_def)
  ultimately show ?thesis
    using raw sy e p sc put_blocks_Inr [OF pb]
    by (intro exI [of _ raw] exI [of _ "drop e d"] exI [of _ vendor] exI [of _ comments] exI [of _ p]) auto
qed


section \<open>Reading an encoded header\<close>

lemma flac_loop_encoded:
  "list_all block_ok bs \<Longrightarrow> bs \<noteq> [] \<Longrightarrow> is_sync audio \<Longrightarrow> 2 \<le> length audio \<Longrightarrow>
     flac_loop T (pre @ encode_blocks bs @ audio) want (length pre) st =
       Inr (foldl (\<lambda>st (k, x). flac_block T want k x st) st bs)"
proof (induction bs arbitrary: pre st)
  case (Cons b bs)
  obtain k x where b: "b = (k, x)" by (cases b)
  have kx: "k < 128" "length x < 2 ^ 24" using Cons.prems(1) b by (simp_all add: block_ok_def)
  let ?first = "char_of (k + (if bs = [] then 128 else 0)) :: byte"
  let ?h = "?first # put_be24 (length x)"
  let ?d = "pre @ encode_blocks (b # bs) @ audio"
  have uk: "u8 ?first = k + (if bs = [] then 128 else 0)" using kx by simp
  have d: "?d = pre @ ?h @ (x @ encode_blocks bs @ audio)" "?d = (pre @ ?h) @ x @ (encode_blocks bs @ audio)"
    using b by simp_all
  have h: "read_bytes ?d 4 (length pre) = Inr (?h, length pre + 4)"
    unfolding d(1) by (rule read_bytes_append) simp_all
  have len: "get_be (drop 1 ?h) = length x" using kx by simp
  have sl: "slice ?d (length pre + 4) (length pre + 4 + length x) = x"
    unfolding d(2) using slice_append_mid [of "pre @ ?h" x] by simp
  have small: "\<not> length ?d < length pre + 4 + length x" unfolding d(2) by simp
  have kind: "u8 (?h ! 0) mod 128 = k" using uk kx by (simp add: mod_add_self2)
  have last: "128 \<le> u8 (?h ! 0) \<longleftrightarrow> bs = []" using uk kx by auto
  have step: "flac_loop T ?d want (length pre) st =
      (let st' = flac_block T want k x st in
       if bs = [] then bind_res (read_bytes ?d 2 (length pre + 4 + length x)) (\<lambda>(sync, _).
             if is_sync sync then Inr st' else Inl ''frames do not begin with sync code'')
       else flac_loop T ?d want (length pre + 4 + length x) st')"
    unfolding flac_loop.simps [of T ?d want "length pre" st] h bind_res_simps prod.case Let_def len sl kind last
    using small by simp
  show ?case
  proof (cases "bs = []")
    case True
    have "read_bytes ((pre @ ?h @ x) @ take 2 audio @ drop 2 audio) 2 (length (pre @ ?h @ x)) = Inr (take 2 audio, length (pre @ ?h @ x) + 2)"
      using Cons.prems(4) by (intro read_bytes_append) auto
    then have "read_bytes ?d 2 (length pre + 4 + length x) = Inr (take 2 audio, length pre + 4 + length x + 2)"
      using True b by (simp add: add.assoc)
    moreover have "is_sync (take 2 audio)" using Cons.prems(3) by (simp add: is_sync_def)
    ultimately show ?thesis unfolding step using True b by simp
  next
    case False
    have "flac_loop T ((pre @ ?h @ x) @ encode_blocks bs @ audio) want (length (pre @ ?h @ x)) (flac_block T want k x st) =
        Inr (foldl (\<lambda>st (k, x). flac_block T want k x st) (flac_block T want k x st) bs)"
      using Cons.prems False by (intro Cons.IH) auto
    then show ?thesis unfolding step using False b by (simp add: add.assoc)
  qed
qed simp

lemma metadata_found: "fr_found st \<Longrightarrow> fr_metadata (flac_block T want k x st) = fr_metadata st \<and> fr_found (flac_block T want k x st)"
  by (auto simp: flac_block_def split: option.splits)

lemma metadata_found_all: "fr_found st \<Longrightarrow>
  fr_metadata (foldl (\<lambda>st (k, x). flac_block T want k x st) st bs) = fr_metadata st"
proof (induction bs arbitrary: st)
  case (Cons b bs)
  then show ?case using metadata_found [of st T want "fst b" "snd b"] by (cases b) simp
qed simp

lemma metadata_other: "k \<noteq> 4 \<Longrightarrow> fr_metadata (flac_block T want k x st) = fr_metadata st \<and> fr_found (flac_block T want k x st) = fr_found st"
  by (auto simp: flac_block_def split: option.splits)

text \<open>The reader takes the first comment block if it is valid.\<close>

lemma metadata_first:
  "first_block 4 bs = Some i \<Longrightarrow> valid_comments (snd (bs ! i)) \<Longrightarrow> \<not> fr_found st \<Longrightarrow>
     fr_metadata (foldl (\<lambda>st (k, x). flac_block T want k x st) st bs) =
       flac_comments T (fr_metadata st) (parse_block (snd (bs ! i)) usize_max)"
proof (induction bs arbitrary: i st)
  case Nil
  then show ?case by (simp add: first_block_def)
next
  case (Cons b bs)
  obtain k x where b: "b = (k, x)" by (cases b)
  show ?case
  proof (cases "k = 4")
    case True
    then have "i = 0" using Cons.prems(1) b by (simp add: first_block_def)
    then show ?thesis using True b Cons.prems metadata_found_all by (simp add: flac_block_def)
  next
    case False
    then obtain j where "first_block 4 bs = Some j" "i = Suc j"
      using Cons.prems(1) b by (auto simp: first_block_def)
    then show ?thesis using Cons.IH [of j "flac_block T want k x st"] Cons.prems b metadata_other [OF False] by simp
  qed
qed

text \<open>A written comment block is valid unless its last comment is empty.\<close>

lemma put_string_ne [simp]: "put_string s \<noteq> []"
  by (rule length_greater_0_conv [THEN iffD1]) simp

lemma valid_entries_step: "get_range d p (sat_add p 4) = Some l \<Longrightarrow>
  valid_entries d (Suc n) p \<longleftrightarrow> \<not> (length d < sat_add (sat_add p 4) (get_le l) \<or>
    get_le l = 0 \<and> sat_add (sat_add p 4) (get_le l) = length d) \<and> valid_entries d n (sat_add (sat_add p 4) (get_le l))"
  by (auto simp: Let_def)

lemma valid_entries_written:
  "length pre + length (concat (map put_string cs)) \<le> usize_max \<Longrightarrow> list_all short cs \<Longrightarrow> p = length pre \<Longrightarrow>
     valid_entries (pre @ concat (map put_string cs)) (length cs) p \<longleftrightarrow> cs = [] \<or> last cs \<noteq> []"
proof (induction cs arbitrary: pre p)
  case (Cons c cs)
  let ?d = "(pre @ put_string c) @ concat (map put_string cs)"
  have small: "length pre + 4 + length c \<le> usize_max" using Cons.prems by simp
  have l: "get_le (put_le32 (length c)) = length c" using Cons.prems by (simp add: short_def)
  have e: "get_range ?d p (sat_add p 4) = Some (put_le32 (length c))"
    using Cons.prems small by (simp add: put_string_def get_range_append_mid)
  have n: "sat_add (sat_add p 4) (length c) = length (pre @ put_string c)" using Cons.prems small by simp
  have "valid_entries ?d (length cs) (length (pre @ put_string c)) \<longleftrightarrow> cs = [] \<or> last cs \<noteq> []"
    using Cons.prems by (intro Cons.IH) auto
  then have "valid_entries ?d (Suc (length cs)) p \<longleftrightarrow> \<not> (c = [] \<and> concat (map put_string cs) = []) \<and> (cs = [] \<or> last cs \<noteq> [])"
    unfolding valid_entries_step [OF e] l n by (simp del: concat_eq_Nil_conv)
  moreover have "concat (map put_string cs) = [] \<longleftrightarrow> cs = []"
    by (cases cs) simp_all
  ultimately show ?case by auto
qed simp

lemma valid_comment_block:
  assumes "block_fits v cs" and "length (comment_block v cs) \<le> usize_max"
  shows "valid_comments (comment_block v cs) \<longleftrightarrow> cs = [] \<or> last cs \<noteq> []"
proof -
  let ?d = "comment_block v cs" and ?e = "length v + 8"
  have "get_range ?d 0 4 = Some (put_le32 (length v))"
    by (simp add: comment_block_def put_string_def get_range_def)
  moreover have "get_range (put_string v @ put_le32 (length cs) @ concat (map put_string cs)) (?e - 4) ?e = Some (put_le32 (length cs))"
    by (rule get_range_append_mid) auto
  moreover have "valid_entries ((put_string v @ put_le32 (length cs)) @ concat (map put_string cs)) (length cs) ?e \<longleftrightarrow> cs = [] \<or> last cs \<noteq> []"
    using assms by (intro valid_entries_written) (auto simp: block_fits_def comment_block_def)
  ultimately show ?thesis
    using assms by (simp add: valid_comments_def Let_def block_fits_def short_def comment_block_def)
qed


lemma stored_short: "stored_comments bs = Inr (v, cs) \<Longrightarrow> block_fits v cs"
  using parse_comments_Inr by (auto simp: stored_comments_def block_fits_def short_def split: option.splits)

lemma first_block_edited:
  "first_block 4 (with_comments bs x) = Some (case first_block 4 bs of None \<Rightarrow> length bs | Some i \<Rightarrow> i) \<and>
     snd (with_comments bs x ! (case first_block 4 bs of None \<Rightarrow> length bs | Some i \<Rightarrow> i)) = x"
proof (cases "first_block 4 bs")
  case None
  then have "position (\<lambda>b. fst b = 4) (bs @ (4, x) # []) = Some (length bs)"
    by (intro position_append) (auto simp: first_block_def position_None)
  with None show ?thesis by (simp add: with_comments_def first_block_def)
next
  case (Some i)
  have "position (\<lambda>b. fst b = 4) (bs[i := (fst (bs ! i), x)]) = position (\<lambda>b. fst b = 4) bs"
    by (induction bs arbitrary: i) (auto split: nat.splits)
  with Some first_block_Some [OF Some] show ?thesis by (simp add: with_comments_def first_block_def)
qed

lemma first_block_filter:
  "first_block 4 bs = Some i \<Longrightarrow> \<exists>j. first_block 4 (filter (\<lambda>(k, _). k \<noteq> 6) bs @ cs) = Some j \<and>
     snd ((filter (\<lambda>(k, _). k \<noteq> 6) bs @ cs) ! j) = snd (bs ! i)"
proof (induction bs arbitrary: i)
  case Nil
  then show ?case by (simp add: first_block_def)
next
  case (Cons b bs)
  obtain k x where b: "b = (k, x)" by (cases b)
  show ?case
  proof (cases "k = 4")
    case True
    with Cons.prems b show ?thesis by (auto simp: first_block_def)
  next
    case False
    with Cons.prems b obtain i' where i': "first_block 4 bs = Some i'" "i = Suc i'"
      by (auto simp: first_block_def)
    then obtain j where "first_block 4 (filter (\<lambda>(k, _). k \<noteq> 6) bs @ cs) = Some j"
        "snd ((filter (\<lambda>(k, _). k \<noteq> 6) bs @ cs) ! j) = snd (bs ! i')"
      using Cons.IH by blast
    then show ?thesis using False b i'
      by (cases "k = 6") (auto simp: first_block_def)
  qed
qed

lemma edited_first:
  "\<exists>i. first_block 4 (edited_blocks raw v cs p) = Some i \<and> snd (edited_blocks raw v cs p ! i) = comment_block v cs"
proof -
  let ?i = "case first_block 4 raw of None \<Rightarrow> length raw | Some i \<Rightarrow> i"
  have f: "first_block 4 (with_comments raw (comment_block v cs)) = Some ?i"
      "snd (with_comments raw (comment_block v cs) ! ?i) = comment_block v cs"
    using first_block_edited [of raw "comment_block v cs"] by blast+
  show ?thesis
  proof (cases p)
    case None
    with f show ?thesis by (simp add: edited_blocks_def)
  next
    case (Some q)
    with f first_block_filter [OF f(1)] show ?thesis by (simp add: edited_blocks_def with_cover_def)
  qed
qed

lemma edited_kinds: "list_all block_ok raw \<Longrightarrow> list_all (\<lambda>b. fst b < 128) (edited_blocks raw v cs p)"
proof -
  assume "list_all block_ok raw"
  then have k: "fst b < 128" if "b \<in> set raw" for b using that by (auto simp: list_all_iff block_ok_def)
  have "fst b < 128" if "b \<in> set (with_comments raw x)" for b x
    using that first_block_Some [of 4 raw]
    by (auto simp: with_comments_def dest!: set_update_subset_insert [THEN subsetD] split: option.splits intro: k)
  then have c: "list_all (\<lambda>b. fst b < 128) (with_comments raw x)" for x by (simp add: list_all_iff)
  show ?thesis
    using c [of "comment_block v cs"]
    by (cases p) (auto simp: edited_blocks_def with_cover_def list_all_iff split: option.splits)
qed

text \<open>Splitting a rewrite at the header.\<close>

lemma rewrite_flac_Inr:
  assumes "rewrite_flac rx T img E d fs cover mode s = (Inr (), s')"
  obtains raw audio vendor comments p where "raw \<noteq> []" "list_all block_ok raw" "is_sync audio" "2 \<le> length audio"
    "d = ''fLaC'' @ encode_blocks raw @ audio" "stored_comments raw = Inr (vendor, comments)" "p = None \<longleftrightarrow> real_cover cover = None"
    "list_all (\<lambda>b. length (snd b) < 2 ^ 24) (edited_blocks raw vendor (new_comments rx T fs mode comments) p)"
    "length (encode_blocks (edited_blocks raw vendor (new_comments rx T fs mode comments) p)) \<le> max_tag_bytes"
    "out s' = out s @ ''fLaC'' @ encode_blocks (edited_blocks raw vendor (new_comments rx T fs mode comments) p) @ audio"
proof -
  from assms obtain s1 where a: "ask E s = (Inr (), s1)"
    and r1: "(case validate_fields fs of
         Inl e \<Rightarrow> (Inl e, s1)
       | Inr _ \<Rightarrow>
           then_io (flac_header rx T img E d fs (real_cover cover) mode (seek_to 0 s1)) (\<lambda>(data, e) s2.
             write_sections E d [head_section data e] s2)) = (Inr (), s')"
    unfolding rewrite_flac_def then_io_Inr by auto
  then obtain head e s2 where h: "flac_header rx T img E d fs (real_cover cover) mode (seek_to 0 s1) = (Inr (head, e), s2)"
    and w: "write_sections E d [head_section head e] s2 = (Inr (), s')"
    by (cases "validate_fields fs") (auto simp: then_io_Inr)
  from flac_header_Inr [OF h] obtain raw audio vendor comments p where f: "raw \<noteq> []" "list_all block_ok raw" "is_sync audio" "2 \<le> length audio"
      "d = ''fLaC'' @ encode_blocks raw @ audio" "drop e d = audio" "stored_comments raw = Inr (vendor, comments)"
      "head = ''fLaC'' @ encode_blocks (edited_blocks raw vendor (new_comments rx T fs mode comments) p)"
      "p = None \<longleftrightarrow> real_cover cover = None" "length head \<le> max_tag_bytes"
      "list_all (\<lambda>b. length (snd b) < 2 ^ 24) (edited_blocks raw vendor (new_comments rx T fs mode comments) p)"
    by (auto simp: seek_to_def)
  have "out s1 = out s" using a by (auto simp: ask_def)
  moreover have "out s2 = out (seek_to 0 s1)"
    using appends_header [of E "seek_to 0 s1" rx T img d fs "real_cover cover" mode] h by (auto simp: appends_def)
  moreover have "out s' = out s2 @ head @ audio"
    using appends_loop [of 0 "[head_section head e]" "s2\<lparr>src_pos := 0\<rparr>" E d] w f(6)
    by (simp add: write_sections_def appends_move) (simp add: appends_def head_section_def slice_def)
  ultimately have "out s' = out s @ ''fLaC'' @ encode_blocks (edited_blocks raw vendor (new_comments rx T fs mode comments) p) @ audio"
    using f(8) by (simp add: seek_to_def)
  moreover have "length (encode_blocks (edited_blocks raw vendor (new_comments rx T fs mode comments) p)) \<le> max_tag_bytes"
    using f(8,10) by simp
  ultimately show thesis using that [OF f(1-5) f(7) f(9) f(11)] by blast
qed

text \<open>
  C6.  A FLAC tag edit changes nothing but the header: whenever it succeeds, whatever the reads and
  checks did, the source was a chain of metadata blocks followed by audio that starts with a frame
  sync, and the output is the same chain with the first comment block replaced (or one appended)
  and, if there is a new cover, the pictures replaced by it, followed by the audio byte for byte.
\<close>

theorem flac_edit_keeps_audio:
  assumes "rewrite_flac rx T img E d fs cover mode s = (Inr (), s')"
  shows "\<exists>raw audio vendor comments p. d = ''fLaC'' @ encode_blocks raw @ audio \<and> list_all block_ok raw \<and> is_sync audio \<and>
    stored_comments raw = Inr (vendor, comments) \<and> (p = None \<longleftrightarrow> real_cover cover = None) \<and>
    out s' = out s @ ''fLaC'' @ encode_blocks (edited_blocks raw vendor (new_comments rx T fs mode comments) p) @ audio"
proof (rule rewrite_flac_Inr [OF assms])
  fix raw audio vendor comments p
  assume r: "d = ''fLaC'' @ encode_blocks raw @ audio" "list_all block_ok raw" "is_sync audio"
    "stored_comments raw = Inr (vendor, comments)" "p = None \<longleftrightarrow> real_cover cover = None"
    "out s' = out s @ ''fLaC'' @ encode_blocks (edited_blocks raw vendor (new_comments rx T fs mode comments) p) @ audio"
  show ?thesis
    by (rule exI [of _ raw], rule exI [of _ audio], rule exI [of _ vendor], rule exI [of _ comments], rule exI [of _ p])
      (intro conjI r)
qed

text \<open>The reader on a written header.\<close>

lemma flac_read_written:
  assumes "list_all block_ok raw" "list_all (\<lambda>b. length (snd b) < 2 ^ 24) (edited_blocks raw v cs p)"
    and "is_sync audio" "2 \<le> length audio" and "block_fits v cs" "cs = [] \<or> last cs \<noteq> []"
  shows "flac_read T (''fLaC'' @ encode_blocks (edited_blocks raw v cs p) @ audio) = Inr (flac_comments T no_metadata (items cs))"
proof -
  let ?bs = "edited_blocks raw v cs p" and ?d = "''fLaC'' @ encode_blocks (edited_blocks raw v cs p) @ audio"
  let ?st = "\<lparr>fr_metadata = no_metadata, fr_found = False, fr_front = False, fr_cover = None\<rparr>"
  obtain i where i: "first_block 4 ?bs = Some i" "snd (?bs ! i) = comment_block v cs" using edited_first by blast
  have il: "i < length ?bs" using first_block_Some [OF i(1)] by simp
  then have "length (snd (?bs ! i)) < 2 ^ 24" using assms(2) by (simp add: list_all_length)
  then have small: "length (comment_block v cs) \<le> usize_max" using i(2) by (simp add: usize_max_def)
  have ok: "list_all block_ok ?bs" using edited_kinds [OF assms(1), of v cs p] assms(2) by (simp add: list_all_iff block_ok_def)
  have "read_bytes ([] @ ''fLaC'' @ encode_blocks ?bs @ audio) 4 0 = Inr (''fLaC'', 0 + 4)"
    by (rule read_bytes_append) simp_all
  moreover have "length ''fLaC'' = 4" by simp
  moreover have "flac_loop T ?d False (length ''fLaC'') ?st = Inr (foldl (\<lambda>st (k, x). flac_block T False k x st) ?st ?bs)"
    by (rule flac_loop_encoded) (use ok il assms in auto)
  then have "flac_loop T ?d False 4 ?st = Inr (foldl (\<lambda>st (k, x). flac_block T False k x st) ?st ?bs)"
    unfolding \<open>length ''fLaC'' = 4\<close> .
  moreover have "fr_metadata (foldl (\<lambda>st (k, x). flac_block T False k x st) ?st ?bs) = flac_comments T no_metadata (parse_block (comment_block v cs) usize_max)"
    using metadata_first [OF i(1), of ?st T False] valid_comment_block [OF assms(5) small] assms(6) i(2) by simp
  moreover have "parse_block (comment_block v cs) usize_max = items cs"
    using parse_block_written [OF assms(5), of "[]"] small by simp
  ultimately show ?thesis by (simp add: flac_read_def flac_inner_def map_error_def)
qed


text \<open>
  C28.  What a FLAC edit writes, the FLAC reader reads: the metadata shown for the new file are those
  of the edited comments of the old one, whichever of the two editing contracts is used and whatever
  blocks surround the comments, as long as the lengths of the new comments fit into 32 bits and the
  last comment is not empty (the reader rejects such a block, as the code it replaced did).
\<close>

theorem flac_edit_is_read_back:
  assumes "rewrite_flac rx T img E d fs cover mode s = (Inr (), s')"
  shows "\<exists>raw audio vendor comments f. d = ''fLaC'' @ encode_blocks raw @ audio \<and>
    stored_comments raw = Inr (vendor, comments) \<and> out s' = out s @ f \<and>
    (let new = new_comments rx T fs mode comments
     in block_fits vendor new \<and> (new = [] \<or> last new \<noteq> []) \<longrightarrow>
          flac_read T f = Inr (flac_comments T no_metadata (items new)))"
proof (rule rewrite_flac_Inr [OF assms])
  fix raw audio vendor comments p
  assume r: "raw \<noteq> []" "list_all block_ok raw" "is_sync audio" "2 \<le> length audio"
    "d = ''fLaC'' @ encode_blocks raw @ audio" "stored_comments raw = Inr (vendor, comments)"
    "list_all (\<lambda>b. length (snd b) < 2 ^ 24) (edited_blocks raw vendor (new_comments rx T fs mode comments) p)"
    "out s' = out s @ ''fLaC'' @ encode_blocks (edited_blocks raw vendor (new_comments rx T fs mode comments) p) @ audio"
  let ?new = "new_comments rx T fs mode comments"
  let ?bs = "edited_blocks raw vendor ?new p"
  have "flac_read T (''fLaC'' @ encode_blocks ?bs @ audio) = Inr (flac_comments T no_metadata (items ?new))"
    if fits: "block_fits vendor ?new" "?new = [] \<or> last ?new \<noteq> []"
    by (rule flac_read_written [OF r(2,7,3,4) fits])
  note rd = this
  have read: "let new = ?new in block_fits vendor new \<and> (new = [] \<or> last new \<noteq> []) \<longrightarrow>
      flac_read T (''fLaC'' @ encode_blocks ?bs @ audio) = Inr (flac_comments T no_metadata (items new))"
    unfolding Let_def using rd by blast
  show ?thesis
    by (rule exI [of _ raw], rule exI [of _ audio], rule exI [of _ vendor], rule exI [of _ comments],
        rule exI [of _ "''fLaC'' @ encode_blocks ?bs @ audio"]) (intro conjI r read)
qed


section \<open>Edits succeed\<close>

lemma quiet_exact:
  "quiet E \<Longrightarrow> length acc \<le> n \<Longrightarrow> src_pos s + (n - length acc) \<le> length d \<Longrightarrow> \<exists>b s'. exact_io E d n acc s = (Inr b, s')"
proof (induction E d n acc s rule: exact_io.induct)
  case (1 E d n acc s)
  show ?case
  proof (cases "n \<le> length acc")
    case True
    then show ?thesis by (simp add: exact_io_done)
  next
    case False
    obtain b s1 where b: "read_some E d (n - length acc) s = (Inr b, s1)" using quiet_read [OF 1(2)] by blast
    have ne: "b \<noteq> []"
    proof
      assume "b = []"
      then have "length d \<le> src_pos s" using read_some_empty [of E d "n - length acc" s s1] b False by auto
      then show False using 1(4) False by linarith
    qed
    note t = read_some_take [OF b ne]
    then have l: "length (acc @ b) \<le> n" "src_pos s1 + (n - length (acc @ b)) \<le> length d"
      using False 1(4) by (simp_all add: le_diff_conv2 del: length_append) (use False 1(4) in \<open>simp_all\<close>)
    from 1(1) [OF False b ne 1(2) l] show ?thesis
      using b ne False by (subst exact_io.simps) simp
  qed
qed

lemma quiet_bytes: "quiet E \<Longrightarrow> src_pos s + n \<le> length d \<Longrightarrow>
  \<exists>s'. bytes_io E d n s = (Inr (slice d (src_pos s) (src_pos s + n)), s') \<and> src_pos s' = src_pos s + n"
proof -
  assume "quiet E" "src_pos s + n \<le> length d"
  then obtain b s' where "bytes_io E d n s = (Inr b, s')" using quiet_exact [of E "[]" n s d] by auto
  then show ?thesis using bytes_io_Inr [of E d n s b s'] by auto
qed


lemma quiet_discard:
  "quiet E \<Longrightarrow> offset \<le> len \<Longrightarrow> src_pos s + (len - offset) \<le> length d \<Longrightarrow> \<exists>s'. discard E d len offset s = (Inr (), s')"
proof (induction E d len offset s rule: discard.induct)
  case (1 E d len offset s)
  show ?case
  proof (cases "len \<le> offset")
    case True
    then show ?thesis by (simp add: discard_done)
  next
    case False
    let ?s1 = "s\<lparr>checks := checks s + 1\<rparr>" and ?n = "min (len - offset) buffer_len"
    have n0: "?n \<noteq> 0" using False by (simp add: buffer_len_def)
    obtain b s2 where b: "read_some E d ?n ?s1 = (Inr b, s2)" using quiet_read [OF 1(2)] by blast
    have ne: "b \<noteq> []"
    proof
      assume "b = []"
      then have "length d \<le> src_pos s" using read_some_empty [OF _ n0, of E d ?s1 s2] b by simp
      then show False using 1(4) False by linarith
    qed
    have "src_pos ?s1 = src_pos s" by simp
    with read_some_take [OF b ne] have t: "src_pos s2 = src_pos s + length b" "length b \<le> ?n" by argo+
    then have "length b \<le> len - offset" by simp
    then have l: "offset + length b \<le> len" "src_pos s2 + (len - (offset + length b)) \<le> length d"
      using False 1(4) t(1) by linarith+
    have "discard E d len offset s = discard E d len (offset + length b) s2"
      unfolding discard.simps [of E d len offset s] using b ne False by (simp add: quiet_ask [OF 1(2)])
    then show ?thesis using 1(1) [OF False quiet_ask [OF 1(2)] b ne 1(2) l] by simp
  qed
qed

lemma quiet_blocks:
  "quiet E \<Longrightarrow> list_all block_ok raw \<Longrightarrow> raw \<noteq> [] \<Longrightarrow> length blocks + length raw \<le> 65536 \<Longrightarrow>
     tot + length (encode_blocks raw) \<le> max_tag_bytes \<Longrightarrow> d = pre @ encode_blocks raw @ audio \<Longrightarrow> src_pos s = length pre \<Longrightarrow>
     \<exists>s'. read_blocks E d rep tot blocks s = (Inr (blocks @ map (blank rep) raw), s') \<and>
       src_pos s' = length pre + length (encode_blocks raw)"
proof (induction raw arbitrary: pre tot blocks s)
  case (Cons b raw)
  obtain k x where b: "b = (k, x)" by (cases b)
  have kx: "k < 128" "length x < 2 ^ 24" using Cons.prems(2) b by (simp_all add: block_ok_def)
  let ?first = "char_of (k + (if raw = [] then 128 else 0)) :: byte"
  let ?h = "?first # put_be24 (length x)"
  let ?s1 = "s\<lparr>checks := checks s + 1\<rparr>"
  have uk: "u8 ?first = k + (if raw = [] then 128 else 0)" using kx by simp
  have d: "d = pre @ ?h @ x @ encode_blocks raw @ audio" using Cons.prems(6) b by simp
  obtain s2 where s2: "bytes_io E d 4 ?s1 = (Inr ?h, s2)" "src_pos s2 = length pre + 4"
    using quiet_bytes [OF Cons.prems(1), of ?s1 4 d] Cons.prems(7) slice_append_mid [of pre ?h] d by auto
  have len: "get_be (drop 1 ?h) = length x" using kx by simp
  have kind: "u8 (?h ! 0) mod 128 = k" using uk kx by (simp add: mod_add_self2)
  have last: "128 \<le> u8 (?h ! 0) \<longleftrightarrow> raw = []" using uk kx by auto
  have tot: "\<not> max_tag_bytes < tot + length x + 4" using Cons.prems(5) b by simp
  have "\<exists>data s3. (if k = 6 \<and> rep then then_io (discard E d (length x) 0 s2) (\<lambda>_ s3. (Inr [], s3))
      else bytes_io E d (length x) s2) = (Inr data, s3) \<and> data = snd (blank rep b) \<and> src_pos s3 = length pre + 4 + length x"
  proof (cases "k = 6 \<and> rep")
    case True
    obtain s3 where "discard E d (length x) 0 s2 = (Inr (), s3)"
      using quiet_discard [OF Cons.prems(1), of 0 "length x" s2 d] s2 d by auto
    then show ?thesis using discard_Inr [of E d "length x" 0 s2 "()" s3] True s2 b by (simp add: blank_def)
  next
    case False
    have "slice d (length (pre @ ?h)) (length (pre @ ?h) + length x) = x"
      using slice_append_mid [of "pre @ ?h" x "encode_blocks raw @ audio"] d by simp
    then have "slice d (src_pos s2) (src_pos s2 + length x) = x" using s2 by simp
    then show ?thesis using False quiet_bytes [OF Cons.prems(1), of s2 "length x" d] s2 d b by (auto simp: blank_def)
  qed
  then obtain s3 where s3: "(if k = 6 \<and> rep then then_io (discard E d (length x) 0 s2) (\<lambda>_ s3. (Inr [], s3))
      else bytes_io E d (length x) s2) = (Inr (snd (blank rep b)), s3)" "src_pos s3 = length pre + 4 + length x" by blast
  have nb: "\<not> 65536 \<le> length blocks" using Cons.prems(4) by simp
  have step: "read_blocks E d rep tot blocks s = (if raw = [] then (Inr (blocks @ [blank rep b]), s3)
      else read_blocks E d rep (tot + length x + 4) (blocks @ [blank rep b]) s3)"
    unfolding read_blocks.simps [of E d rep tot blocks s] quiet_ask [OF Cons.prems(1)] then_io_simps if_not_P [OF nb] s2(1)
      Let_def len kind last if_not_P [OF tot] s3(1)
    using b by (simp add: blank_def)
  show ?case
  proof (cases "raw = []")
    case True
    then show ?thesis unfolding step using s3 b by simp
  next
    case False
    have "\<exists>s'. read_blocks E d rep (tot + length x + 4) (blocks @ [blank rep b]) s3 =
        (Inr ((blocks @ [blank rep b]) @ map (blank rep) raw), s') \<and>
        src_pos s' = length (pre @ ?h @ x) + length (encode_blocks raw)"
      by (rule Cons.IH) (use Cons.prems False s3 d b in auto)
    then show ?thesis unfolding step using False b by auto
  qed
qed simp

lemma flac_success:
  assumes "quiet E" and "validate_fields fs = Inr ()" and "d = ''fLaC'' @ encode_blocks raw @ audio"
    and "list_all block_ok raw" and "raw \<noteq> []" and "length raw \<le> 65536" and "length (encode_blocks raw) \<le> max_tag_bytes"
    and "is_sync audio" and "2 \<le> length audio" and "stored_comments raw = Inr (vendor, comments)"
    and "put_blocks ''fLaC'' (edited_blocks raw vendor (new_comments rx T fs mode comments) None) = Inr head"
    and "real_cover cover = None"
  shows "fst (rewrite_flac rx T img E d fs cover mode s) = Inr ()"
proof -
  let ?s1 = "seek_to 0 (s\<lparr>checks := checks s + 1\<rparr>)" and ?e = "4 + length (encode_blocks raw)"
  obtain s2 where s2: "bytes_io E d 4 ?s1 = (Inr ''fLaC'', s2)" "src_pos s2 = 4"
    using quiet_bytes [OF assms(1), of ?s1 4 d] assms(3) by (auto simp: seek_to_def slice_def)
  obtain s3 where s3: "read_blocks E d False 0 [] s2 = (Inr (map (blank False) raw), s3)" "src_pos s3 = ?e"
    using quiet_blocks [OF assms(1,4,5), of "[]" 0 d "''fLaC''" audio s2 False] assms s2(2) by auto
  have bl: "map (blank False) raw = raw" by (rule map_idI) (simp add: blank_def)
  have "drop (length (''fLaC'' @ encode_blocks raw)) ((''fLaC'' @ encode_blocks raw) @ audio) = audio"
    by (metis append_eq_conv_conj)
  moreover have "length (''fLaC'' @ encode_blocks raw) = ?e" by simp
  ultimately have dr: "drop ?e d = audio" using assms(3) by (simp only: append_assoc)
  have "?e + 2 \<le> length d" using assms(3,9) by simp
  then obtain s4 where s4: "bytes_io E d 2 s3 = (Inr (take 2 audio), s4)"
    using quiet_bytes [OF assms(1), of s3 2 d] s3(2) dr by (auto simp: slice_def)
  have sync: "is_sync (take 2 audio)" using assms(8) by (simp add: is_sync_def)
  have sc: "(case first_block 4 raw of Some i \<Rightarrow> parse_comments (snd (raw ! i)) | None \<Rightarrow> Inr (''SpotiFLAC'', [])) = Inr (vendor, comments)"
    using assms(10) by (simp add: stored_comments_def)
  have "flac_header rx T img E d fs None mode ?s1 = (Inr (head, ?e), s4)"
    using s2(1) s3 s4 sync sc assms(11) by (simp add: flac_header_def Let_def bl edited_blocks_def)
  moreover have "fst (write_sections E d [head_section head ?e] s4) = Inr ()"
    by (rule conjunct1 [OF rewrite_succeeds [OF assms(1)]]) (simp_all add: head_section_def starts_inside_def)
  ultimately show ?thesis
    using assms(2,12) by (simp add: rewrite_flac_def quiet_ask [OF assms(1)])
qed


text \<open>
  A FLAC edit without a new cover succeeds: when no read, write or check fails, the fields are
  within their limit, the file is a chain of at most 65536 metadata blocks of at most 64 MiB followed
  by a frame sync, its comment block parses, and the edited blocks fit into the header limits, then
  the rewrite returns a success, however the reads are cut.
\<close>

theorem flac_edit_succeeds:
  assumes "quiet E" and "validate_fields fs = Inr ()" and "d = ''fLaC'' @ encode_blocks raw @ audio"
    and "list_all block_ok raw" and "raw \<noteq> []" and "length raw \<le> 65536" and "length (encode_blocks raw) \<le> max_tag_bytes"
    and "is_sync audio" and "2 \<le> length audio" and "stored_comments raw = Inr (vendor, comments)"
    and "put_blocks ''fLaC'' (edited_blocks raw vendor (new_comments rx T fs mode comments) None) = Inr head"
    and "real_cover cover = None"
  shows "fst (rewrite_flac rx T img E d fs cover mode s) = Inr ()"
  by (rule flac_success [OF assms])

section \<open>Pictures are read back\<close>

lemma read_here: "p = length pre \<Longrightarrow> n = length b \<Longrightarrow> d = pre @ b @ post \<Longrightarrow> read_bytes d n p = Inr (b, p + n)"
  using read_bytes_append by simp

lemma picture_block_written:
  assumes "data \<noteq> []" "length data < 2 ^ 32" "length mime \<le> 256"
  shows "picture_block (picture_bytes mime dims depth data) limits =
    (if limits \<and> 10000000 < length data then None else Some (3, \<lparr>ca_data = data, ca_mime = utf8 mime\<rparr>))"
proof -
  let ?d = "picture_bytes mime dims depth data"
  let ?m = "put_be32 (length mime)" and ?l = "put_be32 (length data)"
  let ?mid = "''Front Cover'' @ put_be32 (fst dims) @ put_be32 (snd dims) @ put_be32 depth @ put_be32 0"
  have r1: "read_bytes ?d 4 0 = Inr (put_be32 3, 4)"
    using read_here [of 0 "[]" 4 "put_be32 3" ?d] by (simp add: picture_bytes_def)
  have r2: "read_bytes ?d 4 4 = Inr (?m, 8)"
    using read_here [of 4 "put_be32 3" 4 ?m ?d] by (simp add: picture_bytes_def)
  have m: "get_be ?m = length mime" using assms(3) by simp
  have r3: "read_bytes ?d (length mime) 8 = Inr (mime, 8 + length mime)"
    using read_here [of 8 "put_be32 3 @ ?m" "length mime" mime ?d] by (simp add: picture_bytes_def)
  have r4: "read_bytes ?d 4 (8 + length mime) = Inr (put_be32 11, 8 + length mime + 4)"
    by (rule read_here [of _ "put_be32 3 @ ?m @ mime" _ _ _ "?mid @ ?l @ data"]) (simp_all add: picture_bytes_def)
  have r5: "read_bytes ?d 4 (8 + length mime + 4 + 11 + 16) = Inr (?l, 8 + length mime + 4 + 11 + 16 + 4)"
    by (rule read_here [of _ "put_be32 3 @ ?m @ mime @ put_be32 11 @ ?mid" _ _ _ data]) (simp_all add: picture_bytes_def)
  have r6: "read_bytes ?d (length data) (8 + length mime + 4 + 11 + 16 + 4) = Inr (data, 8 + length mime + 4 + 11 + 16 + 4 + length data)"
    by (rule read_here [of _ "put_be32 3 @ ?m @ mime @ put_be32 11 @ ?mid @ ?l" _ _ _ "[]"]) (simp_all add: picture_bytes_def)
  have l: "get_be ?l = length data" "get_be (put_be32 11) = 11" "get_be (put_be32 3) = 3" using assms(2) by simp_all
  have len: "length ?d = 43 + length mime + length data" by (simp add: picture_bytes_def)
  have c1: "\<not> (length ?d - 8 < length mime \<or> limits \<and> 256 < length mime)" using assms(3) len by simp
  have c2: "\<not> (limits \<and> 10000 < (11::nat))" by simp
  have c3: "(length data = 0 \<or> length ?d - (8 + length mime + 4 + 11 + 16 + 4) < length data \<or> limits \<and> 10000000 < length data) \<longleftrightarrow>
      limits \<and> 10000000 < length data"
    using assms len by simp
  show ?thesis
    unfolding picture_block_def r1 bind_res_simps prod.case r2 m if_not_P [OF c1] r3 r4 l if_not_P [OF c2] Let_def r5
      c3 r6 by simp
qed

lemma cover_mime_utf8: "utf8 (cover_mime data) = cover_mime data \<and> length (cover_mime data) \<le> 256"
  by (simp add: cover_mime_def ascii_utf8 ascii_str_def)

text \<open>
  The picture block that the writer builds is read back as the same front cover: type 3, the
  bytes of the image and the sniffed type, by the FLAC reader for any image below 4 GiB and by the
  stricter Ogg reader up to its limit of 10 MB.
\<close>

theorem picture_is_read_back:
  assumes "finish_picture img data = Inr (Some block)" and "data \<noteq> []" and "length data < 2 ^ 32"
  shows "picture_block block limits =
    (if limits \<and> 10000000 < length data then None
     else Some (3, \<lparr>ca_data = data, ca_mime = cover_mime data\<rparr>))"
proof -
  obtain dims depth where "block = picture_bytes (cover_mime data) dims depth data"
    using assms(1) by (auto simp: finish_picture_def Let_def res_iff split: option.splits)
  then show ?thesis using picture_block_written [OF assms(2,3)] cover_mime_utf8 by simp
qed

section \<open>Examples\<close>

text \<open>A file with an empty block of type 0, a parameterless image library and an environment that reads 100 bytes at a time.\<close>

definition no_images :: "unit image_lib" where
  "no_images = \<lparr>im_guess = (\<lambda>_. Inr ()), im_decode = (\<lambda>_. None), im_jpeg = (\<lambda>_ _. None), im_resize = (\<lambda>x _. x),
     im_dimensions = (\<lambda>_. None)\<rparr>"

definition steady :: env where
  "steady = \<lparr>env_check = (\<lambda>_. Inr ()), env_read = (\<lambda>_. Inr 99), env_write = (\<lambda>_. None)\<rparr>"

definition plain_tables :: case_tables where
  "plain_tables = \<lparr>to_lower = (\<lambda>c. [c]), to_upper = (\<lambda>c. [c])\<rparr>"

definition tiny_flac :: bytes where
  "tiny_flac = ''fLaC'' @ encode_blocks [(0, [])] @ [CHR 0xFF, CHR 0xF8, CHR 0x07]"

definition start_io :: io where "start_io = \<lparr>out = [], src_pos = 0, checks = 0, reads = 0, writes = 0\<rparr>"

lemma tiny_edit: "edit_comments (\<lambda>s. [s]) plain_tables [(''title'', ''New'')] [] = [''TITLE=New'']"
  by (simp add: edit_comments_def edit_simple_def clear_aliases_def edit_artist_def edit_number_def edit_lyrics_def
      simple_keys_def alias_keys_def set_comment_def)

lemma tiny_stored: "stored_comments [(0, [])] = Inr (''SpotiFLAC'', [])"
  by (simp add: stored_comments_def first_block_def)

lemma tiny_success:
  "fst (rewrite_flac (\<lambda>s. [s]) plain_tables no_images steady tiny_flac [(''title'', ''New'')] None None start_io) = Inr ()"
  by (rule flac_success [of _ _ _ "[(0, [])]" "[CHR 0xFF, CHR 0xF8, CHR 0x07]" "''SpotiFLAC''" "[]"])
    (simp_all add: steady_def quiet_def validate_fields_def usize_max_def max_tag_bytes_def tiny_flac_def block_ok_def is_sync_def
      tiny_stored new_comments_def tiny_edit edited_blocks_def with_comments_def first_block_def comment_block_def put_string_def
      real_cover_def)

theorem flac_edit_succeeds_witness:
  "fst (rewrite_flac (\<lambda>s. [s]) plain_tables no_images steady tiny_flac [(''title'', ''New'')] None None start_io) = Inr ()"
  by (rule flac_edit_succeeds [of _ _ _ "[(0, [])]" "[CHR 0xFF, CHR 0xF8, CHR 0x07]" "''SpotiFLAC''" "[]"])
    (simp_all add: steady_def quiet_def validate_fields_def usize_max_def max_tag_bytes_def tiny_flac_def block_ok_def is_sync_def
      tiny_stored new_comments_def tiny_edit edited_blocks_def with_comments_def first_block_def comment_block_def put_string_def
      real_cover_def)


lemma tiny_result: "\<exists>s'. rewrite_flac (\<lambda>s. [s]) plain_tables no_images steady tiny_flac [(''title'', ''New'')] None None start_io = (Inr (), s')"
  using tiny_success by (metis prod.collapse)

theorem flac_edit_keeps_audio_witness:
  "\<exists>raw audio vendor comments p. tiny_flac = ''fLaC'' @ encode_blocks raw @ audio \<and> list_all block_ok raw \<and> is_sync audio \<and>
    stored_comments raw = Inr (vendor, comments) \<and> (p = None \<longleftrightarrow> real_cover None = None) \<and>
    out (snd (rewrite_flac (\<lambda>s. [s]) plain_tables no_images steady tiny_flac [(''title'', ''New'')] None None start_io)) =
      out start_io @ ''fLaC'' @ encode_blocks (edited_blocks raw vendor
        (new_comments (\<lambda>s. [s]) plain_tables [(''title'', ''New'')] None comments) p) @ audio"
proof -
  obtain s' where r: "rewrite_flac (\<lambda>s. [s]) plain_tables no_images steady tiny_flac [(''title'', ''New'')] None None start_io = (Inr (), s')"
    using tiny_result by blast
  show ?thesis using flac_edit_keeps_audio [OF r] unfolding r snd_conv .
qed

theorem flac_edit_is_read_back_witness:
  "\<exists>raw audio vendor comments f. tiny_flac = ''fLaC'' @ encode_blocks raw @ audio \<and>
    stored_comments raw = Inr (vendor, comments) \<and>
    out (snd (rewrite_flac (\<lambda>s. [s]) plain_tables no_images steady tiny_flac [(''title'', ''New'')] None None start_io)) =
      out start_io @ f \<and>
    (let new = new_comments (\<lambda>s. [s]) plain_tables [(''title'', ''New'')] None comments
     in block_fits vendor new \<and> (new = [] \<or> last new \<noteq> []) \<longrightarrow>
          flac_read plain_tables f = Inr (flac_comments plain_tables no_metadata (items new)))"
proof -
  obtain s' where r: "rewrite_flac (\<lambda>s. [s]) plain_tables no_images steady tiny_flac [(''title'', ''New'')] None None start_io = (Inr (), s')"
    using tiny_result by blast
  show ?thesis using flac_edit_is_read_back [OF r] unfolding r snd_conv .
qed


theorem picture_is_read_back_witness:
  "picture_block (picture_bytes ''image/jpeg'' (0, 0) 0 [CHR 0xFF, CHR 0xD8, CHR 0xFF]) True =
     Some (3, \<lparr>ca_data = [CHR 0xFF, CHR 0xD8, CHR 0xFF], ca_mime = ''image/jpeg''\<rparr>)"
  using picture_is_read_back [of no_images "[CHR 0xFF, CHR 0xD8, CHR 0xFF]" "picture_bytes ''image/jpeg'' (0, 0) 0 [CHR 0xFF, CHR 0xD8, CHR 0xFF]" True]
  by (simp add: finish_picture_def no_images_def cover_mime_def starts_with_def)

end
