(* ===== verification/Ogg.thy ===== *)
theory Ogg
  imports Flac F64
begin

text \<open>
  Ogg files: pages, packets and the tag reader (the Ogg part of
  rust\_backend/crates/core/src/tags/containers.rs) and the comment rewriter
  (rust\_backend/crates/core/src/tags/write/ogg.rs).  Base64 is a parameter.
\<close>

section \<open>Pages\<close>

record ogg_page =
  pg_header :: bytes
  pg_segments :: "nat list"
  pg_data :: bytes

definition page_len :: "ogg_page \<Rightarrow> nat" where
  "page_len p = 27 + length (pg_segments p) + length (pg_data p)"

text \<open>The first 27 bytes; the end of the file before the first of them is not an error.\<close>

function read_head :: "env \<Rightarrow> bytes \<Rightarrow> bytes \<Rightarrow> io \<Rightarrow> bytes option res \<times> io" where
  "read_head E d acc s =
     (if 27 \<le> length acc then (Inr (Some acc), s)
      else then_io (read_some E d (27 - length acc) s) (\<lambda>b s1.
        if b = [] then (if acc = [] then (Inr None, s1) else (Inl ''unexpected EOF'', s1))
        else read_head E d (acc @ b) s1))"
  by pat_completeness auto
termination by (relation "measure (\<lambda>(E, d, acc, s). 27 - length acc)") (auto intro!: diff_less_mono2)

declare read_head.simps [simp del]

definition read_ogg :: "env \<Rightarrow> bytes \<Rightarrow> io \<Rightarrow> ogg_page option res \<times> io" where
  "read_ogg E d s =
     then_io (read_head E d [] s) (\<lambda>h s1.
       case h of
         None \<Rightarrow> (Inr None, s1)
       | Some header \<Rightarrow>
           if take 4 header \<noteq> ''OggS'' then (Inl ''not an Ogg page'', s1)
           else then_io (bytes_io E d (u8 (header ! 26)) s1) (\<lambda>sg s2.
             let segments = map of_char sg in
             then_io (bytes_io E d (sum_list segments) s2) (\<lambda>data s3.
               (Inr (Some \<lparr>pg_header = header, pg_segments = segments, pg_data = data\<rparr>), s3))))"

section \<open>The packet reader\<close>

definition max_packet :: nat where "max_packet = 10 * 1024 * 1024"

record packet_state =
  pk_packets :: "bytes list"
  pk_current :: bytes
  pk_skip :: bool

text \<open>The segments of one page; \<open>True\<close> when the wanted number of packets is reached.\<close>

fun page_packets :: "nat \<Rightarrow> nat list \<Rightarrow> bytes \<Rightarrow> packet_state \<Rightarrow> bool \<times> packet_state" where
  "page_packets want [] data st = (False, st)"
| "page_packets want (n # ns) data st =
     (let st1 = (if \<not> pk_skip st \<and> max_packet < length (pk_current st) + n
                 then st\<lparr>pk_current := [], pk_skip := True\<rparr> else st);
          st2 = (if \<not> pk_skip st1 then st1\<lparr>pk_current := pk_current st1 @ take n data\<rparr> else st1);
          rest = drop n data
      in if n < 255 then
           (let st3 = (if pk_current st2 \<noteq> []
                       then st2\<lparr>pk_packets := pk_packets st2 @ [pk_current st2], pk_current := []\<rparr> else st2);
                st4 = st3\<lparr>pk_skip := False\<rparr>
            in if want \<le> length (pk_packets st4) then (True, st4) else page_packets want ns rest st4)
         else page_packets want ns rest st2)"

fun ogg_pages :: "env \<Rightarrow> bytes \<Rightarrow> nat \<Rightarrow> nat \<Rightarrow> packet_state \<Rightarrow> io \<Rightarrow> bytes list res \<times> io" where
  "ogg_pages E d want 0 st s = (Inr (pk_packets st), s)"
| "ogg_pages E d want (Suc n) st s =
     (case read_ogg E d s of
        (Inr (Some page), s1) \<Rightarrow>
          let continued = u8 (pg_header page ! 5) mod 2 = 1;
              st1 = (if \<not> continued \<and> pk_current st \<noteq> [] then st\<lparr>pk_current := [], pk_skip := False\<rparr> else st);
              (done, st2) = page_packets want (pg_segments page) (pg_data page) st1
          in if done \<or> want \<le> length (pk_packets st2) then (Inr (pk_packets st2), s1)
             else ogg_pages E d want n st2 s1
      | (Inr None, s1) \<Rightarrow> if pk_packets st = [] then (Inl ''EOF'', s1) else (Inr (pk_packets st), s1)
      | (Inl e, s1) \<Rightarrow> if pk_packets st = [] then (Inl e, s1) else (Inr (pk_packets st), s1))"

definition ogg_packets :: "env \<Rightarrow> bytes \<Rightarrow> nat \<Rightarrow> nat \<Rightarrow> io \<Rightarrow> bytes list res \<times> io" where
  "ogg_packets E d max_packets max_pages =
     ogg_pages E d max_packets max_pages \<lparr>pk_packets = [], pk_current = [], pk_skip = False\<rparr>"

definition vorbis_head :: "nat \<Rightarrow> bytes" where "vorbis_head n = char_of n # ''vorbis''"

definition find_map :: "('a \<Rightarrow> 'b option) \<Rightarrow> 'a list \<Rightarrow> 'b option" where
  "find_map f xs = (case List.map_filter f xs of [] \<Rightarrow> None | y # _ \<Rightarrow> Some y)"

definition ogg_stream_is_opus :: "bytes list \<Rightarrow> bool option" where
  "ogg_stream_is_opus packets = find_map (\<lambda>p.
     if starts_with p ''OpusHead'' then Some True
     else if 7 < length p \<and> starts_with p (vorbis_head 1) then Some False else None) packets"

section \<open>The tag reader\<close>

definition ogg_tag_body :: "bool option \<Rightarrow> bytes \<Rightarrow> bytes option" where
  "ogg_tag_body stream p =
     (if stream \<noteq> Some False \<and> 8 < length p \<and> starts_with p ''OpusTags'' then Some (drop 8 p)
      else if stream \<noteq> Some True \<and> 7 < length p \<and> starts_with p (vorbis_head 3) then Some (drop 7 p)
      else None)"

definition ogg_metadata :: "case_tables \<Rightarrow> bytes list \<Rightarrow> audio_metadata res" where
  "ogg_metadata T packets =
     (let m = (case find_map (ogg_tag_body (ogg_stream_is_opus packets)) packets of
                 None \<Rightarrow> no_metadata
               | Some data \<Rightarrow> ogg_comments T (parse_block data (512 * 1024)))
      in if am_title m = [] \<and> am_artist m = [] \<and> am_track_gain m = [] \<and> am_album_gain m = []
         then Inl ''no Vorbis comments found'' else Inr m)"

definition ogg_read :: "case_tables \<Rightarrow> env \<Rightarrow> bytes \<Rightarrow> io \<Rightarrow> audio_metadata res \<times> io" where
  "ogg_read T E d s = then_io (ogg_packets E d 30 80 s) (\<lambda>packets s1. (ogg_metadata T packets, s1))"

record base64 =
  b64_encode :: "bytes \<Rightarrow> bytes"
  b64_decode :: "bytes \<Rightarrow> bytes option"
  b64_decode_no_pad :: "bytes \<Rightarrow> bytes option"

definition cover_of_item :: "base64 \<Rightarrow> item \<Rightarrow> cover_art option" where
  "cover_of_item B = (\<lambda>(key, value).
     if \<not> eq_ignore_ascii_case key ''METADATA_BLOCK_PICTURE'' then None
     else let v = filter (\<lambda>b. b \<notin> {CHR 0x20, CHR 0x09, CHR 0x0D, CHR 0x0A}) value
          in case (case b64_decode B v of Some x \<Rightarrow> Some x | None \<Rightarrow> b64_decode_no_pad B v) of
               None \<Rightarrow> None
             | Some decoded \<Rightarrow> map_option snd (picture_block decoded True))"

definition cover_of_packet :: "base64 \<Rightarrow> bool option \<Rightarrow> bytes \<Rightarrow> cover_art option" where
  "cover_of_packet B stream p =
     (if stream \<noteq> Some False \<and> starts_with p ''OpusTags'' then find_map (cover_of_item B) (parse_block (drop 8 p) 10000000)
      else if stream \<noteq> Some True \<and> starts_with p (vorbis_head 3) then find_map (cover_of_item B) (parse_block (drop 7 p) 10000000)
      else None)"

definition ogg_cover :: "base64 \<Rightarrow> env \<Rightarrow> bytes \<Rightarrow> io \<Rightarrow> cover_art res \<times> io" where
  "ogg_cover B E d s =
     then_io (ogg_packets E d 30 80 s) (\<lambda>packets s1.
       (ok_or (find_map (cover_of_packet B (ogg_stream_is_opus packets)) packets) ''no cover art found'', s1))"


section \<open>The page writer\<close>

definition put_at :: "bytes \<Rightarrow> nat \<Rightarrow> bytes \<Rightarrow> bytes" where
  "put_at xs i ys = take i xs @ ys @ drop (i + length ys) xs"

text \<open>The checksum: polynomial 0x04c11db7, no reflection, one table lookup per byte.\<close>

definition crc_shift :: "32 word \<Rightarrow> 32 word" where
  "crc_shift v = push_bit 1 v XOR (if v AND 0x80000000 \<noteq> 0 then 0x04c11db7 else 0)"

definition crc_entry :: "nat \<Rightarrow> 32 word" where
  "crc_entry index = (crc_shift ^^ 8) (push_bit 24 (word_of_nat index))"

definition crc_table :: "32 word list" where "crc_table = map crc_entry [0..<256]"

definition crc_byte :: "32 word \<Rightarrow> byte \<Rightarrow> 32 word" where
  "crc_byte crc b = push_bit 8 crc XOR crc_table ! unat (drop_bit 24 crc XOR word_of_nat (u8 b))"

definition ogg_crc :: "bytes \<Rightarrow> 32 word" where "ogg_crc bs = foldl crc_byte 0 bs"

definition page_bytes :: "ogg_page \<Rightarrow> bytes" where
  "page_bytes p =
     (let head = put_at (put_at (pg_header p) 22 [CHR 0x00, CHR 0x00, CHR 0x00, CHR 0x00]) 26 [char_of (length (pg_segments p))];
          bs = head @ map char_of (pg_segments p) @ pg_data p
      in put_at bs 22 (put_le32 (unat (ogg_crc bs))))"

definition write_page :: "env \<Rightarrow> ogg_page \<Rightarrow> io \<Rightarrow> unit res \<times> io" where
  "write_page E p s = then_io (ask E s) (\<lambda>_ s1. write_all E (page_bytes p) s1)"

definition read_page :: "env \<Rightarrow> bytes \<Rightarrow> io \<Rightarrow> ogg_page option res \<times> io" where
  "read_page E d s =
     then_io (read_ogg E d s) (\<lambda>page s1.
       case page of
         Some p \<Rightarrow> if u8 (pg_header p ! 4) \<noteq> 0 then (Inl ''invalid ogg page'', s1) else (Inr page, s1)
       | None \<Rightarrow> (Inr None, s1))"

section \<open>Writing header packets\<close>

record page_state =
  ps_page :: ogg_page
  ps_sequence :: nat

definition number_page :: "nat \<Rightarrow> ogg_page \<Rightarrow> ogg_page" where
  "number_page n p = p\<lparr>pg_header := put_at (pg_header p) 18 (put_le32 n)\<rparr>"

definition next_u32 :: "nat \<Rightarrow> nat" where "next_u32 n = (n + 1) mod 2 ^ 32"

text \<open>One step of the inner loop: the next at most 255 bytes of a packet.\<close>

definition push_segment :: "env \<Rightarrow> bytes \<Rightarrow> page_state \<Rightarrow> io \<Rightarrow> page_state res \<times> io" where
  "push_segment E b st s =
     (let p = (ps_page st)\<lparr>pg_segments := pg_segments (ps_page st) @ [length b], pg_data := pg_data (ps_page st) @ b\<rparr>
      in if length (pg_segments p) = 255 then
           let q = number_page (ps_sequence st) p in
           then_io (write_page E q s) (\<lambda>_ s1.
             (Inr \<lparr>ps_page = q\<lparr>pg_segments := [], pg_data := [],
                pg_header := put_at (pg_header q) 5 [if length b = 255 then CHR 0x01 else CHR 0x00]\<rparr>,
                ps_sequence = next_u32 (ps_sequence st)\<rparr>, s1))
         else (Inr (st\<lparr>ps_page := p\<rparr>), s))"

function push_packet :: "env \<Rightarrow> bytes \<Rightarrow> page_state \<Rightarrow> io \<Rightarrow> page_state res \<times> io" where
  "push_packet E rest st s =
     then_io (push_segment E (take 255 rest) st s) (\<lambda>st1 s1.
       if length rest < 255 then (Inr st1, s1) else push_packet E (drop 255 rest) st1 s1)"
  by pat_completeness auto
termination by (relation "measure (\<lambda>(E, rest, st, s). length rest)") auto

declare push_packet.simps [simp del]

fun push_packets :: "env \<Rightarrow> bytes list \<Rightarrow> page_state \<Rightarrow> io \<Rightarrow> page_state res \<times> io" where
  "push_packets E [] st s = (Inr st, s)"
| "push_packets E (p # ps) st s = then_io (push_packet E p st s) (\<lambda>st1 s1. push_packets E ps st1 s1)"

definition header_page :: "bytes \<Rightarrow> ogg_page" where
  "header_page serial =
     \<lparr>pg_header = put_at (put_at (replicate 27 CHR 0x00) 0 ''OggS'') 14 serial, pg_segments = [], pg_data = []\<rparr>"

definition write_headers :: "env \<Rightarrow> bytes list \<Rightarrow> bytes \<Rightarrow> io \<Rightarrow> nat res \<times> io" where
  "write_headers E packets serial s =
     then_io (push_packets E packets \<lparr>ps_page = header_page serial, ps_sequence = 1\<rparr> s) (\<lambda>st s1.
       if pg_segments (ps_page st) \<noteq> [] then
         then_io (write_page E (number_page (ps_sequence st) (ps_page st)) s1) (\<lambda>_ s2.
           (Inr (next_u32 (ps_sequence st)), s2))
       else (Inr (ps_sequence st), s1))"

section \<open>R128 gains\<close>

text \<open>\<^verbatim>\<open>str::parse::<f64>\<close>: the grammar of the standard library, correctly rounded.\<close>

definition digits_value :: "bytes \<Rightarrow> nat" where "digits_value ds = foldl (\<lambda>n d. n * 10 + (u8 d - 48)) 0 ds"

definition strip_sign :: "bytes \<Rightarrow> bool \<times> bytes" where
  "strip_sign s = (case s of c # cs \<Rightarrow> if c = CHR ''-'' then (True, cs) else if c = CHR ''+'' then (False, cs) else (False, s)
     | [] \<Rightarrow> (False, []))"

definition parse_exponent :: "bytes \<Rightarrow> int option" where
  "parse_exponent s =
     (case s of
        [] \<Rightarrow> Some 0
      | c # cs \<Rightarrow>
          if c = CHR ''e'' \<or> c = CHR ''E'' then
            (let (neg, ds) = strip_sign cs
             in if ds = [] \<or> \<not> list_all is_digit ds then None
                else Some (if neg then - int (digits_value ds) else int (digits_value ds)))
          else None)"

definition parse_f64 :: "bytes \<Rightarrow> f64 option" where
  "parse_f64 s =
     (let (neg, r) = strip_sign s; l = map ascii_lower r in
      if r = [] then None
      else if l = ''inf'' \<or> l = ''infinity'' then Some (Infty neg)
      else if l = ''nan'' then Some NaN
      else let whole = takeWhile is_digit r; r1 = dropWhile is_digit r;
               (frac_part, r2) = (case r1 of c # cs \<Rightarrow> if c = CHR ''.'' then (takeWhile is_digit cs, dropWhile is_digit cs) else ([], r1)
                                  | [] \<Rightarrow> ([], []))
           in if whole = [] \<and> frac_part = [] then None
              else case parse_exponent r2 of
                None \<Rightarrow> None
              | Some e \<Rightarrow>
                  let v = rat_of_nat (digits_value (whole @ frac_part)) * power_int 10 (e - int (length frac_part))
                  in Some (fl (if neg then - v else v)))"

fun f_minus_five :: "f64 \<Rightarrow> f64" where
  "f_minus_five (Fin a) = fl (a - 5)"
| "f_minus_five x = x"

definition strip_suffix :: "bytes \<Rightarrow> bytes \<Rightarrow> bytes" where
  "strip_suffix suf s = (if suf = drop (length s - length suf) s then take (length s - length suf) s else s)"

text \<open>The gain in 1/256 dB relative to -23 LUFS; \<open>debug\<close> is the standard library's \<^verbatim>\<open>{:?}\<close> of a string.\<close>

definition r128_value :: "(bytes \<Rightarrow> bytes) \<Rightarrow> bytes \<Rightarrow> bytes \<Rightarrow> bytes res" where
  "r128_value debug scope raw =
     (if raw = [] then Inr []
      else case map_option (\<lambda>db. f_round (f_scale (f_minus_five db) 256)) (parse_f64 (trim (strip_suffix ''dB'' raw))) of
        Some (Fin q) \<Rightarrow>
          if - 32768 \<le> q \<and> q \<le> 32767 then Inr (show_int (trunc_rat q))
          else Inl (''invalid Opus '' @ scope @ '' ReplayGain: '' @ debug raw)
      | _ \<Rightarrow> Inl (''invalid Opus '' @ scope @ '' ReplayGain: '' @ debug raw))"

fun opus_gains :: "(bytes \<Rightarrow> bytes) \<Rightarrow> case_tables \<Rightarrow> tag_fields \<Rightarrow> (bytes \<times> bytes) list \<Rightarrow> bytes list \<Rightarrow> bytes list res" where
  "opus_gains debug T fs [] comments = Inr comments"
| "opus_gains debug T fs ((scope, upper) # scopes) comments =
     (case bt_get fs (''replaygain_'' @ scope @ ''_gain'') of
        None \<Rightarrow> opus_gains debug T fs scopes comments
      | Some raw \<Rightarrow>
          bind_res (r128_value debug scope (trim raw)) (\<lambda>v.
            opus_gains debug T fs scopes
              (set_comment T (''REPLAYGAIN_'' @ upper @ ''_PEAK'') []
                (set_comment T (''REPLAYGAIN_'' @ upper @ ''_GAIN'') []
                  (set_comment T (''R128_'' @ upper @ ''_GAIN'') v comments)))))"

definition opus_gain :: "(bytes \<Rightarrow> bytes) \<Rightarrow> case_tables \<Rightarrow> tag_fields \<Rightarrow> bytes list \<Rightarrow> bytes list res" where
  "opus_gain debug T fs = opus_gains debug T fs [(''track'', ''TRACK''), (''album'', ''ALBUM'')]"


section \<open>Rewriting a file\<close>

text \<open>The segments of one header page: complete packets are collected until \<open>want\<close> of them are there.\<close>

fun gather :: "nat \<Rightarrow> nat list \<Rightarrow> bytes \<Rightarrow> bytes \<Rightarrow> bytes list \<Rightarrow> (bytes \<times> bytes list) res" where
  "gather want [] data current packets = Inr (current, packets)"
| "gather want (n # ns) data current packets =
     (let cur = current @ take n data; rest = drop n data
      in if n < 255 then
           (let ps = packets @ [cur]
            in if length ps = want then
                 (if ns \<noteq> [] then Inl ''header packet shares a page with audio'' else Inr ([], ps))
               else gather want ns rest [] ps)
         else gather want ns rest cur packets)"

definition serial_of :: "ogg_page \<Rightarrow> bytes" where "serial_of p = slice (pg_header p) 14 18"

record header_state =
  hs_current :: bytes
  hs_packets :: "bytes list"
  hs_bytes :: nat
  hs_pages :: nat

function header_loop :: "env \<Rightarrow> bytes \<Rightarrow> bytes \<Rightarrow> nat \<Rightarrow> ogg_page \<Rightarrow> header_state \<Rightarrow> io \<Rightarrow> header_state res \<times> io" where
  "header_loop E d serial want page st s =
     then_io (ask E s) (\<lambda>_ s1.
       let pages = hs_pages st + 1; total_bytes = hs_bytes st + page_len page in
       if max_tag_bytes < total_bytes then (Inl ''Ogg headers exceed 64 MiB'', s1)
       else if serial_of page \<noteq> serial then (Inl ''multiplexed ogg streams are not supported'', s1)
       else case gather want (pg_segments page) (pg_data page) (hs_current st) (hs_packets st) of
         Inl e \<Rightarrow> (Inl e, s1)
       | Inr (cur, ps) \<Rightarrow>
           let st1 = \<lparr>hs_current = cur, hs_packets = ps, hs_bytes = total_bytes, hs_pages = pages\<rparr> in
           if length ps = want then (Inr st1, s1)
           else if 1024 \<le> pages then (Inl ''ogg header spans too many pages'', s1)
           else then_io (read_page E d s1) (\<lambda>next_page s2.
             case next_page of
               None \<Rightarrow> (Inl ''incomplete ogg header packets'', s2)
             | Some p \<Rightarrow> header_loop E d serial want p st1 s2))"
  by pat_completeness auto
termination by (relation "measure (\<lambda>(E, d, serial, want, page, st, s). 1024 - hs_pages st)") auto

declare header_loop.simps [simp del]

definition codec_of :: "ogg_page \<Rightarrow> (bool \<times> nat) option" where
  "codec_of p =
     (if starts_with (pg_data p) ''OpusHead'' then Some (True, 2)
      else if starts_with (pg_data p) (vorbis_head 1) then Some (False, 3)
      else None)"

lemma read_head_pos: "read_head E d acc s = (Inr h, s') \<Longrightarrow> src_pos s \<le> src_pos s' \<and>
  (h \<noteq> None \<longrightarrow> length acc < 27 \<longrightarrow> src_pos s < src_pos s' \<and> src_pos s' \<le> length d)"
proof (induction E d acc s rule: read_head.induct)
  case (1 E d acc s)
  show ?case
  proof (cases "27 \<le> length acc")
    case True
    then have "read_head E d acc s = (Inr (Some acc), s)" by (subst read_head.simps) simp
    then show ?thesis using 1(2) True by simp
  next
    case False
    from 1(2) obtain b s1 where b: "read_some E d (27 - length acc) s = (Inr b, s1)"
      and r: "(if b = [] then (if acc = [] then (Inr None, s1) else (Inl ''unexpected EOF'', s1))
        else read_head E d (acc @ b) s1) = (Inr h, s')"
      unfolding read_head.simps [of E d acc s] if_not_P [OF False] then_io_Inr by blast
    show ?thesis
    proof (cases "b = []")
      case True
      then show ?thesis using r read_some_Inr [OF b] by (auto split: if_splits)
    next
      case ne: False
      have t: "src_pos s1 = src_pos s + length b" "src_pos s + length b \<le> length d" using read_some_take [OF b ne] by blast+
      have h: "read_head E d (acc @ b) s1 = (Inr h, s')" using r ne by simp
      have "0 < length b" using ne by simp
      show ?thesis
      proof (cases "27 \<le> length (acc @ b)")
        case True
        then have "s' = s1" using h by (subst (asm) read_head.simps) simp
        then show ?thesis using t \<open>0 < length b\<close> by simp
      next
        case False
        then show ?thesis using 1(1) [OF \<open>\<not> 27 \<le> length acc\<close> b ne h] t \<open>0 < length b\<close> by auto
      qed
    qed
  qed
qed

lemma read_page_pos: "read_page E d s = (Inr (Some p), s') \<Longrightarrow> length d - src_pos s' < length d - src_pos s"
proof -
  assume "read_page E d s = (Inr (Some p), s')"
  then have "read_ogg E d s = (Inr (Some p), s')"
    by (auto simp: read_page_def then_io_Inr split: option.splits if_splits)
  then obtain h s1 sg s2 data where h: "read_head E d [] s = (Inr (Some h), s1)"
      "bytes_io E d (u8 (h ! 26)) s1 = (Inr sg, s2)" "bytes_io E d (sum_list (map of_char sg)) s2 = (Inr data, s')"
    by (auto simp: read_ogg_def then_io_Inr Let_def split: option.splits if_splits)
  have "src_pos s < src_pos s1" "src_pos s1 \<le> length d" using read_head_pos [OF h(1)] by simp_all
  moreover have "src_pos s1 \<le> src_pos s2" "src_pos s2 \<le> src_pos s'"
    using bytes_io_Inr [OF h(2)] bytes_io_Inr [OF h(3)] by linarith+
  ultimately show ?thesis by linarith
qed

text \<open>The remaining pages, renumbered.\<close>

function page_loop :: "env \<Rightarrow> bytes \<Rightarrow> bytes \<Rightarrow> nat \<Rightarrow> io \<Rightarrow> unit res \<times> io" where
  "page_loop E d serial sequence s =
     then_io (read_page E d s) (\<lambda>page s1.
       case page of
         None \<Rightarrow> ask E s1
       | Some p \<Rightarrow>
           then_io (ask E s1) (\<lambda>_ s2.
             if serial_of p \<noteq> serial then (Inl ''multiplexed ogg streams are not supported'', s2)
             else then_io (write_page E (number_page sequence p) s2) (\<lambda>_ s3.
               page_loop E d serial (next_u32 sequence) s3)))"
  by pat_completeness auto
termination
proof (relation "measure (\<lambda>(E, d, serial, sequence, s). length d - src_pos s)", simp)
  fix E d serial sequence s x s1 p u s2 v s3
  assume a: "read_page E d s = (Inr x, s1)" "x = Some p" "ask E s1 = (Inr u, s2)"
    "write_page E (number_page sequence p) s2 = (Inr v, s3)"
  have "src_pos s3 = src_pos s2"
    using a(4) by (auto simp: write_page_def then_io_Inr dest: ask_pos write_all_pos)
  then have "src_pos s3 = src_pos s1" using ask_pos [OF a(3)] by simp
  then show "((E, d, serial, next_u32 sequence, s3), E, d, serial, sequence, s)
      \<in> measure (\<lambda>(E, d, serial, sequence, s). length d - src_pos s)"
    using read_page_pos a(1,2) by simp
qed

declare page_loop.simps [simp del]

definition comment_prefix :: "bool \<Rightarrow> bytes" where
  "comment_prefix opus = (if opus then ''OpusTags'' else vorbis_head 3)"

definition new_comment_packet :: "bool \<Rightarrow> bytes \<Rightarrow> bytes list \<Rightarrow> bytes" where
  "new_comment_packet opus vendor comments =
     comment_prefix opus @ comment_block vendor comments @ (if opus then [] else [CHR 0x01])"

definition finish_rewrite :: "env \<Rightarrow> bytes \<Rightarrow> ogg_page \<Rightarrow> header_state \<Rightarrow> bytes list \<Rightarrow> io \<Rightarrow> unit res \<times> io" where
  "finish_rewrite E d first st packets s =
     then_io (write_page E first s) (\<lambda>_ s1.
     then_io (write_headers E (tl packets) (serial_of first) s1) (\<lambda>sequence s2.
       if sequence = hs_pages st then copy E d None (seek_to (hs_bytes st) s2)
       else page_loop E d (serial_of first) sequence s2))"

definition rewrite_ogg ::
    "(bytes \<Rightarrow> bytes list) \<Rightarrow> case_tables \<Rightarrow> 'i image_lib \<Rightarrow> base64 \<Rightarrow> (bytes \<Rightarrow> bytes) \<Rightarrow> env \<Rightarrow> bytes \<Rightarrow> tag_fields \<Rightarrow>
     bytes option \<Rightarrow> io \<Rightarrow> unit res \<times> io" where
  "rewrite_ogg rx T img B debug E d fs cover s =
     then_io (read_page E d s) (\<lambda>first s1.
     case first of None \<Rightarrow> (Inl ''ogg stream too short'', s1) | Some page \<Rightarrow>
     case codec_of page of None \<Rightarrow> (Inl ''unsupported ogg codec'', s1) | Some (opus, want) \<Rightarrow>
     then_io (header_loop E d (serial_of page) want page \<lparr>hs_current = [], hs_packets = [], hs_bytes = 0, hs_pages = 0\<rparr> s1) (\<lambda>st s2.
     if \<not> starts_with (hs_packets st ! 1) (comment_prefix opus) then (Inl ''comment header not found'', s2)
     else case parse_comments (drop (length (comment_prefix opus)) (hs_packets st ! 1)) of
       Inl e \<Rightarrow> (Inl e, s2)
     | Inr (vendor, comments) \<Rightarrow>
     case (if opus then opus_gain debug T fs (edit_comments rx T fs comments) else Inr (edit_comments rx T fs comments)) of
       Inl e \<Rightarrow> (Inl e, s2)
     | Inr comments1 \<Rightarrow>
     then_io (case cover of None \<Rightarrow> (Inr comments1, s2)
              | Some c \<Rightarrow> then_io (picture img E c s2) (\<lambda>p s3.
                  (Inr (case p of None \<Rightarrow> comments1
                        | Some pic \<Rightarrow> set_comment T ''METADATA_BLOCK_PICTURE'' (b64_encode B pic) comments1), s3)))
       (\<lambda>comments2 s3.
         if max_tag_bytes < length (new_comment_packet opus vendor comments2) then (Inl ''Ogg comments exceed 64 MiB'', s3)
         else finish_rewrite E d page st ((hs_packets st)[1 := new_comment_packet opus vendor comments2]) s3)))"

end
