(* ===== verification/OggEdit.thy ===== *)
theory OggEdit
  imports Ogg
begin

text \<open>
  What the Ogg writer writes: the checksum is the division by the generator polynomial, the header
  packets are cut into 255-byte segments and these into pages of at most 255 segments, and an edit
  keeps every packet but the comments.
\<close>

section \<open>The checksum\<close>

text \<open>The reference: shift in one byte, bit by bit.\<close>

definition crc_reference :: "bytes \<Rightarrow> 32 word" where
  "crc_reference bs = foldl (\<lambda>c b. (crc_shift ^^ 8) (c XOR push_bit 24 (word_of_nat (u8 b)))) 0 bs"

lemma top_bit: "(v::32 word) AND 0x80000000 \<noteq> 0 \<longleftrightarrow> bit v 31"
proof -
  have m: "(0x80000000 :: 32 word) = mask 32 XOR mask 31" by (simp add: mask_eq_exp_minus_1)
  have "bit (v AND 0x80000000) n \<longleftrightarrow> bit v 31 \<and> n = 31" for n
  proof (cases "n = 31")
    case False
    then have "n < 31 \<or> 32 \<le> n" by linarith
    then show ?thesis unfolding m by (auto simp: bit_simps dest: bit_imp_le_length)
  qed (auto simp: m bit_simps)
  then show ?thesis by (metis bit_0_eq bot_apply bot_bool_def bit_word_eqI)
qed

lemma crc_shift_xor: "crc_shift (a XOR b) = crc_shift a XOR crc_shift b"
  by (auto simp: crc_shift_def top_bit push_bit_xor bit_xor_iff xor.assoc xor.left_commute xor.commute)

lemma crc_shifts_xor: "(crc_shift ^^ n) (a XOR b) = (crc_shift ^^ n) a XOR (crc_shift ^^ n) b"
  by (induction n) (simp_all add: crc_shift_xor)

lemma crc_shifts_low: "n \<le> 8 \<Longrightarrow> (crc_shift ^^ n) (take_bit 24 v) = push_bit n (take_bit 24 v)"
proof (induction n)
  case (Suc n)
  have "\<not> bit (push_bit n (take_bit 24 v)) 31" using Suc.prems by (auto simp: bit_simps)
  then have "crc_shift (push_bit n (take_bit 24 v)) = push_bit 1 (push_bit n (take_bit 24 v))"
    unfolding crc_shift_def by (simp only: top_bit if_False xor.right_neutral)
  moreover have "push_bit 1 (push_bit n (take_bit 24 v)) = push_bit (Suc n) (take_bit 24 v)"
    by (simp only: push_bit_push_bit plus_1_eq_Suc)
  ultimately show ?case using Suc by (simp only: funpow.simps comp_apply)
qed simp

lemma crc_split: "c = push_bit 24 (drop_bit 24 c) XOR take_bit 24 (c::32 word)"
  by (auto intro!: bit_word_eqI simp: bit_simps)

lemma push_take: "push_bit 8 (take_bit 24 c) = push_bit 8 (c::32 word)"
  by (auto intro!: bit_word_eqI simp: bit_simps)

lemma crc_index: "unat (drop_bit 24 (c::32 word) XOR word_of_nat (u8 b)) < 256"
proof -
  have "\<not> bit (u8 b) n" if "8 \<le> n" for n
  proof -
    have "(2::nat) ^ 8 \<le> 2 ^ n" using that by (rule power_increasing) simp
    then have "u8 b div 2 ^ n = 0" by (intro div_less less_le_trans [OF u8_less]) simp
    then show ?thesis by (simp add: bit_iff_odd)
  qed
  then have "drop_bit 24 c XOR word_of_nat (u8 b) = take_bit 8 (drop_bit 24 c XOR word_of_nat (u8 b))"
    by (intro bit_word_eqI) (auto simp: bit_simps dest: bit_imp_le_length)
  then have "unat (drop_bit 24 c XOR word_of_nat (u8 b)) = take_bit 8 (unat (drop_bit 24 c XOR word_of_nat (u8 b)))"
    by (metis unsigned_take_bit_eq)
  then show ?thesis using take_bit_nat_less_exp [of 8 "unat (drop_bit 24 c XOR word_of_nat (u8 b))"] by simp
qed

lemma crc_byte_reference: "crc_byte c b = (crc_shift ^^ 8) (c XOR push_bit 24 (word_of_nat (u8 b)))"
proof -
  let ?b = "word_of_nat (u8 b) :: 32 word"
  have "c XOR push_bit 24 ?b = push_bit 24 (drop_bit 24 c XOR ?b) XOR take_bit 24 c"
    by (subst crc_split [of c]) (simp add: push_bit_xor xor.assoc xor.commute xor.left_commute)
  then have "(crc_shift ^^ 8) (c XOR push_bit 24 ?b) = crc_entry (unat (drop_bit 24 c XOR ?b)) XOR push_bit 8 c"
    by (simp add: crc_shifts_xor crc_shifts_low push_take crc_entry_def del: funpow.simps)
  then show ?thesis
    using crc_index [of c b] by (simp add: crc_byte_def crc_table_def xor.commute)
qed

text \<open>
  C29.  The table-driven checksum of a page is the remainder of the bitwise division by the Ogg
  polynomial 0x04c11db7: shifting in each byte bit by bit gives the same 32-bit word for every input.
\<close>

theorem checksum_is_division: "ogg_crc bs = crc_reference bs"
  by (simp add: ogg_crc_def crc_reference_def crc_byte_reference cong: foldl_cong)

section \<open>Segments and pages\<close>

text \<open>The lacing of a packet: segments of 255 bytes, the last one shorter and possibly empty.\<close>

definition lacing :: "bytes \<Rightarrow> bytes list" where
  "lacing p = chunks 255 p @ (if length p mod 255 = 0 then [[]] else [])"

definition page_head :: "bytes \<Rightarrow> bool \<Rightarrow> nat \<Rightarrow> bytes" where
  "page_head serial continued n =
     ''OggS'' @ [CHR 0x00, if continued then CHR 0x01 else CHR 0x00] @ replicate 8 CHR 0x00 @ serial @ put_le32 n @ replicate 5 CHR 0x00"

definition page_of :: "bytes \<Rightarrow> bool \<Rightarrow> nat \<Rightarrow> bytes list \<Rightarrow> ogg_page" where
  "page_of serial continued n segs =
     \<lparr>pg_header = page_head serial continued n, pg_segments = map length segs, pg_data = concat segs\<rparr>"

fun paged :: "bytes \<Rightarrow> nat \<Rightarrow> bool \<Rightarrow> bytes list list \<Rightarrow> ogg_page list" where
  "paged serial n continued [] = []"
| "paged serial n continued (g # gs) =
     page_of serial continued n g # paged serial (next_u32 n) (length (last g) = 255) gs"

definition header_pages :: "bytes \<Rightarrow> bytes list \<Rightarrow> ogg_page list" where
  "header_pages serial packets = paged serial 1 False (chunks 255 (concat (map lacing packets)))"

lemma lacing_long: "255 \<le> length p \<Longrightarrow> lacing p = take 255 p # lacing (drop 255 p)"
proof -
  assume l: "255 \<le> length p"
  then have "length (drop 255 p) mod 255 = length p mod 255" by (simp add: le_mod_geq)
  moreover have "chunks 255 p = take 255 p # chunks 255 (drop 255 p)" using l by (subst chunks.simps) auto
  ultimately show ?thesis by (simp add: lacing_def)
qed

lemma chunks_short: "xs \<noteq> [] \<Longrightarrow> length xs \<le> n \<Longrightarrow> chunks n xs = [xs]"
  by (cases n) (subst chunks.simps, subst chunks.simps, auto)+

lemma chunks_Nil [simp]: "chunks n [] = []"
  by (subst chunks.simps) simp

lemma lacing_short: "length p < 255 \<Longrightarrow> lacing p = [p]"
  by (cases "p = []") (auto simp: lacing_def chunks_short)


lemma chunks_full: "length xs = n \<Longrightarrow> 0 < n \<Longrightarrow> chunks n (xs @ ys) = xs # chunks n ys"
  by (subst chunks.simps) auto

text \<open>The writer as a walk over the segments.\<close>

fun push_all :: "env \<Rightarrow> bytes list \<Rightarrow> page_state \<Rightarrow> io \<Rightarrow> page_state res \<times> io" where
  "push_all E [] st s = (Inr st, s)"
| "push_all E (b # bs) st s = then_io (push_segment E b st s) (\<lambda>st1 s1. push_all E bs st1 s1)"

lemma then_io_assoc: "then_io (then_io r f) g = then_io r (\<lambda>x s. then_io (f x s) g)"
  by (cases r; cases "fst r") auto

lemma then_io_ret [simp]: "then_io r (\<lambda>x s. (Inr x, s)) = r"
  by (cases r; cases "fst r") auto

lemma push_all_append: "push_all E (as @ bs) st s = then_io (push_all E as st s) (\<lambda>st1 s1. push_all E bs st1 s1)"
proof (induction as arbitrary: st s)
  case (Cons a as)
  have "then_io (push_segment E a st s) (\<lambda>st1 s1. push_all E (as @ bs) st1 s1) =
      then_io (push_segment E a st s) (\<lambda>st1 s1. then_io (push_all E as st1 s1) (\<lambda>st2 s2. push_all E bs st2 s2))"
    by (rule then_io_cong [OF refl]) (rule Cons.IH)
  then show ?case by (simp only: append_Cons push_all.simps then_io_assoc)
qed simp

lemma push_packet_all: "push_packet E p st s = push_all E (lacing p) st s"
proof (induction E p st s rule: push_packet.induct)
  case (1 E p st s)
  show ?case
  proof (cases "length p < 255")
    case True
    then have "push_packet E p st s = then_io (push_segment E p st s) (\<lambda>st1 s1. (Inr st1, s1))"
      by (subst push_packet.simps) simp
    also have "\<dots> = push_all E [p] st s"
      unfolding push_all.simps(2) by (rule then_io_cong [OF refl]) simp
    finally show ?thesis using True by (simp add: lacing_short)
  next
    case False
    have "push_packet E p st s = then_io (push_segment E (take 255 p) st s) (\<lambda>st1 s1. push_packet E (drop 255 p) st1 s1)"
      using False by (subst push_packet.simps) simp
    also have "\<dots> = then_io (push_segment E (take 255 p) st s) (\<lambda>st1 s1. push_all E (lacing (drop 255 p)) st1 s1)"
      by (rule then_io_cong [OF refl]) (rule 1 [OF _ False])
    finally show ?thesis using False by (simp add: lacing_long)
  qed
qed

lemma push_packets_all: "push_packets E ps st s = push_all E (concat (map lacing ps)) st s"
proof (induction ps arbitrary: st s)
  case (Cons p ps)
  have "then_io (push_packet E p st s) (\<lambda>st1 s1. push_packets E ps st1 s1) =
      then_io (push_all E (lacing p) st s) (\<lambda>st1 s1. push_all E (concat (map lacing ps)) st1 s1)"
    unfolding push_packet_all by (rule then_io_cong [OF refl]) (rule Cons.IH)
  then show ?case by (simp only: push_packets.simps list.map concat.simps push_all_append)
qed simp

definition flush_page :: "env \<Rightarrow> page_state \<Rightarrow> io \<Rightarrow> nat res \<times> io" where
  "flush_page E st s =
     (if pg_segments (ps_page st) \<noteq> [] then
         then_io (write_page E (number_page (ps_sequence st) (ps_page st)) s) (\<lambda>_ s2.
           (Inr (next_u32 (ps_sequence st)), s2))
       else (Inr (ps_sequence st), s))"

definition pending :: "bytes \<Rightarrow> bool \<Rightarrow> nat \<Rightarrow> bytes list \<Rightarrow> page_state \<Rightarrow> bool" where
  "pending serial c n g st \<longleftrightarrow> (\<exists>q. ps_page st = page_of serial c q g) \<and> ps_sequence st = n \<and> length g < 255"

lemma number_page_of [simp]: "length serial = 4 \<Longrightarrow> number_page n (page_of serial c q g) = page_of serial c n g"
  by (simp add: number_page_def page_of_def page_head_def put_at_def)

lemma mark_page_of: "length serial = 4 \<Longrightarrow>
  (page_of serial c n g)\<lparr>pg_segments := [], pg_data := [], pg_header := put_at (pg_header (page_of serial c n g)) 5 [if b then CHR 0x01 else CHR 0x00]\<rparr> =
   page_of serial b n []"
  by (simp add: page_of_def page_head_def put_at_def)

lemma push_one_more:
  assumes "pending serial c n g st" and "length serial = 4" and "length g \<noteq> 254"
  shows "\<exists>st'. push_segment E b st s = (Inr st', s) \<and> pending serial c n (g @ [b]) st'"
  using assms by (auto simp: pending_def push_segment_def page_of_def Let_def)

lemma push_one_page:
  assumes "pending serial c n g st" and "length serial = 4" and "length g = 254"
  shows "push_segment E b st s =
    then_io (write_page E (page_of serial c n (g @ [b])) s) (\<lambda>_ s1.
      (Inr \<lparr>ps_page = page_of serial (length b = 255) n [], ps_sequence = next_u32 n\<rparr>, s1))"
proof -
  from assms(1) obtain q where q: "ps_page st = page_of serial c q g" "ps_sequence st = n" by (auto simp: pending_def)
  let ?p = "(ps_page st)\<lparr>pg_segments := pg_segments (ps_page st) @ [length b], pg_data := pg_data (ps_page st) @ b\<rparr>"
  have p: "?p = page_of serial c q (g @ [b])" by (simp add: q page_of_def)
  have l: "length (pg_segments (page_of serial c q (g @ [b]))) = 255" using assms(3) by (simp add: page_of_def)
  show ?thesis
    unfolding push_segment_def Let_def p if_P [OF l] q(2) number_page_of [OF assms(2)] mark_page_of [OF assms(2)] ..
qed

lemma chunks_pending: "length g < 255 \<Longrightarrow> chunks 255 (g @ b # bs) =
  (if length g = 254 then (g @ [b]) # chunks 255 bs else chunks 255 ((g @ [b]) @ bs))"
  using chunks_full [of "g @ [b]" 255 bs] by simp

lemma appends_page: "appends E s (page_bytes p) (write_page E p s)"
  unfolding write_page_def by (intro appends_then [OF appends_ask] appends_write)

lemma appends_value: "appends E s w r \<Longrightarrow> (\<And>x s'. appends E s' [] (f x s')) \<Longrightarrow> appends E s w (then_io r f)"
  using appends_seq [of E s w r "[]" f] by simp

lemma next_u32_less [simp]: "next_u32 n < 2 ^ 32"
  by (simp add: next_u32_def)

lemma push_all_pages:
  assumes "length serial = 4"
  shows "pending serial c n g st \<Longrightarrow>
    appends E s (concat (map page_bytes (paged serial n c (chunks 255 (g @ bs)))))
      (then_io (push_all E bs st s) (\<lambda>st1 s1. flush_page E st1 s1)) \<and>
    (\<forall>m s'. then_io (push_all E bs st s) (\<lambda>st1 s1. flush_page E st1 s1) = (Inr m, s') \<longrightarrow>
      n < 2 ^ 32 \<longrightarrow> m = (n + length (chunks 255 (g @ bs))) mod 2 ^ 32)"
proof (induction bs arbitrary: c n g st s)
  case Nil
  then obtain q where q: "ps_page st = page_of serial c q g" "ps_sequence st = n" "length g < 255" by (auto simp: pending_def)
  show ?case
  proof (cases "g = []")
    case True
    then have "flush_page E st s = (Inr n, s)" using q by (simp add: flush_page_def page_of_def)
    then show ?thesis using True by (simp add: appends_ok)
  next
    case False
    then have "flush_page E st s = then_io (write_page E (page_of serial c n g) s) (\<lambda>_ s2. (Inr (next_u32 n), s2))"
      using q assms by (simp add: flush_page_def) (simp add: page_of_def)
    moreover have "chunks 255 g = [g]" using False q(3) by (simp add: chunks_short)
    ultimately show ?thesis
      using appends_value [OF appends_page, of E "\<lambda>_ s2. (Inr (next_u32 n), s2)"]
      by (auto simp: appends_ok then_io_Inr next_u32_def mod_Suc_eq)
  qed
next
  case (Cons b bs)
  have g: "length g < 255" using Cons.prems by (simp add: pending_def)
  show ?case
  proof (cases "length g = 254")
    case True
    let ?st = "\<lparr>ps_page = page_of serial (length b = 255) n [], ps_sequence = next_u32 n\<rparr>"
    have st: "pending serial (length b = 255) (next_u32 n) [] ?st" by (auto simp: pending_def)
    have e: "then_io (push_all E (b # bs) st s) (\<lambda>st1 s1. flush_page E st1 s1) =
        then_io (write_page E (page_of serial c n (g @ [b])) s) (\<lambda>_ s1.
          then_io (push_all E bs ?st s1) (\<lambda>st1 s1. flush_page E st1 s1))"
      by (simp only: push_all.simps push_one_page [OF Cons.prems assms True] then_io_assoc then_io_simps)
    note IH = Cons.IH [OF st]
    have "appends E s (page_bytes (page_of serial c n (g @ [b])) @
        concat (map page_bytes (paged serial (next_u32 n) (length b = 255) (chunks 255 ([] @ bs)))))
        (then_io (push_all E (b # bs) st s) (\<lambda>st1 s1. flush_page E st1 s1))"
      unfolding e by (rule appends_seq [OF appends_page]) (rule conjunct1 [OF IH])
    moreover have "m = (n + length (chunks 255 (g @ b # bs))) mod 2 ^ 32"
      if "then_io (push_all E (b # bs) st s) (\<lambda>st1 s1. flush_page E st1 s1) = (Inr m, s')" for m s'
    proof -
      from that obtain s1 where "then_io (push_all E bs ?st s1) (\<lambda>st1 s1. flush_page E st1 s1) = (Inr m, s')"
        unfolding e then_io_Inr [of "write_page E p s" for p s] by blast
      then have "m = (next_u32 n + length (chunks 255 ([] @ bs))) mod 2 ^ 32" using IH next_u32_less by blast
      then show ?thesis using chunks_pending [OF g, of b bs] True by (simp add: next_u32_def mod_simps)
    qed
    ultimately show ?thesis using chunks_pending [OF g, of b bs] True by simp
  next
    case False
    obtain st' where st': "push_segment E b st s = (Inr st', s)" "pending serial c n (g @ [b]) st'"
      using push_one_more [OF Cons.prems assms False] by blast
    have "then_io (push_all E (b # bs) st s) (\<lambda>st1 s1. flush_page E st1 s1) =
        then_io (push_all E bs st' s) (\<lambda>st1 s1. flush_page E st1 s1)"
      by (simp only: push_all.simps st'(1) then_io_assoc then_io_simps)
    moreover have "chunks 255 (g @ b # bs) = chunks 255 ((g @ [b]) @ bs)" using chunks_pending [OF g, of b bs] False by simp
    ultimately show ?thesis using Cons.IH [OF st'(2), of s] by simp
  qed
qed

lemma write_headers_alt: "write_headers E ps serial s =
  then_io (push_all E (concat (map lacing ps)) \<lparr>ps_page = header_page serial, ps_sequence = 1\<rparr> s) (\<lambda>st s1. flush_page E st s1)"
  by (simp add: write_headers_def push_packets_all flush_page_def)

lemma start_page: "length serial = 4 \<Longrightarrow> header_page serial = page_of serial False 0 []"
proof -
  assume l: "length serial = 4"
  have z: "replicate 10 c = c # c # replicate 8 c" "put_le32 0 @ replicate 5 CHR 0x00 = replicate 9 CHR 0x00" for c :: byte
    by (simp add: eval_nat_numeral) (code_simp)
  have "put_at (put_at (replicate 27 CHR 0x00) 0 ''OggS'') 14 serial = ''OggS'' @ replicate 10 CHR 0x00 @ serial @ replicate 9 CHR 0x00"
    using l by (simp add: put_at_def)
  also have "\<dots> = page_head serial False 0" unfolding z(1) z(2) [symmetric] by (simp add: page_head_def)
  finally show ?thesis by (simp add: header_page_def page_of_def)
qed

lemma pending_start: "length serial = 4 \<Longrightarrow> pending serial False 1 [] \<lparr>ps_page = header_page serial, ps_sequence = 1\<rparr>"
  by (auto simp: pending_def start_page)

lemma write_headers_pages:
  assumes "length serial = 4"
  shows "appends E s (concat (map page_bytes (header_pages serial ps))) (write_headers E ps serial s)"
    and "write_headers E ps serial s = (Inr m, s') \<Longrightarrow> m = (1 + length (header_pages serial ps)) mod 2 ^ 32"
proof -
  note p = push_all_pages [OF assms pending_start [OF assms], where bs = "concat (map lacing ps)" and E = E and s = s]
  have l: "length (paged serial n c gs) = length gs" for n c gs by (induction gs arbitrary: n c) simp_all
  show "appends E s (concat (map page_bytes (header_pages serial ps))) (write_headers E ps serial s)"
    using p by (simp add: write_headers_alt header_pages_def)
  show "write_headers E ps serial s = (Inr m, s') \<Longrightarrow> m = (1 + length (header_pages serial ps)) mod 2 ^ 32"
    using p by (simp add: write_headers_alt header_pages_def l)
qed

section \<open>What is read\<close>

definition page_source :: "ogg_page \<Rightarrow> bytes" where
  "page_source p = pg_header p @ map char_of (pg_segments p) @ pg_data p"

fun split_at_lengths :: "nat list \<Rightarrow> bytes \<Rightarrow> bytes list" where
  "split_at_lengths [] b = []"
| "split_at_lengths (n # ns) b = take n b # split_at_lengths ns (drop n b)"

definition page_segs :: "ogg_page \<Rightarrow> bytes list" where
  "page_segs p = split_at_lengths (pg_segments p) (pg_data p)"

definition page_ok :: "ogg_page \<Rightarrow> bool" where
  "page_ok p \<longleftrightarrow> length (pg_header p) = 27 \<and> take 4 (pg_header p) = ''OggS'' \<and>
     u8 (pg_header p ! 26) = length (pg_segments p) \<and> list_all (\<lambda>n. n < 256) (pg_segments p) \<and>
     length (pg_data p) = sum_list (pg_segments p)"

lemma read_head_Inr:
  "read_head E d acc s = (Inr h, s') \<Longrightarrow> length acc \<le> 27 \<Longrightarrow> acc = slice d p (p + length acc) \<Longrightarrow> src_pos s = p + length acc \<Longrightarrow>
     (case h of None \<Rightarrow> acc = [] \<and> length d \<le> p \<and> src_pos s' = p
      | Some b \<Rightarrow> b = slice d p (p + 27) \<and> length b = 27 \<and> src_pos s' = p + 27)"
proof (induction E d acc s rule: read_head.induct)
  case (1 E d acc s)
  show ?case
  proof (cases "27 \<le> length acc")
    case True
    then have "length acc = 27" using 1(3) by simp
    moreover have "read_head E d acc s = (Inr (Some acc), s)" using True by (subst read_head.simps) simp
    ultimately show ?thesis using 1(2,4,5) by simp
  next
    case False
    from 1(2) obtain b s1 where b: "read_some E d (27 - length acc) s = (Inr b, s1)"
      and r: "(if b = [] then (if acc = [] then (Inr None, s1) else (Inl ''unexpected EOF'', s1))
        else read_head E d (acc @ b) s1) = (Inr h, s')"
      unfolding read_head.simps [of E d acc s] if_not_P [OF False] then_io_Inr by blast
    show ?thesis
    proof (cases "b = []")
      case True
      then have "length d \<le> src_pos s" "src_pos s1 = src_pos s" using read_some_empty b False by auto
      then show ?thesis using r True 1(5) by (auto split: if_splits)
    next
      case ne: False
      then have h: "read_head E d (acc @ b) s1 = (Inr h, s')" using r by simp
      note t = read_some_take [OF b ne]
      have "length b \<le> 27 - length acc" using t by blast
      then have len: "length (acc @ b) \<le> 27" using False by simp
      have "slice d p (p + length acc) @ slice d (p + length acc) (p + length acc + length b) = slice d p (p + length acc + length b)"
        by (rule slice_join) simp_all
      then have a: "acc @ b = slice d p (p + length (acc @ b))" using t 1(4,5) by (metis add.assoc length_append)
      have "src_pos s1 = p + length (acc @ b)" using t 1(5) by simp
      then have "case h of None \<Rightarrow> acc @ b = [] \<and> length d \<le> p \<and> src_pos s' = p
          | Some c \<Rightarrow> c = slice d p (p + 27) \<and> length c = 27 \<and> src_pos s' = p + 27"
        by (rule 1(1) [OF False b ne h len a])
      then show ?thesis using ne by (cases h) auto
    qed
  qed
qed

lemma appends_head: "appends E s [] (read_head E d acc s)"
proof (induction E d acc s rule: read_head.induct)
  case (1 E d acc s)
  show ?case
  proof (cases "27 \<le> length acc")
    case False
    show ?thesis
      unfolding read_head.simps [of E d acc s] if_not_P [OF False]
    proof (rule appends_then [OF appends_read])
      fix b s1 assume b: "read_some E d (27 - length acc) s = (Inr b, s1)"
      show "appends E s1 [] (if b = [] then (if acc = [] then (Inr None, s1) else (Inl ''unexpected EOF'', s1))
        else read_head E d (acc @ b) s1)"
        using 1 [OF False b] by (auto intro: appends_ok appends_error)
    qed
  qed (simp add: read_head.simps [of E d acc s] appends_ok)
qed

lemma appends_bytes: "appends E s [] (bytes_io E d n s)"
  by (rule appends_exact)

lemma appends_ogg: "appends E s [] (read_ogg E d s)"
  unfolding read_ogg_def Let_def
  by (auto intro!: appends_then [OF appends_head] appends_then [OF appends_bytes] appends_ok appends_error split: option.split)

lemma appends_read_page: "appends E s [] (read_page E d s)"
  unfolding read_page_def
  by (auto intro!: appends_then [OF appends_ogg] appends_ok appends_error split: option.split)

lemma slice_drop: "slice d p q = take (q - p) (drop p d)"
  by (simp add: slice_def)

lemma read_page_Some:
  assumes "read_page E d s = (Inr (Some p), s')"
  shows "page_ok p" and "drop (src_pos s) d = page_source p @ drop (src_pos s') d" and "out s' = out s"
    and "src_pos s' = src_pos s + page_len p" and "src_pos s' \<le> length d"
proof -
  from assms have "read_ogg E d s = (Inr (Some p), s')"
    by (auto simp: read_page_def then_io_Inr split: option.splits if_splits)
  then obtain h s1 sg s2 data where h: "read_head E d [] s = (Inr (Some h), s1)" "take 4 h = ''OggS''"
      "bytes_io E d (u8 (h ! 26)) s1 = (Inr sg, s2)" "bytes_io E d (sum_list (map of_char sg)) s2 = (Inr data, s')"
      "p = \<lparr>pg_header = h, pg_segments = map of_char sg, pg_data = data\<rparr>"
    by (auto simp: read_ogg_def then_io_Inr Let_def split: option.splits if_splits)
  note a = read_head_Inr [OF h(1), of "src_pos s"]
  have a1: "h = slice d (src_pos s) (src_pos s + 27)" "length h = 27" "src_pos s1 = src_pos s + 27"
    using a by (auto simp: slice_def simp del: length_take)
  note b = bytes_io_Inr [OF h(3)] and c = bytes_io_Inr [OF h(4)]
  have l: "length sg = u8 (h ! 26)" "length data = sum_list (map of_char sg)" "src_pos s2 = src_pos s1 + length sg"
      "src_pos s' = src_pos s2 + length data"
    using b c by argo+
  show "page_ok p" using a1(2) l(1,2) h(2,5) by (simp add: page_ok_def list_all_iff)
  show len: "src_pos s' = src_pos s + page_len p" using a1(3) l h(5) by (simp add: page_len_def)
  show le: "src_pos s' \<le> length d"
  proof -
    have "src_pos s1 \<le> length d" using read_head_pos [OF h(1)] by simp
    moreover have "length sg = 0 \<or> src_pos s2 \<le> length d" "length data = 0 \<or> src_pos s' \<le> length d"
      using b c by argo+
    ultimately show ?thesis using l(3,4) by linarith
  qed
  show "out s' = out s" using appends_read_page [of E s d] assms by (simp add: appends_def)
  have "drop (src_pos s) d = slice d (src_pos s) (src_pos s') @ drop (src_pos s') d"
    unfolding len slice_def by (metis add.commute add_diff_cancel_left' append_take_drop_id drop_drop)
  moreover have "h = slice d (src_pos s) (src_pos s1)" "sg = slice d (src_pos s1) (src_pos s2)" "data = slice d (src_pos s2) (src_pos s')"
    "src_pos s \<le> src_pos s1" "src_pos s1 \<le> src_pos s2" "src_pos s2 \<le> src_pos s'"
    using a1 b c by (argo, metis, metis, linarith+)
  then have "slice d (src_pos s) (src_pos s') = h @ sg @ data"
    by (metis slice_join append.assoc le_trans)
  moreover have "page_source p = h @ sg @ data" using h(5) by (simp add: page_source_def comp_def)
  ultimately show "drop (src_pos s) d = page_source p @ drop (src_pos s') d" by simp
qed

lemma read_page_None:
  assumes "read_page E d s = (Inr None, s')"
  shows "length d \<le> src_pos s" and "out s' = out s"
proof -
  from assms obtain x s1 where x: "read_ogg E d s = (Inr x, s1)"
      "(case x of Some p \<Rightarrow> if u8 (pg_header p ! 4) \<noteq> 0 then (Inl ''invalid ogg page'', s1) else (Inr x, s1) | None \<Rightarrow> (Inr None, s1)) =
        (Inr None, s')"
    unfolding read_page_def then_io_Inr by blast
  then have "read_ogg E d s = (Inr None, s')" by (cases x) (auto split: if_splits)
  then obtain h s1 where h: "read_head E d [] s = (Inr h, s1)"
      "(case h of None \<Rightarrow> (Inr None, s1) | Some header \<Rightarrow>
           if take 4 header \<noteq> ''OggS'' then (Inl ''not an Ogg page'', s1)
           else then_io (bytes_io E d (u8 (header ! 26)) s1) (\<lambda>sg s2.
             let segments = map of_char sg in
             then_io (bytes_io E d (sum_list segments) s2) (\<lambda>data s3.
               (Inr (Some \<lparr>pg_header = header, pg_segments = segments, pg_data = data\<rparr>), s3)))) = (Inr None, s')"
    unfolding read_ogg_def then_io_Inr by blast
  then have "read_head E d [] s = (Inr None, s')"
    by (cases h) (auto simp: then_io_Inr Let_def split: if_splits)
  then show "length d \<le> src_pos s" using read_head_Inr [of E d "[]" s None s' "src_pos s"] by (simp add: slice_def)
  show "out s' = out s" using appends_read_page [of E s d] assms by (simp add: appends_def)
qed

section \<open>Collecting the header packets\<close>

lemma chunks_dvd: "255 dvd length xs \<Longrightarrow> length ys = 255 \<Longrightarrow> chunks 255 (xs @ ys) = chunks 255 xs @ [ys]"
proof (induction "length xs" arbitrary: xs rule: less_induct)
  case less
  show ?case
  proof (cases "xs = []")
    case True
    moreover have "ys \<noteq> []" using less.prems(2) by auto
    ultimately show ?thesis using less.prems chunks_short [of ys 255] by simp
  next
    case False
    then have "255 \<le> length xs" using less.prems(1) by (simp add: dvd_imp_le)
    moreover have "255 dvd length (drop 255 xs)" using less.prems(1) by (simp add: dvd_diff_nat)
    ultimately show ?thesis
      using less.hyps [of "drop 255 xs"] less.prems False
      by (subst (1 2) chunks.simps) (auto simp: take_append)
  qed
qed

lemma lacing_end: "255 dvd length xs \<Longrightarrow> length ys < 255 \<Longrightarrow> lacing (xs @ ys) = chunks 255 xs @ [ys]"
proof (induction "length xs" arbitrary: xs rule: less_induct)
  case less
  show ?case
  proof (cases "xs = []")
    case True
    then show ?thesis using less.prems by (simp add: lacing_short)
  next
    case False
    then have "255 \<le> length xs" using less.prems(1) by (simp add: dvd_imp_le)
    moreover have "255 dvd length (drop 255 xs)" using less.prems(1) by (simp add: dvd_diff_nat)
    ultimately show ?thesis
      using less.hyps [of "drop 255 xs"] less.prems False lacing_long [of "xs @ ys"]
      by (subst chunks.simps) (auto simp: take_append)
  qed
qed

lemma gather_Inr:
  "gather want ns data cur ps = Inr (cur', ps') \<Longrightarrow> list_all (\<lambda>n. n < 256) ns \<Longrightarrow> length data = sum_list ns \<Longrightarrow>
     255 dvd length cur \<Longrightarrow> length ps < want \<Longrightarrow>
   concat (map lacing ps') @ chunks 255 cur' = concat (map lacing ps) @ chunks 255 cur @ split_at_lengths ns data \<and>
   255 dvd length cur' \<and> (length ps' < want \<or> length ps' = want \<and> cur' = [])"
proof (induction want ns data cur ps rule: gather.induct)
  case (2 want n ns data cur ps)
  let ?b = "take n data"
  have lb: "length ?b = n" "length (drop n data) = sum_list ns" using 2(5) by auto
  show ?case
  proof (cases "n < 255")
    case True
    have l: "lacing (cur @ ?b) = chunks 255 cur @ [?b]" using lacing_end [OF 2(6), of ?b] lb True by simp
    show ?thesis
    proof (cases "length (ps @ [cur @ ?b]) = want")
      case w: True
      then show ?thesis using 2(3) True l by (auto simp: Let_def split: if_splits)
    next
      case False
      then have "length (ps @ [cur @ ?b]) < want" using 2(7) by simp
      then show ?thesis using 2(1) [OF refl refl True refl False] 2(3,4) lb True False l by (simp add: Let_def)
    qed
  next
    case False
    then have "n = 255" using 2(4) by simp
    then have "chunks 255 (cur @ ?b) = chunks 255 cur @ [?b]" "255 dvd length (cur @ ?b)"
      using chunks_dvd [OF 2(6), of ?b] lb 2(6) by auto
    then show ?thesis using 2(2) [OF refl refl False] 2(3,4,7) lb False by (simp add: Let_def)
  qed
qed simp

lemma header_loop_Inr:
  "header_loop E d serial want page st s = (Inr st', s') \<Longrightarrow> page_ok page \<Longrightarrow> 255 dvd length (hs_current st) \<Longrightarrow>
     length (hs_packets st) < want \<Longrightarrow>
   \<exists>ps. list_all (\<lambda>p. page_ok p \<and> serial_of p = serial) (page # ps) \<and>
     drop (src_pos s) d = concat (map page_source ps) @ drop (src_pos s') d \<and>
     hs_pages st' = hs_pages st + length (page # ps) \<and>
     hs_bytes st' = hs_bytes st + sum_list (map page_len (page # ps)) \<and>
     src_pos s' = src_pos s + sum_list (map page_len ps) \<and> out s' = out s \<and> length (hs_packets st') = want \<and>
     concat (map lacing (hs_packets st')) =
       concat (map lacing (hs_packets st)) @ chunks 255 (hs_current st) @ concat (map page_segs (page # ps))"
proof (induction E d serial want page st s rule: header_loop.induct)
  case (1 E d serial want page st s)
  let ?pages = "hs_pages st + 1" and ?total = "hs_bytes st + page_len page"
  from 1(2) obtain s1 where s1: "ask E s = (Inr (), s1)" "\<not> max_tag_bytes < ?total" "serial_of page = serial"
    by (auto simp: header_loop.simps [of E d serial want page st s] then_io_Inr Let_def split: if_splits)
  from 1(2) s1 obtain cur ps where g: "gather want (pg_segments page) (pg_data page) (hs_current st) (hs_packets st) = Inr (cur, ps)"
    by (auto simp: header_loop.simps [of E d serial want page st s] then_io_Inr Let_def split: if_splits sum.splits)
  let ?st1 = "\<lparr>hs_current = cur, hs_packets = ps, hs_bytes = ?total, hs_pages = ?pages\<rparr>"
  have r: "(if length ps = want then (Inr ?st1, s1)
           else if 1024 \<le> ?pages then (Inl ''ogg header spans too many pages'', s1)
           else then_io (read_page E d s1) (\<lambda>next_page s2.
             case next_page of
               None \<Rightarrow> (Inl ''incomplete ogg header packets'', s2)
             | Some p \<Rightarrow> header_loop E d serial want p ?st1 s2)) = (Inr st', s')"
    using 1(2) by (simp only: header_loop.simps [of E d serial want page st s] s1 g then_io_simps Let_def if_False
        simp_thms not_True_eq_False sum.case prod.case)
  have gi: "concat (map lacing ps) @ chunks 255 cur = concat (map lacing (hs_packets st)) @ chunks 255 (hs_current st) @ page_segs page"
    "255 dvd length cur" "length ps < want \<or> length ps = want \<and> cur = []"
    using gather_Inr [OF g] 1(3-5) by (auto simp: page_ok_def page_segs_def)
  have o1: "out s1 = out s" "src_pos s1 = src_pos s" using ask_kept [OF s1(1)] by blast+
  show ?case
  proof (cases "length ps = want")
    case True
    then have "st' = ?st1" "s' = s1" "cur = []" using r gi(3) by auto
    then show ?thesis using gi o1 s1(3) 1(3) True by (intro exI [of _ "[]"]) simp
  next
    case False
    with r obtain p s2 where p: "\<not> 1024 \<le> ?pages" "read_page E d s1 = (Inr (Some p), s2)"
        "header_loop E d serial want p ?st1 s2 = (Inr st', s')"
      by (auto simp: then_io_Inr split: if_splits option.splits)
    note rp = read_page_Some [OF p(2)]
    have "length (hs_packets ?st1) < want" using gi(3) False by simp
    with 1(1) [OF s1(1) refl refl s1(2) _ g refl refl False p(1,2) refl p(3) rp(1)] s1(3) gi(2)
    obtain qs where q: "list_all (\<lambda>p. page_ok p \<and> serial_of p = serial) (p # qs)"
      "drop (src_pos s2) d = concat (map page_source qs) @ drop (src_pos s') d"
      "hs_pages st' = ?pages + length (p # qs)" "hs_bytes st' = ?total + sum_list (map page_len (p # qs))"
      "src_pos s' = src_pos s2 + sum_list (map page_len qs)" "out s' = out s2" "length (hs_packets st') = want"
      "concat (map lacing (hs_packets st')) = concat (map lacing ps) @ chunks 255 cur @ concat (map page_segs (p # qs))"
      by auto
    have "concat (map lacing (hs_packets st')) =
        concat (map lacing (hs_packets st)) @ chunks 255 (hs_current st) @ concat (map page_segs (page # p # qs))"
      using q(8) gi(1) by (metis append.assoc concat.simps(2) list.map(2))
    then show ?thesis using q(1-7) rp(2-4) o1 s1(3) 1(3) by (intro exI [of _ "p # qs"]) simp
  qed
qed

fun renumber :: "nat \<Rightarrow> ogg_page list \<Rightarrow> ogg_page list" where
  "renumber n [] = []"
| "renumber n (p # ps) = number_page n p # renumber (next_u32 n) ps"

lemma write_page_pos: "write_page E p s = (r, s') \<Longrightarrow> src_pos s' = src_pos s"
proof -
  assume w: "write_page E p s = (r, s')"
  obtain x s1 where a: "ask E s = (x, s1)" by fastforce
  then have "src_pos s1 = src_pos s" by (rule ask_pos)
  moreover have "s' = s1 \<or> write_all E (page_bytes p) s1 = (r, s')"
    using w a by (cases x) (auto simp: write_page_def)
  ultimately show ?thesis by (auto dest: write_all_pos)
qed

lemma write_page_Inr: "write_page E p s = (Inr u, s') \<Longrightarrow> out s' = out s @ page_bytes p"
  using appends_page [of E s p] by (simp add: appends_def)

lemma page_loop_Inr:
  "page_loop E d serial n s = (Inr u, s') \<Longrightarrow>
     \<exists>ps. list_all (\<lambda>p. page_ok p \<and> serial_of p = serial) ps \<and> drop (src_pos s) d = concat (map page_source ps) \<and>
       out s' = out s @ concat (map page_bytes (renumber n ps))"
proof (induction E d serial n s rule: page_loop.induct)
  case (1 E d serial n s)
  from 1(2) obtain page s1 where p: "read_page E d s = (Inr page, s1)"
    by (auto simp: page_loop.simps [of E d serial n s] then_io_Inr)
  show ?case
  proof (cases page)
    case None
    then have "ask E s1 = (Inr u, s')" using 1(2) p by (simp add: page_loop.simps [of E d serial n s])
    then have "out s' = out s1" using ask_kept by blast
    moreover have "length d \<le> src_pos s" "out s1 = out s" using read_page_None [of E d s s1] p None by simp_all
    ultimately show ?thesis by (intro exI [of _ "[]"]) simp
  next
    case (Some q)
    with 1(2) p obtain s2 s3 where q: "ask E s1 = (Inr (), s2)" "serial_of q = serial"
        "write_page E (number_page n q) s2 = (Inr (), s3)" "page_loop E d serial (next_u32 n) s3 = (Inr u, s')"
      by (auto simp: page_loop.simps [of E d serial n s] then_io_Inr split: if_splits)
    have rp: "page_ok q" "drop (src_pos s) d = page_source q @ drop (src_pos s1) d" "out s1 = out s"
      using read_page_Some [of E d s q s1] p Some by auto
    have "src_pos s3 = src_pos s1" "out s2 = out s1"
      using ask_kept [OF q(1)] write_page_pos [OF q(3)] by simp_all
    moreover obtain ps where ps: "list_all (\<lambda>p. page_ok p \<and> serial_of p = serial) ps"
      "drop (src_pos s3) d = concat (map page_source ps)" "out s' = out s3 @ concat (map page_bytes (renumber (next_u32 n) ps))"
      using 1(1) [OF p Some q(1) _ q(3,4)] q(2) by auto
    ultimately show ?thesis
      using rp q(2) write_page_Inr [OF q(3)] by (intro exI [of _ "q # ps"]) simp
  qed
qed

section \<open>What an edit keeps\<close>

text \<open>A step that does not move the read position.\<close>

definition stays :: "io \<Rightarrow> 'a res \<times> io \<Rightarrow> bool" where
  "stays s r \<longleftrightarrow> src_pos (snd r) = src_pos s"

lemma stays_then: "stays s r \<Longrightarrow> (\<And>x s'. stays s' (f x s')) \<Longrightarrow> stays s (then_io r f)"
  by (cases r; cases "fst r") (auto simp: stays_def)

lemma stays_ret: "stays s (x, s)"
  by (simp add: stays_def)

lemma stays_ask: "stays s (ask E s)"
  by (simp add: stays_def ask_def del: ask_pos write_all_pos)

lemma stays_write: "stays s (write_page E p s)"
  unfolding stays_def by (rule write_page_pos [of E p s "fst (write_page E p s)"]) simp

lemma stays_if: "stays s a \<Longrightarrow> stays s b \<Longrightarrow> stays s (if c then a else b)"
  by simp

lemma stays_small: "stays s (first_small E enc qs s)"
proof (induction qs arbitrary: s)
  case (Cons q qs)
  show ?case
    unfolding first_small.simps
    by (intro stays_then [OF stays_ask]) (auto intro: stays_ret Cons.IH split: option.split)
qed (simp add: stays_ret)

lemma stays_picture: "stays s (picture img E c s)"
  unfolding picture_def
  by (auto intro!: stays_if stays_then stays_ask stays_ret stays_small split: sum.split option.split)

lemma stays_push: "stays s (push_all E bs st s)"
proof (induction bs arbitrary: st s)
  case (Cons b bs)
  have "stays s (push_segment E b st s)"
    unfolding push_segment_def Let_def by (intro stays_if stays_then stays_write stays_ret)
  then show ?case unfolding push_all.simps by (intro stays_then Cons.IH)
qed (simp add: stays_ret)

lemma stays_headers: "stays s (write_headers E ps serial s)"
  unfolding write_headers_alt flush_page_def
  by (intro stays_then [OF stays_push] stays_if stays_then stays_write stays_ret)

lemma length_page_source: "length (page_source p) = page_len p" if "page_ok p"
  using that by (simp add: page_source_def page_len_def page_ok_def)

lemma length_sources: "list_all page_ok ps \<Longrightarrow> length (concat (map page_source ps)) = sum_list (map page_len ps)"
  by (induction ps) (simp_all add: length_page_source)

text \<open>The pages of a file after its header, unchanged or renumbered.\<close>

definition rest_pages :: "bytes \<Rightarrow> nat \<Rightarrow> bytes \<Rightarrow> bytes \<Rightarrow> bool" where
  "rest_pages serial n tail rest \<longleftrightarrow>
     (\<exists>qs. list_all (\<lambda>p. page_ok p \<and> serial_of p = serial) qs \<and> tail = concat (map page_source qs) \<and>
        rest = concat (map page_bytes (renumber n qs)))"

lemma finish_rewrite_Inr:
  assumes "finish_rewrite E d first st packets s = (Inr (), s')" and "page_ok first"
  shows "let hs = header_pages (serial_of first) (tl packets); n = (1 + length hs) mod 2 ^ 32
    in \<exists>rest. out s' = out s @ page_bytes first @ concat (map page_bytes hs) @ rest \<and>
      (if n = hs_pages st then rest = drop (hs_bytes st) d else rest_pages (serial_of first) n (drop (src_pos s) d) rest)"
proof -
  from assms(1) obtain u s1 n s2 where w: "write_page E first s = (Inr u, s1)"
      "write_headers E (tl packets) (serial_of first) s1 = (Inr n, s2)"
      "(if n = hs_pages st then copy E d None (seek_to (hs_bytes st) s2) else page_loop E d (serial_of first) n s2) = (Inr (), s')"
    unfolding finish_rewrite_def then_io_Inr by blast
  have serial: "length (serial_of first) = 4" using assms(2) by (simp add: serial_of_def page_ok_def)
  let ?hs = "header_pages (serial_of first) (tl packets)"
  have n: "n = (1 + length ?hs) mod 2 ^ 32" by (rule write_headers_pages(2) [OF serial w(2)])
  have o2: "out s2 = out s @ page_bytes first @ concat (map page_bytes ?hs)"
    using write_page_Inr [OF w(1)] write_headers_pages(1) [OF serial, where E = E and ps = "tl packets" and s = s1] w(2) by (simp add: appends_def)
  have p2: "src_pos s2 = src_pos s"
    using stays_headers [of s1 E "tl packets" "serial_of first"] w(2) write_page_pos [OF w(1)] by (simp add: stays_def)
  show ?thesis
  proof (cases "n = hs_pages st")
    case True
    then have "copy E d None (seek_to (hs_bytes st) s2) = (Inr (), s')" using w(3) by simp
    then have "out s' = out s2 @ drop (hs_bytes st) d"
      using appends_copy [of E "seek_to (hs_bytes st) s2" d None] by (simp add: appends_def to_copy_def seek_to_def)
    then show ?thesis using o2 n True by (simp add: Let_def)
  next
    case False
    then have "page_loop E d (serial_of first) n s2 = (Inr (), s')" using w(3) by simp
    from page_loop_Inr [OF this] obtain qs where "list_all (\<lambda>p. page_ok p \<and> serial_of p = serial_of first) qs"
      "drop (src_pos s2) d = concat (map page_source qs)" "out s' = out s2 @ concat (map page_bytes (renumber n qs))" by blast
    then show ?thesis using o2 p2 n False by (auto simp: Let_def rest_pages_def)
  qed
qed

text \<open>The comments of the second packet and what an edit makes of them; \<open>pic\<close> is the encoded picture.\<close>

definition stored_packet :: "bool \<Rightarrow> bytes \<Rightarrow> (bytes \<times> bytes list) res" where
  "stored_packet opus p =
     (if starts_with p (comment_prefix opus) then parse_comments (drop (length (comment_prefix opus)) p)
      else Inl ''comment header not found'')"

definition edited_comments ::
    "(bytes \<Rightarrow> bytes list) \<Rightarrow> case_tables \<Rightarrow> (bytes \<Rightarrow> bytes) \<Rightarrow> bool \<Rightarrow> tag_fields \<Rightarrow> bytes list \<Rightarrow> bytes option \<Rightarrow> bytes list res" where
  "edited_comments rx T debug opus fs comments pic =
     bind_res (if opus then opus_gain debug T fs (edit_comments rx T fs comments) else Inr (edit_comments rx T fs comments)) (\<lambda>c.
       Inr (case pic of None \<Rightarrow> c | Some p \<Rightarrow> set_comment T ''METADATA_BLOCK_PICTURE'' p c))"

lemma codec_want: "codec_of p = Some (opus, want) \<Longrightarrow> want = (if opus then 2 else 3)"
  by (auto simp: codec_of_def split: if_splits)

lemma tl_update_1: "2 \<le> length xs \<Longrightarrow> tl (xs[1 := y]) = y # drop 2 xs"
  by (cases xs; cases "tl xs") auto

lemma rewrite_ogg_Inr:
  assumes "rewrite_ogg rx T img B debug E d fs cover s = (Inr (), s')" and "src_pos s = 0"
  obtains first ps tail packets opus vendor comments new pic rest where
    "d = concat (map page_source (first # ps)) @ tail" "list_all (\<lambda>p. page_ok p \<and> serial_of p = serial_of first) (first # ps)"
    "codec_of first = Some (opus, length packets)" "concat (map page_segs (first # ps)) = concat (map lacing packets)"
    "stored_packet opus (packets ! 1) = Inr (vendor, comments)" "cover = None \<longrightarrow> pic = None"
    "edited_comments rx T debug opus fs comments pic = Inr new"
    "length (new_comment_packet opus vendor new) \<le> max_tag_bytes"
    "let hs = header_pages (serial_of first) (new_comment_packet opus vendor new # drop 2 packets);
         n = (1 + length hs) mod 2 ^ 32
     in out s' = out s @ page_bytes first @ concat (map page_bytes hs) @ rest \<and>
        (if n = length (first # ps) then rest = tail else rest_pages (serial_of first) n tail rest)"
proof -
  let ?st0 = "\<lparr>hs_current = [], hs_packets = [], hs_bytes = 0, hs_pages = 0\<rparr>"
  let ?k = "\<lambda>first opus st s2. (if \<not> starts_with (hs_packets st ! 1) (comment_prefix opus) then (Inl ''comment header not found'', s2)
     else case parse_comments (drop (length (comment_prefix opus)) (hs_packets st ! 1)) of
       Inl e \<Rightarrow> (Inl e, s2)
     | Inr (vendor, comments) \<Rightarrow>
     case (if opus then opus_gain debug T fs (edit_comments rx T fs comments) else Inr (edit_comments rx T fs comments)) of
       Inl e \<Rightarrow> (Inl e, s2)
     | Inr comments1 \<Rightarrow>
     then_io (case cover of None \<Rightarrow> (Inr comments1, s2)
              | Some c \<Rightarrow> then_io (picture img E c s2) (\<lambda>p s3.
                  (Inr (case p of None \<Rightarrow> comments1
                        | Some pic \<Rightarrow> set_comment T ''METADATA_BLOCK_PICTURE'' (b64_encode B pic) comments1), s3)))
       (\<lambda>comments2 s3.
         if max_tag_bytes < length (new_comment_packet opus vendor comments2) then (Inl ''Ogg comments exceed 64 MiB'', s3)
         else finish_rewrite E d first st ((hs_packets st)[1 := new_comment_packet opus vendor comments2]) s3))"
  let ?l = "\<lambda>page opus want s1. then_io (header_loop E d (serial_of page) want page ?st0 s1) (?k page opus)"
  from assms(1) obtain x s1 where x: "read_page E d s = (Inr x, s1)"
      "(case x of None \<Rightarrow> (Inl ''ogg stream too short'', s1) | Some page \<Rightarrow>
        case codec_of page of None \<Rightarrow> (Inl ''unsupported ogg codec'', s1) | Some (opus, want) \<Rightarrow> ?l page opus want s1) = (Inr (), s')"
    unfolding rewrite_ogg_def then_io_Inr [of "read_page E d s"] by blast
  from x(2) obtain first opus want where y: "x = Some first" "codec_of first = Some (opus, want)" "?l first opus want s1 = (Inr (), s')"
    by (auto split: option.splits)
  from y(3) obtain st s2 where z: "header_loop E d (serial_of first) want first ?st0 s1 = (Inr st, s2)" "?k first opus st s2 = (Inr (), s')"
    unfolding then_io_Inr [of "header_loop E d a b c e f" for a b c e f] by blast
  have a: "read_page E d s = (Inr (Some first), s1)" "codec_of first = Some (opus, want)"
      "header_loop E d (serial_of first) want first ?st0 s1 = (Inr st, s2)"
    using x(1) y z(1) by simp_all
  note b = z(2)
  from b obtain vendor comments where v: "stored_packet opus (hs_packets st ! 1) = Inr (vendor, comments)"
    by (auto simp: stored_packet_def split: if_splits sum.splits)
  from b v obtain comments1 where c1: "(if opus then opus_gain debug T fs (edit_comments rx T fs comments) else Inr (edit_comments rx T fs comments)) = Inr comments1"
    by (auto simp: stored_packet_def split: if_splits sum.splits)
  have c: "then_io (case cover of None \<Rightarrow> (Inr comments1, s2)
              | Some c \<Rightarrow> then_io (picture img E c s2) (\<lambda>p s3.
                  (Inr (case p of None \<Rightarrow> comments1
                        | Some pic \<Rightarrow> set_comment T ''METADATA_BLOCK_PICTURE'' (b64_encode B pic) comments1), s3)))
       (\<lambda>comments2 s3.
         if max_tag_bytes < length (new_comment_packet opus vendor comments2) then (Inl ''Ogg comments exceed 64 MiB'', s3)
         else finish_rewrite E d first st ((hs_packets st)[1 := new_comment_packet opus vendor comments2]) s3) = (Inr (), s')"
    using b v c1 by (auto simp: stored_packet_def split: if_splits)
  then obtain new s3 where n: "(case cover of None \<Rightarrow> (Inr comments1, s2)
              | Some c \<Rightarrow> then_io (picture img E c s2) (\<lambda>p s3.
                  (Inr (case p of None \<Rightarrow> comments1
                        | Some pic \<Rightarrow> set_comment T ''METADATA_BLOCK_PICTURE'' (b64_encode B pic) comments1), s3))) = (Inr new, s3)"
      "\<not> max_tag_bytes < length (new_comment_packet opus vendor new)"
      "finish_rewrite E d first st ((hs_packets st)[1 := new_comment_packet opus vendor new]) s3 = (Inr (), s')"
    unfolding then_io_Inr by (auto split: if_splits)
  obtain pic where p: "cover = None \<longrightarrow> pic = None"
      "new = (case pic of None \<Rightarrow> comments1 | Some p \<Rightarrow> set_comment T ''METADATA_BLOCK_PICTURE'' p comments1)"
    and s3: "out s3 = out s2" "src_pos s3 = src_pos s2"
  proof (cases cover)
    case None
    then show thesis using that [of None] n(1) by simp
  next
    case (Some c)
    with n(1) obtain q where q: "picture img E c s2 = (Inr q, s3)"
        "new = (case q of None \<Rightarrow> comments1 | Some pic \<Rightarrow> set_comment T ''METADATA_BLOCK_PICTURE'' (b64_encode B pic) comments1)"
      by (auto simp: then_io_Inr)
    moreover have "out s3 = out s2" "src_pos s3 = src_pos s2"
      using appends_picture [of E s2 img c] stays_picture [of s2 img E c] q(1) by (auto simp: appends_def stays_def)
    ultimately show thesis using that [of "map_option (b64_encode B) q"] Some by (simp add: option.case_eq_if option.map_sel)
  qed
  note f = read_page_Some [OF a(1)]
  have "length (hs_packets ?st0) < want" using codec_want [OF a(2)] by simp
  from header_loop_Inr [OF a(3) f(1) _ this] obtain ps where h:
    "list_all (\<lambda>p. page_ok p \<and> serial_of p = serial_of first) (first # ps)"
    "drop (src_pos s1) d = concat (map page_source ps) @ drop (src_pos s2) d" "hs_pages st = length (first # ps)"
    "hs_bytes st = sum_list (map page_len (first # ps))" "src_pos s2 = src_pos s1 + sum_list (map page_len ps)" "out s2 = out s1"
    "length (hs_packets st) = want" "concat (map lacing (hs_packets st)) = concat (map page_segs (first # ps))"
    by auto
  have d: "d = concat (map page_source (first # ps)) @ drop (src_pos s2) d" using f(2) h(2) assms(2) by simp
  have pos: "hs_bytes st = src_pos s2" using h(4,5) f(4) assms(2) by simp
  have "2 \<le> length (hs_packets st)" using codec_want [OF a(2)] h(7) by simp
  then have tl: "tl ((hs_packets st)[1 := new_comment_packet opus vendor new]) = new_comment_packet opus vendor new # drop 2 (hs_packets st)"
    by (rule tl_update_1)
  have new: "edited_comments rx T debug opus fs comments pic = Inr new" using c1 p(2) by (simp add: edited_comments_def)
  have "length (new_comment_packet opus vendor new) \<le> max_tag_bytes" using n(2) by simp
  from finish_rewrite_Inr [OF n(3) f(1)] obtain rest where
    "let hs = header_pages (serial_of first) (new_comment_packet opus vendor new # drop 2 (hs_packets st));
         n = (1 + length hs) mod 2 ^ 32
     in out s' = out s @ page_bytes first @ concat (map page_bytes hs) @ rest \<and>
        (if n = length (first # ps) then rest = drop (src_pos s2) d else rest_pages (serial_of first) n (drop (src_pos s2) d) rest)"
    unfolding tl h(3) pos s3(2) Let_def using s3(1) h(6) f(3) by auto
  from that [OF d h(1) _ h(8) [symmetric] v p(1) new _ this] show thesis using a(2) h(7) n(2) by simp
qed

section \<open>Pages are read back\<close>

lemma read_head_exact:
  "src_pos s + (27 - length acc) \<le> length d \<Longrightarrow> length acc \<le> 27 \<Longrightarrow>
     read_head E d acc s = then_io (exact_io E d 27 acc s) (\<lambda>b s1. (Inr (Some b), s1))"
proof (induction E d acc s rule: read_head.induct)
  case (1 E d acc s)
  show ?case
  proof (cases "27 \<le> length acc")
    case True
    then show ?thesis by (simp add: read_head.simps [of E d acc s] exact_io_done)
  next
    case False
    have "then_io (read_some E d (27 - length acc) s) (\<lambda>b s1.
        if b = [] then (if acc = [] then (Inr None, s1) else (Inl ''unexpected EOF'', s1)) else read_head E d (acc @ b) s1) =
      then_io (read_some E d (27 - length acc) s) (\<lambda>b s1.
        then_io (if b = [] then (Inl (if acc = [] then ''EOF'' else ''unexpected EOF''), s1) else exact_io E d 27 (acc @ b) s1)
          (\<lambda>b s1. (Inr (Some b), s1)))"
    proof (rule then_io_cong [OF refl])
      fix b s1 assume b: "read_some E d (27 - length acc) s = (Inr b, s1)"
      have ne: "b \<noteq> []"
      proof
        assume "b = []"
        then have "length d \<le> src_pos s" using read_some_empty [of E d "27 - length acc" s s1] b False by auto
        then show False using 1(2) False by linarith
      qed
      note t = read_some_take [OF b ne]
      then have "length b \<le> 27 - length acc" "src_pos s1 = src_pos s + length b" by blast+
      then have "src_pos s1 + (27 - length (acc @ b)) \<le> length d" "length (acc @ b) \<le> 27"
        using 1(2) False unfolding length_append by linarith+
      then show "(if b = [] then (if acc = [] then (Inr None, s1) else (Inl ''unexpected EOF'', s1)) else read_head E d (acc @ b) s1) =
        then_io (if b = [] then (Inl (if acc = [] then ''EOF'' else ''unexpected EOF''), s1) else exact_io E d 27 (acc @ b) s1)
          (\<lambda>b s1. (Inr (Some b), s1))"
        using 1(1) [OF False b ne] ne by simp
    qed
    then show ?thesis
      by (simp only: read_head.simps [of E d acc s] exact_io.simps [of E d 27 acc s] False if_False then_io_assoc)
  qed
qed

lemma map_of_char_of: "list_all (\<lambda>n. n < 256) ns \<Longrightarrow> map u8 (map char_of ns) = ns"
  by (induction ns) simp_all

lemma slice_prefix: "drop p d = a @ rest \<Longrightarrow> n = length a \<Longrightarrow> slice d p (p + n) = a"
  by (simp add: slice_def)

lemma room: "drop p d = a @ rest \<Longrightarrow> p \<le> length d \<Longrightarrow> p + length a \<le> length d"
  using arg_cong [of "drop p d" "a @ rest" length] unfolding length_append length_drop by linarith

lemma quiet_ogg:
  assumes "quiet E" and "page_ok p" and "drop (src_pos s) d = page_source p @ rest" and "src_pos s \<le> length d"
  shows "\<exists>s'. read_ogg E d s = (Inr (Some p), s') \<and> src_pos s' = src_pos s + page_len p \<and> drop (src_pos s') d = rest \<and>
    src_pos s' \<le> length d"
proof -
  let ?h = "pg_header p" and ?sg = "map char_of (pg_segments p) :: bytes" and ?data = "pg_data p"
  have p: "length ?h = 27" "take 4 ?h = ''OggS''" "u8 (?h ! 26) = length ?sg" "map u8 ?sg = pg_segments p"
    "length ?data = sum_list (pg_segments p)"
    using assms(2) map_of_char_of by (auto simp: page_ok_def)
  have d0: "drop (src_pos s) d = ?h @ ?sg @ ?data @ rest" using assms(3) by (simp add: page_source_def)
  have d1: "drop (src_pos s + 27) d = ?sg @ ?data @ rest"
    using arg_cong [OF d0, of "drop 27"] p(1) by (simp add: add.commute)
  have d2: "drop (src_pos s + 27 + length ?sg) d = ?data @ rest"
    using arg_cong [OF d1, of "drop (length ?sg)"] by (simp add: add.commute add.left_commute)
  have d3: "drop (src_pos s + 27 + length ?sg + length ?data) d = rest"
    using arg_cong [OF d2, of "drop (length ?data)"] by (simp add: add.commute add.left_commute)
  have l1: "src_pos s + 27 \<le> length d" using room [OF d0 assms(4)] p(1) by simp
  have l2: "src_pos s + 27 + length ?sg \<le> length d" using room [OF d1 l1] .
  have l3: "src_pos s + 27 + length ?sg + length ?data \<le> length d" using room [OF d2 l2] .
  obtain s1 where s1: "bytes_io E d 27 s = (Inr ?h, s1)" "src_pos s1 = src_pos s + 27"
    using quiet_bytes [OF assms(1) l1] slice_prefix [OF d0, of 27] p(1) by auto
  obtain s2 where s2: "bytes_io E d (length ?sg) s1 = (Inr ?sg, s2)" "src_pos s2 = src_pos s1 + length ?sg"
    using quiet_bytes [OF assms(1), of s1 "length ?sg" d] l2 slice_prefix [OF d1 refl] s1(2) by auto
  obtain s3 where s3: "bytes_io E d (length ?data) s2 = (Inr ?data, s3)" "src_pos s3 = src_pos s2 + length ?data"
    using quiet_bytes [OF assms(1), of s2 "length ?data" d] l3 slice_prefix [OF d2 refl] s1(2) s2(2) by auto
  have "read_head E d [] s = (Inr (Some ?h), s1)"
    using read_head_exact [of s "[]" d E] l1 s1(1) by simp
  then have "read_ogg E d s = (Inr (Some p), s3)"
    using s2(1) s3(1) p by (simp add: read_ogg_def Let_def del: map_map)
  then show ?thesis using s1(2) s2(2) s3(2) d3 l3 p(1) by (auto simp: page_len_def)
qed

definition seal :: "ogg_page \<Rightarrow> ogg_page" where
  "seal p = p\<lparr>pg_header := take 27 (page_bytes p)\<rparr>"

lemma seal_page:
  assumes "length (pg_header p) = 27" and "take 4 (pg_header p) = ''OggS''" and "length (pg_segments p) < 256"
    and "list_all (\<lambda>n. n < 256) (pg_segments p)" and "length (pg_data p) = sum_list (pg_segments p)"
  shows "page_bytes p = page_source (seal p)" and "page_ok (seal p)" and "pg_header (seal p) ! 5 = pg_header p ! 5"
    and "page_segs (seal p) = page_segs p" and "pg_segments (seal p) = pg_segments p" and "pg_data (seal p) = pg_data p"
proof -
  let ?crc = "put_le32 (unat (ogg_crc (put_at (put_at (pg_header p) 22 [CHR 0x00, CHR 0x00, CHR 0x00, CHR 0x00]) 26
      [char_of (length (pg_segments p))] @ map char_of (pg_segments p) @ pg_data p)))"
  let ?h = "take 22 (pg_header p) @ ?crc @ [char_of (length (pg_segments p))]"
  have h: "length ?h = 27" using assms(1) by simp
  have b: "page_bytes p = ?h @ map char_of (pg_segments p) @ pg_data p"
    using assms(1) by (simp add: page_bytes_def put_at_def Let_def)
  then have t: "take 27 (page_bytes p) = ?h" using h by simp
  show "page_bytes p = page_source (seal p)" unfolding seal_def page_source_def t using b by simp
  have "take 4 ?h = ''OggS''" using assms(1,2) by simp
  moreover have "?h ! 26 = char_of (length (pg_segments p))" using assms(1) by (simp add: nth_append)
  ultimately show "page_ok (seal p)" unfolding page_ok_def seal_def t using h assms by simp
  show "pg_header (seal p) ! 5 = pg_header p ! 5" unfolding seal_def t using assms(1) by (simp add: nth_append)
qed (simp_all add: seal_def page_segs_def)

section \<open>Packets are read back\<close>










definition group_ok :: "bytes list \<Rightarrow> bool" where
  "group_ok g \<longleftrightarrow> g \<noteq> [] \<and> length g \<le> 255 \<and> list_all (\<lambda>b. length b \<le> 255) g"

lemma lacing_le: "b \<in> set (lacing p) \<Longrightarrow> length b \<le> 255"
proof (induction "length p" arbitrary: p rule: less_induct)
  case less
  show ?case
  proof (cases "length p < 255")
    case False
    then show ?thesis using less.hyps [of "drop 255 p"] less.prems lacing_long [of p] by auto
  qed (use less.prems in \<open>simp add: lacing_short\<close>)
qed

lemma chunks_ok: "0 < n \<Longrightarrow> list_all (\<lambda>g. g \<noteq> [] \<and> length g \<le> n \<and> set g \<subseteq> set xs) (chunks n xs)"
proof (induction n xs rule: chunks.induct)
  case (1 n xs)
  show ?case
  proof (cases "xs = []")
    case False
    then have "list_all (\<lambda>g. g \<noteq> [] \<and> length g \<le> n \<and> set g \<subseteq> set (drop n xs)) (chunks n (drop n xs))"
      using 1 by simp
    then have "list_all (\<lambda>g. g \<noteq> [] \<and> length g \<le> n \<and> set g \<subseteq> set xs) (chunks n (drop n xs))"
      by (auto simp: list_all_iff dest: in_set_dropD)
    moreover have "set (take n xs) \<subseteq> set xs" by (rule set_take_subset)
    ultimately show ?thesis using False 1(2) by (subst chunks.simps) simp
  qed simp
qed

lemma groups_ok: "list_all group_ok (chunks 255 (concat (map lacing ps)))"
  using chunks_ok [of 255 "concat (map lacing ps)"] by (auto simp: list_all_iff group_ok_def dest!: lacing_le subsetD)

lemma sealed_group:
  assumes "group_ok g" and "length serial = 4"
  shows "page_bytes (page_of serial c n g) = page_source (seal (page_of serial c n g))" "page_ok (seal (page_of serial c n g))"
    "u8 (pg_header (seal (page_of serial c n g)) ! 5) = (if c then 1 else 0)"
    "pg_segments (seal (page_of serial c n g)) = map length g" "pg_data (seal (page_of serial c n g)) = concat g"
proof -
  let ?p = "page_of serial c n g"
  have "list_all (\<lambda>n. n < 256) (map length g)" using assms(1) by (auto simp: group_ok_def list_all_iff)
  then have a: "length (pg_header ?p) = 27" "take 4 (pg_header ?p) = ''OggS''" "length (pg_segments ?p) < 256"
      "list_all (\<lambda>n. n < 256) (pg_segments ?p)" "length (pg_data ?p) = sum_list (pg_segments ?p)"
    using assms by (auto simp: page_of_def page_head_def group_ok_def length_concat)
  note s = seal_page [OF a]
  show "page_bytes ?p = page_source (seal ?p)" "page_ok (seal ?p)" by (rule s)+
  show "u8 (pg_header (seal ?p) ! 5) = (if c then 1 else 0)" unfolding s(3) by (simp add: page_of_def page_head_def)
  show "pg_segments (seal ?p) = map length g" "pg_data (seal ?p) = concat g" unfolding s(5,6) by (simp_all add: page_of_def)
qed


lemma split_concat: "split_at_lengths (map length g) (concat g) = g"
  by (induction g) simp_all

lemma segs_paged: "concat (map page_segs (paged serial n c gs)) = concat gs"
  by (induction gs arbitrary: n c) (simp_all add: page_segs_def page_of_def split_concat)

lemma segs_headers: "concat (map page_segs (header_pages serial packets)) = concat (map lacing packets)"
  by (simp add: header_pages_def segs_paged concat_chunks)












section \<open>The properties\<close>

text \<open>
  C30.  Header packets are paginated as the format prescribes: whatever fails, the writer appends a
  prefix of the bytes of the reference pages (255-byte segments, at most 255 of them a page, pages
  numbered from 1, the continuation flag set exactly after an unfinished packet), all of them when it
  succeeds, and it returns the number of the next page; the segments of the pages spell the packets.
\<close>

theorem header_packets_are_paged:
  assumes "length serial = 4"
  shows "let pages = header_pages serial packets; r = write_headers E packets serial s
    in (\<exists>p. out (snd r) = out s @ p \<and> prefix p (concat (map page_bytes pages)) \<and>
         (case fst r of Inl e \<Rightarrow> True
          | Inr n \<Rightarrow> p = concat (map page_bytes pages) \<and> n = (1 + length pages) mod 2 ^ 32)) \<and>
       concat (map page_segs pages) = concat (map lacing packets) \<and>
       list_all (\<lambda>p. page_segs p \<noteq> [] \<and> length (page_segs p) \<le> 255) pages"
proof -
  let ?pages = "header_pages serial packets" and ?r = "write_headers E packets serial s"
  have *: "list_all group_ok gs \<Longrightarrow> list_all (\<lambda>p. page_segs p \<noteq> [] \<and> length (page_segs p) \<le> 255) (paged serial n c gs)"
    for gs n c
    by (induction gs arbitrary: n c) (simp_all add: group_ok_def page_segs_def page_of_def split_concat)
  have "appends E s (concat (map page_bytes ?pages)) ?r" by (rule write_headers_pages(1) [OF assms])
  moreover have "fst ?r = Inr n \<Longrightarrow> n = (1 + length ?pages) mod 2 ^ 32" for n
    using write_headers_pages(2) [OF assms, of E packets s n "snd ?r"] by (metis prod.collapse)
  moreover have "list_all (\<lambda>p. page_segs p \<noteq> [] \<and> length (page_segs p) \<le> 255) ?pages"
    unfolding header_pages_def by (rule *) (rule groups_ok)
  ultimately show ?thesis
    unfolding Let_def by (cases "fst ?r") (auto simp: appends_def segs_headers)
qed

text \<open>
  C7.  An Ogg tag edit changes nothing but the comment packet: whenever it succeeds, whatever the
  reads and checks did, the source was a chain of well-formed pages of one stream whose first pages
  hold the header packets; the output is the first page, the pages of the new comment packet and of
  the remaining header packets, and the rest of the file, byte for byte when the number of header
  pages is unchanged and otherwise page for page with only the sequence numbers rewritten.
\<close>

theorem ogg_edit_keeps_packets:
  assumes "rewrite_ogg rx T img B debug E d fs cover s = (Inr (), s')" and "src_pos s = 0"
  shows "\<exists>first ps tail packets opus vendor comments new pic rest.
    d = concat (map page_source (first # ps)) @ tail \<and> list_all (\<lambda>p. page_ok p \<and> serial_of p = serial_of first) (first # ps) \<and>
    codec_of first = Some (opus, length packets) \<and> concat (map page_segs (first # ps)) = concat (map lacing packets) \<and>
    stored_packet opus (packets ! 1) = Inr (vendor, comments) \<and> (cover = None \<longrightarrow> pic = None) \<and>
    edited_comments rx T debug opus fs comments pic = Inr new \<and>
    (let hs = header_pages (serial_of first) (new_comment_packet opus vendor new # drop 2 packets);
         n = (1 + length hs) mod 2 ^ 32
     in out s' = out s @ page_bytes first @ concat (map page_bytes hs) @ rest \<and>
        (if n = length (first # ps) then rest = tail else rest_pages (serial_of first) n tail rest))"
proof (rule rewrite_ogg_Inr [OF assms])
  fix first ps tail packets opus vendor comments new pic rest
  assume r: "d = concat (map page_source (first # ps)) @ tail" "list_all (\<lambda>p. page_ok p \<and> serial_of p = serial_of first) (first # ps)"
    "codec_of first = Some (opus, length packets)" "concat (map page_segs (first # ps)) = concat (map lacing packets)"
    "stored_packet opus (packets ! 1) = Inr (vendor, comments)" "cover = None \<longrightarrow> pic = None"
    "edited_comments rx T debug opus fs comments pic = Inr new"
    "let hs = header_pages (serial_of first) (new_comment_packet opus vendor new # drop 2 packets);
         n = (1 + length hs) mod 2 ^ 32
     in out s' = out s @ page_bytes first @ concat (map page_bytes hs) @ rest \<and>
        (if n = length (first # ps) then rest = tail else rest_pages (serial_of first) n tail rest)"
  show ?thesis
    by (rule exI [of _ first], rule exI [of _ ps], rule exI [of _ tail], rule exI [of _ packets], rule exI [of _ opus],
        rule exI [of _ vendor], rule exI [of _ comments], rule exI [of _ new], rule exI [of _ pic], rule exI [of _ rest])
      (intro conjI r)
qed


section \<open>Examples\<close>

theorem header_packets_are_paged_witness:
  "concat (map page_segs (header_pages ''abcd'' [''xy'', ''z''])) = [''xy'', ''z'']"
  using header_packets_are_paged [of "''abcd''" "[''xy'', ''z'']" steady start_io]
  by (simp add: Let_def lacing_short)

text \<open>An Opus file of two header pages and no audio.\<close>

definition tiny_first :: ogg_page where "tiny_first = page_of ''abcd'' False 0 [''OpusHead'']"

definition tiny_second :: ogg_page where "tiny_second = page_of ''abcd'' False 1 [''OpusTags'' @ comment_block ''v'' []]"

definition tiny_ogg :: bytes where "tiny_ogg = page_bytes tiny_first @ page_bytes tiny_second"

definition no_base64 :: base64 where
  "no_base64 = \<lparr>b64_encode = id, b64_decode = Some, b64_decode_no_pad = Some\<rparr>"

lemma quiet_read_page:
  assumes "quiet E" and "page_ok p" and "u8 (pg_header p ! 4) = 0" and "drop (src_pos s) d = page_source p @ rest"
    and "src_pos s \<le> length d"
  shows "\<exists>s'. read_page E d s = (Inr (Some p), s') \<and> src_pos s' = src_pos s + page_len p \<and> drop (src_pos s') d = rest \<and>
    src_pos s' \<le> length d"
  using quiet_ogg [OF assms(1,2,4,5)] assms(3) by (auto simp: read_page_def)

lemma quiet_write_page: "quiet E \<Longrightarrow>
  write_page E p s = (Inr (), s\<lparr>checks := checks s + 1, writes := writes s + 1, out := out s @ page_bytes p\<rparr>)"
  by (simp add: write_page_def quiet_ask quiet_write)

lemma quiet_push: "quiet E \<Longrightarrow> \<exists>st' s'. push_all E bs st s = (Inr st', s')"
proof (induction bs arbitrary: st s)
  case (Cons b bs)
  have "\<exists>st1 s1. push_segment E b st s = (Inr st1, s1)"
    by (simp add: push_segment_def Let_def quiet_write_page [OF Cons.prems])
  then show ?case using Cons.IH [OF Cons.prems] by auto
qed simp

lemma quiet_headers: "quiet E \<Longrightarrow> \<exists>n s'. write_headers E ps serial s = (Inr n, s')"
proof -
  assume q: "quiet E"
  obtain st1 s1 where "push_all E (concat (map lacing ps)) \<lparr>ps_page = header_page serial, ps_sequence = 1\<rparr> s = (Inr st1, s1)"
    using quiet_push [OF q] by blast
  moreover have "\<exists>n s'. flush_page E st1 s1 = (Inr n, s')"
    by (simp add: flush_page_def quiet_write_page [OF q])
  ultimately show ?thesis by (simp add: write_headers_alt)
qed

lemma tiny_pages:
  "group_ok [''OpusHead'']" "group_ok [''OpusTags'' @ comment_block ''v'' []]" "length ''abcd'' = (4::nat)"
  by (simp_all add: group_ok_def comment_block_def put_string_def)

lemma seal_kept:
  assumes "group_ok g" and "length serial = 4"
  shows "u8 (pg_header (seal (page_of serial c n g)) ! 4) = 0" "serial_of (seal (page_of serial c n g)) = serial"
proof -
  let ?h = "pg_header (seal (page_of serial c n g))" and ?old = "page_head serial c n"
  have e: "take 22 ?h = take 22 ?old"
    using assms by (simp add: seal_def page_bytes_def page_of_def page_head_def put_at_def Let_def)
  have "take 22 x ! 4 = x ! 4" "slice (take 22 x) 14 18 = slice x 14 18" for x :: bytes
    by (simp_all add: slice_def drop_take min_def)
  then have "?h ! 4 = ?old ! 4" "slice ?h 14 18 = slice ?old 14 18" by (metis e)+
  moreover have "?old ! 4 = CHR 0x00" "slice ?old 14 18 = serial"
    using assms(2) by (simp_all add: page_head_def slice_def)
  ultimately have h: "?h ! 4 = CHR 0x00" "slice ?h 14 18 = serial" by (metis, metis)
  show "u8 (?h ! 4) = 0" unfolding h(1) by simp
  show "serial_of (seal (page_of serial c n g)) = serial" unfolding serial_of_def by (rule h(2))
qed

abbreviation rewrite_tiny :: "unit res \<times> io" where
  "rewrite_tiny \<equiv> rewrite_ogg (\<lambda>s. [s]) plain_tables no_images no_base64 id steady tiny_ogg [(''title'', ''New'')] None start_io"

lemma steady_quiet: "quiet steady"
  by (simp add: quiet_def steady_def)

lemma tiny_comment: "comment_block ''v'' [] = put_le32 1 @ ''v'' @ put_le32 0"
  by (simp add: comment_block_def put_string_def)

lemma tiny_rewrite: "\<exists>s'. rewrite_tiny = (Inr (), s')"
proof -
  let ?p = "seal tiny_first" and ?q = "seal tiny_second" and ?tags = "''OpusTags'' @ comment_block ''v'' []"
  note g = sealed_group [OF tiny_pages(1,3), of False 0, folded tiny_first_def]
  note h = sealed_group [OF tiny_pages(2,3), of False 1, folded tiny_second_def]
  note gk = seal_kept [OF tiny_pages(1,3), of False 0, folded tiny_first_def]
  note hk = seal_kept [OF tiny_pages(2,3), of False 1, folded tiny_second_def]
  have "drop (src_pos start_io) tiny_ogg = page_source ?p @ page_source ?q"
    by (simp add: tiny_ogg_def start_io_def g(1) h(1))
  from quiet_read_page [OF steady_quiet g(2) gk(1) this] obtain s1 where
    s1: "read_page steady tiny_ogg start_io = (Inr (Some ?p), s1)" "drop (src_pos s1) tiny_ogg = page_source ?q @ []"
      "src_pos s1 \<le> length tiny_ogg" by (auto simp: start_io_def)
  let ?s1 = "s1\<lparr>checks := checks s1 + 1\<rparr>"
  have "drop (src_pos ?s1) tiny_ogg = page_source ?q @ []" "src_pos ?s1 \<le> length tiny_ogg" using s1(2,3) by simp_all
  from quiet_read_page [OF steady_quiet h(2) hk(1) this] obtain s2 where
    s2: "read_page steady tiny_ogg ?s1 = (Inr (Some ?q), s2)" by auto
  let ?s2 = "s2\<lparr>checks := checks s2 + 1\<rparr>"
  let ?st0 = "\<lparr>hs_current = [], hs_packets = [], hs_bytes = 0, hs_pages = 0\<rparr>"
  let ?st1 = "\<lparr>hs_current = [], hs_packets = [''OpusHead''], hs_bytes = page_len ?p, hs_pages = 1\<rparr>"
  let ?st2 = "\<lparr>hs_current = [], hs_packets = [''OpusHead'', ?tags], hs_bytes = page_len ?p + page_len ?q, hs_pages = 2\<rparr>"
  have len: "page_len ?p = 36" "page_len ?q = 45"
    using g(4,5) h(4,5) by (simp_all add: page_len_def tiny_comment)
  have "header_loop steady tiny_ogg ''abcd'' 2 ?q ?st1 s = (Inr ?st2, s\<lparr>checks := checks s + 1\<rparr>)" for s
    using h(4,5) hk(2) len
    by (subst header_loop.simps) (simp add: quiet_ask [OF steady_quiet] max_tag_bytes_def tiny_comment)
  then have loop: "header_loop steady tiny_ogg ''abcd'' 2 ?p ?st0 s1 = (Inr ?st2, ?s2)"
    using g(4,5) gk(2) len s2
    by (subst header_loop.simps) (simp add: quiet_ask [OF steady_quiet] max_tag_bytes_def)
  have codec: "codec_of ?p = Some (True, 2)" using g(5) by (simp add: codec_of_def starts_with_def)
  have parse: "parse_comments (comment_block ''v'' []) = Inr (''v'', [])"
    using parse_comment_block [of "''v''" "[]" "[]"] by (simp add: block_fits_def short_def)
  have gain: "opus_gain id plain_tables [(''title'', ''New'')] [''TITLE=New''] = Inr [''TITLE=New'']"
    by (simp add: opus_gain_def)
  let ?new = "new_comment_packet True ''v'' [''TITLE=New'']"
  have new: "length ?new = 30" by (simp add: new_comment_packet_def comment_prefix_def comment_block_def put_string_def)
  obtain n s4 where w: "write_headers steady [?new] ''abcd'' (snd (write_page steady ?p ?s2)) = (Inr n, s4)"
    using quiet_headers [OF steady_quiet] by blast
  have "n = (1 + length (header_pages ''abcd'' [?new])) mod 2 ^ 32" by (rule write_headers_pages(2) [OF tiny_pages(3) w])
  moreover have "header_pages ''abcd'' [?new] = paged ''abcd'' 1 False [[?new]]"
    using new by (simp add: header_pages_def lacing_short chunks_short)
  ultimately have n: "n = 2" by simp
  have "fst (copy steady tiny_ogg None (seek_to (page_len ?p + page_len ?q) s4)) = Inr ()"
    by (simp add: copy_succeeds [OF steady_quiet] inside_def)
  then have "fst (finish_rewrite steady tiny_ogg ?p ?st2 [''OpusHead'', ?new] ?s2) = Inr ()"
    using w n gk(2) by (simp add: finish_rewrite_def quiet_write_page [OF steady_quiet])
  moreover have "rewrite_tiny = finish_rewrite steady tiny_ogg ?p ?st2 [''OpusHead'', ?new] ?s2"
    unfolding rewrite_ogg_def
    using new by (simp add: s1(1) codec loop gk(2) starts_with_def comment_prefix_def parse tiny_edit gain max_tag_bytes_def)
  ultimately show ?thesis by (metis prod.collapse)
qed

theorem ogg_edit_keeps_packets_witness:
  "\<exists>first ps tail packets opus vendor comments new pic rest.
    tiny_ogg = concat (map page_source (first # ps)) @ tail \<and>
    list_all (\<lambda>p. page_ok p \<and> serial_of p = serial_of first) (first # ps) \<and>
    codec_of first = Some (opus, length packets) \<and> concat (map page_segs (first # ps)) = concat (map lacing packets) \<and>
    stored_packet opus (packets ! 1) = Inr (vendor, comments) \<and> (None = (None :: bytes option) \<longrightarrow> pic = None) \<and>
    edited_comments (\<lambda>s. [s]) plain_tables id opus [(''title'', ''New'')] comments pic = Inr new \<and>
    (let hs = header_pages (serial_of first) (new_comment_packet opus vendor new # drop 2 packets);
         n = (1 + length hs) mod 2 ^ 32
     in out (snd rewrite_tiny) = out start_io @ page_bytes first @ concat (map page_bytes hs) @ rest \<and>
        (if n = length (first # ps) then rest = tail else rest_pages (serial_of first) n tail rest))"
proof -
  obtain s' where r: "rewrite_tiny = (Inr (), s')" using tiny_rewrite by blast
  have "src_pos start_io = 0" by (simp add: start_io_def)
  from ogg_edit_keeps_packets [OF r this] show ?thesis unfolding r snd_conv .
qed


end
