(* ===== verification/Ape.thy ===== *)
theory Ape
  imports Flac
begin

text \<open>
  APEv2 tags: the reader (the APE part of rust\_backend/crates/core/src/tags/containers.rs) and the
  editor (rust\_backend/crates/core/src/tags/write/ape.rs), which replaces the tag at the end of the
  file by one section.
\<close>

section \<open>The footer\<close>


definition flag_set :: "nat \<Rightarrow> nat \<Rightarrow> bool" where
  "flag_set n flags \<longleftrightarrow> flags div 2 ^ n mod 2 = 1"



section \<open>The reader\<close>





section \<open>The editor\<close>

record ape_item =
  ai_key :: bytes
  ai_value :: bytes
  ai_flags :: nat
















definition item_bytes :: "ape_item \<Rightarrow> bytes" where
  "item_bytes i = put_le32 (length (ai_value i)) @ put_le32 (ai_flags i) @ ai_key i @ [CHR 0x00] @ ai_value i"


definition ape_header :: "nat \<Rightarrow> nat \<Rightarrow> nat \<Rightarrow> bytes" where
  "ape_header len count flags = ''APETAGEX'' @ concat (map put_le32 [2000, len, count, flags, 0, 0])"





section \<open>Tags as lists of items\<close>





lemma length_ape_header [simp]: "length (ape_header n c f) = 32"
  by (simp add: ape_header_def)

lemma length_item_bytes [simp]: "length (item_bytes i) = 9 + length (ai_key i) + length (ai_value i)"
  by (simp add: item_bytes_def)







lemma flag_bits [simp]: "flag_set 29 0x80000000 = False" "flag_set 31 0x80000000 = True"
  by (simp_all add: flag_set_def)





















end
