(* ===== verification/Filename.thy ===== *)
theory Filename
  imports Matching
begin

text \<open>
  File names (rust\_backend/crates/core/src/filename.rs): the normal form every downloaded file
  gets, and the variant that keeps a quality marker.  A string is the UTF-8 encoding of its scalar
  values; the loops over characters work on code points, the byte limit on the encoded string.
  The section on safety shows what the result may contain, that names in normal form are kept, and
  that the marker survives.
\<close>

section \<open>Characters and words\<close>

definition max_filename :: nat where "max_filename = 200"

text \<open>The characters no file name may hold; a control character outside this range is dropped.\<close>

definition forbidden :: "nat \<Rightarrow> bool" where
  "forbidden c \<longleftrightarrow> c \<in> {60, 62, 58, 34, 47, 92, 124, 63, 42} \<or> c \<le> 0x1f"

text \<open>\<^verbatim>\<open>char::is_control\<close>: the general category Cc.\<close>

definition is_control :: "nat \<Rightarrow> bool" where
  "is_control c \<longleftrightarrow> c \<le> 0x1f \<or> 0x7f \<le> c \<and> c \<le> 0x9f"

fun filter_chars :: "nat list \<Rightarrow> nat list" where
  "filter_chars [] = []"
| "filter_chars (c # cs) =
     (if forbidden c then 32 # filter_chars cs
      else if \<not> is_control c then c # filter_chars cs
      else filter_chars cs)"

text \<open>\<^verbatim>\<open>str::split_whitespace\<close>; the first argument is the word read so far.\<close>

fun split_white :: "nat list \<Rightarrow> nat list \<Rightarrow> nat list list" where
  "split_white w [] = (if w = [] then [] else [w])"
| "split_white w (c # cs) =
     (if is_white c then (if w = [] then split_white [] cs else w # split_white [] cs)
      else split_white (w @ [c]) cs)"

fun push_word :: "nat list \<Rightarrow> nat list \<Rightarrow> nat list" where
  "push_word out [] = out"
| "push_word out (c # cs) =
     push_word (if c \<noteq> 95 \<or> out = [] \<or> last out \<noteq> 95 then out @ [c] else out) cs"

fun push_words :: "nat list \<Rightarrow> nat list list \<Rightarrow> nat list" where
  "push_words out [] = out"
| "push_words out (w # ws) = push_words (push_word (if out = [] then out else out @ [32]) w) ws"

abbreviation trim_white :: "nat list \<Rightarrow> nat list" where
  "trim_white \<equiv> trim_list is_white"

abbreviation trim_set :: "nat set \<Rightarrow> nat list \<Rightarrow> nat list" where
  "trim_set A \<equiv> trim_list (\<lambda>c. c \<in> A)"

definition normalized :: "nat list \<Rightarrow> nat list" where
  "normalized cs =
     trim_set {95, 32}
       (push_words [] (split_white [] (trim_set {46, 32} (trim_white (filter_chars cs)))))"

section \<open>Cutting at a character boundary\<close>

text \<open>\<^verbatim>\<open>str::is_char_boundary\<close> and the loop that steps back to one.\<close>

definition char_boundary :: "bytes \<Rightarrow> nat \<Rightarrow> bool" where
  "char_boundary s i \<longleftrightarrow> i = 0 \<or> i = length s \<or> i < length s \<and> \<not> cont_byte (s ! i)"

fun boundary_before :: "bytes \<Rightarrow> nat \<Rightarrow> nat" where
  "boundary_before s 0 = 0"
| "boundary_before s (Suc n) = (if char_boundary s (Suc n) then Suc n else boundary_before s n)"

definition truncate_utf8_bytes :: "bytes \<Rightarrow> nat \<Rightarrow> bytes" where
  "truncate_utf8_bytes s n = (if length s \<le> n then s else take (boundary_before s n) s)"

definition cut_name :: "bytes \<Rightarrow> nat list" where
  "cut_name s =
     trim_set {95, 32} (trim_white (trim_set {46, 32} (chars (take (boundary_before s max_filename) s))))"

definition sanitize_filename :: "bytes \<Rightarrow> bytes" where
  "sanitize_filename s =
     (let name = encode_chars (normalized (chars s));
          name = (if max_filename < length name then encode_chars (cut_name name) else name)
      in if name = [] then ''Unknown'' else name)"

section \<open>Keeping a marker\<close>

text \<open>\<^verbatim>\<open>str::contains\<close> and \<^verbatim>\<open>str::replace(token, "")\<close>.\<close>

definition contains :: "bytes \<Rightarrow> bytes \<Rightarrow> bool" where
  "contains s p \<longleftrightarrow> find_sub p s \<noteq> None"

function remove_all :: "bytes \<Rightarrow> bytes \<Rightarrow> bytes" where
  "remove_all p s =
     (if p = [] then s
      else case find_sub p s of
        None \<Rightarrow> s
      | Some i \<Rightarrow> take i s @ remove_all p (drop (i + length p) s))"
  by pat_completeness auto

lemma find_sub_Some: "find_sub p s = Some i \<Longrightarrow> \<exists>r. s = take i s @ p @ r \<and> i + length p \<le> length s"
proof (induction p s arbitrary: i rule: find_sub.induct)
  case (1 p)
  then show ?case by (simp split: if_splits)
next
  case (2 p c cs)
  show ?case
  proof (cases "starts_with (c # cs) p")
    case True
    then obtain r where "c # cs = p @ r" by (auto simp: starts_with_split)
    moreover from this have "length p \<le> length (c # cs)" by simp
    moreover have "i = 0" using 2 True by simp
    ultimately show ?thesis by auto
  next
    case False
    then obtain j where "find_sub p cs = Some j" "i = Suc j" using 2 by auto
    then show ?thesis using 2 False by auto
  qed
qed

termination remove_all
proof (relation "measure (length \<circ> snd)")
  fix p s :: bytes and i
  assume "p \<noteq> []" "find_sub p s = Some i"
  then show "((p, drop (i + length p) s), (p, s)) \<in> measure (length \<circ> snd)"
    using find_sub_Some [of p s i] by (cases p) auto
qed simp

declare remove_all.simps [simp del]

definition sanitize_filename_preserving_token :: "bytes \<Rightarrow> bytes \<Rightarrow> bytes" where
  "sanitize_filename_preserving_token filename token0 =
     (let sanitized = sanitize_filename filename; token = trim token0
      in if token = [] \<or> \<not> contains filename token \<or> contains sanitized token then sanitized
      else
        let safe_token = sanitize_filename token;
            marker = '' - '' @ safe_token;
            prefix_limit = max_filename - length marker
        in if prefix_limit = 0 then truncate_utf8_bytes safe_token max_filename
        else
          let raw_prefix = encode_chars (trim_set {32, 95, 45} (chars (remove_all token filename)));
              name = truncate_utf8_bytes (sanitize_filename raw_prefix) prefix_limit;
              name = encode_chars (trim_white (trim_set {46, 32, 95, 45} (chars name)))
          in if name = [] \<or> name = ''Unknown'' then safe_token else name @ marker)"

section \<open>Boundaries\<close>

lemma cont_byte_low [simp]: "cont_byte (char_of (128 + (n::nat) mod 64))"
proof -
  have "n mod 64 < 64" by simp
  then have "u8 (char_of (128 + n mod 64)) = 128 + n mod 64" by (intro u8_add) linarith
  then show ?thesis using \<open>n mod 64 < 64\<close> by (simp add: cont_byte_def)
qed

lemma encode_char_cont: "0 < i \<Longrightarrow> i < length (encode_char c) \<Longrightarrow> cont_byte (encode_char c ! i)"
proof -
  have *: "list_all cont_byte (tl (encode_char c))"
    unfolding encode_char_def by (simp del: char_of_eq_iff)
  assume "0 < i" "i < length (encode_char c)"
  then show ?thesis using * by (metis Suc_pred length_tl list_all_length nth_tl diff_less_mono Suc_leI One_nat_def)
qed

lemma boundary_prefix:
  "list_all scalar cs \<Longrightarrow> char_boundary (encode_chars cs) i \<Longrightarrow>
     \<exists>ds es. cs = ds @ es \<and> take i (encode_chars cs) = encode_chars ds"
proof (induction cs arbitrary: i)
  case Nil
  then show ?case by simp
next
  case (Cons c cs)
  let ?n = "length (encode_char c)"
  consider "i = 0" | "0 < i" "i < ?n" | "?n \<le> i" by linarith
  then show ?case
  proof cases
    case 1
    then have "take i (encode_chars (c # cs)) = encode_chars []" by simp
    then show ?thesis by (metis append_Nil)
  next
    case 2
    then have "cont_byte (encode_chars (c # cs) ! i)"
      using encode_char_cont by (simp add: nth_append)
    then show ?thesis using 2 Cons.prems(2) by (auto simp: char_boundary_def)
  next
    case 3
    then have "char_boundary (encode_chars cs) (i - ?n)"
      using Cons.prems(2) encode_char_ne [of c] by (auto simp: char_boundary_def nth_append)
    from Cons.IH [OF _ this] Cons.prems(1) obtain ds es
      where "cs = ds @ es" "take (i - ?n) (encode_chars cs) = encode_chars ds" by auto
    then have "c # cs = (c # ds) @ es" "take i (encode_chars (c # cs)) = encode_chars (c # ds)"
      using 3 by auto
    then show ?thesis by blast
  qed
qed

lemma boundary_before_ok: "char_boundary s (boundary_before s n) \<and> boundary_before s n \<le> n"
  by (induction n) (auto simp: char_boundary_def)

lemma truncate_prefix:
  assumes "list_all scalar cs"
  shows "\<exists>ds es. cs = ds @ es \<and> truncate_utf8_bytes (encode_chars cs) n = encode_chars ds"
proof (cases "length (encode_chars cs) \<le> n")
  case True
  then show ?thesis by (metis append_Nil2 truncate_utf8_bytes_def)
next
  case False
  then show ?thesis
    using boundary_prefix [OF assms, of "boundary_before (encode_chars cs) n"] boundary_before_ok
    by (simp add: truncate_utf8_bytes_def)
qed

lemma length_truncate: "length (truncate_utf8_bytes s n) \<le> n"
  using boundary_before_ok [of s n] by (auto simp: truncate_utf8_bytes_def)

section \<open>Clean names\<close>

text \<open>
  The normal form: no forbidden or control character, the space as the only white space, and no
  two spaces or underscores in a row.
\<close>

definition clean_pair :: "nat \<Rightarrow> nat \<Rightarrow> bool" where
  "clean_pair a b \<longleftrightarrow> \<not> (a = 32 \<and> b = 32) \<and> \<not> (a = 95 \<and> b = 95)"

definition clean_char :: "nat \<Rightarrow> bool" where
  "clean_char c \<longleftrightarrow> scalar c \<and> \<not> forbidden c \<and> \<not> is_control c \<and> (is_white c \<longrightarrow> c = 32)"

definition clean :: "nat list \<Rightarrow> bool" where
  "clean cs \<longleftrightarrow> list_all clean_char cs \<and> successively clean_pair cs"

lemma trim_list_sublist: "\<exists>as bs. xs = as @ trim_list p xs @ bs"
proof -
  have "xs = takeWhile p xs @ dropWhile p xs" by simp
  moreover have "dropWhile p xs = trim_list p xs @ rev (takeWhile p (rev (dropWhile p xs)))"
    unfolding trim_list_def by (metis rev_append rev_rev_ident takeWhile_dropWhile_id)
  ultimately show ?thesis by metis
qed

lemma clean_append: "clean (xs @ ys) \<Longrightarrow> clean xs \<and> clean ys"
  by (auto simp: clean_def successively_append_iff)

lemma clean_trim: "clean xs \<Longrightarrow> clean (trim_list p xs)"
  by (metis clean_append trim_list_sublist)

lemma trim_list_ends: "trim_list p xs \<noteq> [] \<Longrightarrow> \<not> p (hd (trim_list p xs)) \<and> \<not> p (last (trim_list p xs))"
proof -
  let ?ds = "dropWhile p xs"
  assume ne: "trim_list p xs \<noteq> []"
  then have ds: "dropWhile p (rev ?ds) \<noteq> []" by (simp add: trim_list_def)
  then have "?ds \<noteq> []" by (metis dropWhile.simps(1) rev.simps(1))
  have "last (trim_list p xs) = hd (dropWhile p (rev ?ds))" using ds by (simp add: trim_list_def last_rev)
  then have "\<not> p (last (trim_list p xs))" using hd_dropWhile [OF ds] by simp
  moreover have "hd (trim_list p xs) = hd ?ds"
    using ne trim_list_def [of p xs]
    by (metis append_is_Nil_conv hd_append2 rev_append rev_rev_ident takeWhile_dropWhile_id)
  moreover have "\<not> p (hd ?ds)" using \<open>?ds \<noteq> []\<close> by (rule hd_dropWhile)
  ultimately show ?thesis by simp
qed

lemma filter_chars_ok: "list_all scalar cs \<Longrightarrow>
    list_all (\<lambda>c. scalar c \<and> \<not> forbidden c \<and> \<not> is_control c) (filter_chars cs)"
proof (induction cs)
  case (Cons c cs)
  have "scalar 32 \<and> \<not> forbidden 32 \<and> \<not> is_control 32"
    by (simp add: scalar_def forbidden_def is_control_def)
  with Cons show ?case by (cases "forbidden c"; cases "is_control c") simp_all
qed simp

lemma split_white_words:
  "set w \<subseteq> A - Collect is_white \<Longrightarrow> set cs \<subseteq> A \<Longrightarrow> v \<in> set (split_white w cs) \<Longrightarrow>
     v \<noteq> [] \<and> set v \<subseteq> A - Collect is_white"
proof (induction w cs rule: split_white.induct)
  case (1 w)
  then show ?case by (simp split: if_splits)
next
  case (2 w c cs)
  show ?case
  proof (cases "is_white c")
    case True
    then show ?thesis using "2.IH"(1,2) "2.prems" by (cases "w = []") auto
  next
    case False
    then show ?thesis using "2.IH"(3) "2.prems" by simp
  qed
qed

lemma clean_snoc: "clean out \<Longrightarrow> clean_char c \<Longrightarrow> out = [] \<or> clean_pair (last out) c \<Longrightarrow> clean (out @ [c])"
  by (auto simp: clean_def successively_append_iff)

lemma push_word_clean:
  "clean out \<Longrightarrow> list_all (\<lambda>c. clean_char c \<and> \<not> is_white c) w \<Longrightarrow> clean (push_word out w)"
proof (induction out w rule: push_word.induct)
  case (2 out c cs)
  have "c \<noteq> 32" using 2 by (auto simp: is_white_def)
  then have "clean (if c \<noteq> 95 \<or> out = [] \<or> last out \<noteq> 95 then out @ [c] else out)"
    using 2 by (auto simp: clean_pair_def intro!: clean_snoc)
  with 2 show ?case by simp
qed simp

lemma push_word_last:
  "w \<noteq> [] \<Longrightarrow> 32 \<notin> set w \<Longrightarrow> push_word out w \<noteq> [] \<and> last (push_word out w) \<noteq> 32"
proof (induction out w rule: push_word.induct)
  case (2 out c cs)
  then show ?case by (cases "cs = []") (auto split: if_splits)
qed simp

lemma white_space [simp]: "is_white 32" "clean_char 32"
  by (simp_all add: is_white_def clean_char_def scalar_def forbidden_def is_control_def)

lemma push_words_clean:
  "\<lbrakk>clean out; out = [] \<or> last out \<noteq> 32;
    \<forall>w \<in> set ws. w \<noteq> [] \<and> list_all (\<lambda>c. clean_char c \<and> \<not> is_white c) w\<rbrakk>
   \<Longrightarrow> clean (push_words out ws)"
proof (induction out ws rule: push_words.induct)
  case (2 out w ws)
  then have w: "w \<noteq> []" "list_all (\<lambda>c. clean_char c \<and> \<not> is_white c) w" by auto
  then have "32 \<notin> set w" by (auto simp: list_all_iff)
  then have l: "last (push_word (if out = [] then out else out @ [32]) w) \<noteq> 32"
    using push_word_last w(1) by blast
  have "clean (out @ [32])" if "out \<noteq> []"
    using "2.prems" that by (intro clean_snoc) (simp_all add: clean_pair_def)
  then have "clean (if out = [] then out else out @ [32])" using "2.prems"(1) by (cases "out = []") simp_all
  then have "clean (push_word (if out = [] then out else out @ [32]) w)"
    using w(2) by (rule push_word_clean)
  moreover have "\<forall>w \<in> set ws. w \<noteq> [] \<and> list_all (\<lambda>c. clean_char c \<and> \<not> is_white c) w"
    using "2.prems"(3) by simp
  ultimately show ?case unfolding push_words.simps using "2.IH" l by blast
qed simp

lemma clean_Nil [simp]: "clean []"
  by (simp add: clean_def)

lemma normalized_clean: "list_all scalar cs \<Longrightarrow> clean (normalized cs)"
proof -
  let ?A = "{c. scalar c \<and> \<not> forbidden c \<and> \<not> is_control c}"
  let ?t = "trim_set {46, 32} (trim_white (filter_chars cs))"
  assume "list_all scalar cs"
  from filter_chars_ok [OF this] have "set (filter_chars cs) \<subseteq> ?A" by (auto simp: list_all_iff)
  then have A: "set ?t \<subseteq> ?A" using set_trim_list by (metis order_trans)
  have "w \<noteq> [] \<and> list_all (\<lambda>c. clean_char c \<and> \<not> is_white c) w"
    if "w \<in> set (split_white [] ?t)" for w
    using split_white_words [OF _ A that] by (auto simp: list_all_iff clean_char_def)
  then show ?thesis unfolding normalized_def by (intro clean_trim push_words_clean) simp_all
qed

section \<open>Safety\<close>

lemma clean_scalar: "clean cs \<Longrightarrow> list_all scalar cs"
  by (auto simp: clean_def clean_char_def list_all_iff)

lemma clean_chars: "clean cs \<Longrightarrow> chars (encode_chars cs) = cs"
  by (simp add: clean_scalar chars_encode)

lemma length_encode_trim: "length (encode_chars (trim_list p cs)) \<le> length (encode_chars cs)"
proof -
  obtain as bs where "cs = as @ trim_list p cs @ bs" using trim_list_sublist by blast
  then have "encode_chars cs = encode_chars as @ encode_chars (trim_list p cs) @ encode_chars bs"
    by (metis encode_chars_append)
  then show ?thesis by simp
qed

lemma encode_chars_Nil_iff [simp]: "encode_chars cs = [] \<longleftrightarrow> cs = []"
  by (cases cs) auto

lemma boundary_take:
  assumes "list_all scalar cs"
  obtains ds es where "cs = ds @ es" "take (boundary_before (encode_chars cs) n) (encode_chars cs) = encode_chars ds"
  using boundary_prefix [OF assms, of "boundary_before (encode_chars cs) n"] boundary_before_ok by blast

definition unknown_name :: "nat list" where
  "unknown_name = [85, 110, 107, 110, 111, 119, 110]"

lemma unknown_clean: "clean unknown_name"
  by (simp add: clean_def unknown_name_def clean_char_def scalar_def forbidden_def is_control_def is_white_def clean_pair_def)

lemma unknown_encode: "encode_chars unknown_name = ''Unknown''"
  by code_simp

text \<open>What every sanitised name is.\<close>

definition safe_name :: "nat list \<Rightarrow> bool" where
  "safe_name ds \<longleftrightarrow> clean ds \<and> ds \<noteq> [] \<and> length (encode_chars ds) \<le> max_filename \<and>
     hd ds \<notin> {95, 32} \<and> last ds \<notin> {95, 32}"

lemma cut_name_ok:
  assumes "clean cs"
  shows "clean (cut_name (encode_chars cs))" "length (encode_chars (cut_name (encode_chars cs))) \<le> max_filename"
proof -
  obtain ds es where ds: "cs = ds @ es"
      "take (boundary_before (encode_chars cs) max_filename) (encode_chars cs) = encode_chars ds"
    using boundary_take [OF clean_scalar [OF assms]] by metis
  then have "clean ds" using assms clean_append by blast
  have cut: "cut_name (encode_chars cs) = trim_set {95, 32} (trim_white (trim_set {46, 32} ds))"
    using ds(2) clean_chars [OF \<open>clean ds\<close>] by (simp add: cut_name_def)
  show "clean (cut_name (encode_chars cs))" unfolding cut by (intro clean_trim \<open>clean ds\<close>)
  have "length (encode_chars ds) \<le> boundary_before (encode_chars cs) max_filename"
    unfolding ds(2) [symmetric] by simp
  then have "length (encode_chars ds) \<le> max_filename"
    using boundary_before_ok [of "encode_chars cs" max_filename] by simp
  then show "length (encode_chars (cut_name (encode_chars cs))) \<le> max_filename"
    unfolding cut by (intro order_trans [OF length_encode_trim])
qed

lemma cut_name_trim: "\<exists>xs. cut_name s = trim_set {95, 32} xs"
  unfolding cut_name_def by blast

lemma normalized_trim: "\<exists>xs. normalized cs = trim_set {95, 32} xs"
  unfolding normalized_def by blast

lemma sanitize_safe:
  assumes "list_all scalar cs"
  obtains ds where "sanitize_filename (encode_chars cs) = encode_chars ds" "safe_name ds"
proof -
  let ?n = "normalized cs"
  let ?m = "if max_filename < length (encode_chars ?n) then cut_name (encode_chars ?n) else ?n"
  have n: "clean ?n" by (rule normalized_clean [OF assms])
  have m: "clean ?m" "length (encode_chars ?m) \<le> max_filename"
    using n cut_name_ok [OF n] by simp_all
  obtain xs where xs: "?m = trim_set {95, 32} xs"
    using cut_name_trim normalized_trim by metis
  have ends: "hd ?m \<notin> {95, 32} \<and> last ?m \<notin> {95, 32}" if "?m \<noteq> []"
    using that trim_list_ends [of "\<lambda>c. c \<in> {95, 32}" xs] unfolding xs by blast
  have s: "sanitize_filename (encode_chars cs) = (if ?m = [] then ''Unknown'' else encode_chars ?m)"
    by (simp add: sanitize_filename_def chars_encode [OF assms] Let_def)
  show thesis
  proof (cases "?m = []")
    case True
    moreover have "safe_name unknown_name"
      using unknown_clean by (simp add: safe_name_def unknown_encode max_filename_def) (simp add: unknown_name_def)
    ultimately show thesis using that s unknown_encode by metis
  next
    case False
    then have "safe_name ?m" using m ends by (simp add: safe_name_def)
    then show thesis using that s False by metis
  qed
qed

section \<open>Names in normal form are kept\<close>

lemma push_word_id: "successively clean_pair (out @ w) \<Longrightarrow> push_word out w = out @ w"
proof (induction out w rule: push_word.induct)
  case (2 out c cs)
  then have "c \<noteq> 95 \<or> out = [] \<or> last out \<noteq> 95"
    by (auto simp: successively_append_iff clean_pair_def)
  then show ?case using 2 by simp
qed simp

definition sep :: "nat list \<Rightarrow> nat list" where
  "sep out = (if out = [] then out else out @ [32])"

lemma split_push_id:
  "\<lbrakk>successively clean_pair (sep out @ w @ cs); 32 \<notin> set w; w = [] \<Longrightarrow> cs \<noteq> [] \<and> hd cs \<noteq> 32;
    cs = [] \<or> last cs \<noteq> 32; \<forall>c \<in> set cs. is_white c \<longrightarrow> c = 32\<rbrakk>
   \<Longrightarrow> push_words out (split_white w cs) = sep out @ w @ cs"
proof (induction w cs arbitrary: out rule: split_white.induct)
  case (1 w)
  then have "w \<noteq> []" by blast
  then show ?case using 1 push_word_id [of "sep out" w] by (simp add: sep_def)
next
  case (2 w c cs)
  show ?case
  proof (cases "is_white c")
    case True
    then have c: "c = 32" using "2.prems"(5) by simp
    then have w: "w \<noteq> []" using "2.prems"(3) by auto
    have cs: "cs \<noteq> []" using "2.prems"(4) c by auto
    have s: "successively clean_pair ((sep out @ w) @ c # cs)" using "2.prems"(1) by simp
    have sub: "successively clean_pair (sep out @ w)" "successively clean_pair (c # cs)"
      using s by (simp_all only: successively_append_iff)
    have word: "push_word (sep out) w = sep out @ w" using sub(1) by (rule push_word_id)
    have d: "hd cs \<noteq> 32" using sub(2) cs c by (auto simp: neq_Nil_conv clean_pair_def)
    have so: "sep (sep out @ w) = sep out @ w @ [32]" using w by (simp add: sep_def)
    have "push_words (sep out @ w) (split_white [] cs) = sep (sep out @ w) @ [] @ cs"
    proof (rule "2.IH"(2))
      show "successively clean_pair (sep (sep out @ w) @ [] @ cs)" using s c so by simp
      show "cs = [] \<or> last cs \<noteq> 32" using "2.prems"(4) by auto
      show "\<forall>c \<in> set cs. is_white c \<longrightarrow> c = 32" using "2.prems"(5) by simp
    qed (use True w d cs in simp_all)
    then show ?thesis using True w c so word by (simp add: sep_def [of out, symmetric])
  next
    case False
    have "push_words out (split_white (w @ [c]) cs) = sep out @ (w @ [c]) @ cs"
    proof (rule "2.IH"(3))
      show "successively clean_pair (sep out @ (w @ [c]) @ cs)" using "2.prems"(1) by simp
      show "32 \<notin> set (w @ [c])" using "2.prems"(2) False by auto
      show "cs = [] \<or> last cs \<noteq> 32" using "2.prems"(4) by auto
      show "\<forall>c \<in> set cs. is_white c \<longrightarrow> c = 32" using "2.prems"(5) by simp
    qed (use False in simp_all)
    then show ?thesis using False by simp
  qed
qed

lemma filter_chars_id: "list_all clean_char cs \<Longrightarrow> filter_chars cs = cs"
  by (induction cs) (auto simp: clean_char_def)

lemma sanitize_keeps:
  assumes "safe_name ds" "hd ds \<noteq> 46" "last ds \<noteq> 46"
  shows "sanitize_filename (encode_chars ds) = encode_chars ds"
proof -
  have ds: "clean ds" "ds \<noteq> []" "hd ds \<notin> {95, 32}" "last ds \<notin> {95, 32}"
      "length (encode_chars ds) \<le> max_filename"
    using assms(1) by (simp_all add: safe_name_def)
  have cc: "list_all clean_char ds" using ds(1) by (simp add: clean_def)
  then have white: "\<forall>c \<in> set ds. is_white c \<longrightarrow> c = 32" by (auto simp: list_all_iff clean_char_def)
  have "\<not> is_white (hd ds)" "\<not> is_white (last ds)"
    using white ds by (metis hd_in_set insertI1 insert_commute, metis last_in_set insertI1 insert_commute)
  then have 1: "trim_white (filter_chars ds) = ds" using filter_chars_id [OF cc] trim_list_id by metis
  have 2: "trim_set {46, 32} ds = ds" "trim_set {95, 32} ds = ds"
    using ds assms by (simp_all add: trim_list_id)
  have "push_words [] (split_white [] ds) = sep [] @ [] @ ds"
    using ds white by (intro split_push_id) (auto simp: clean_def sep_def)
  then have "normalized ds = ds" using 1 2 by (simp add: normalized_def sep_def)
  then show ?thesis using ds by (simp add: sanitize_filename_def clean_chars [OF ds(1)] Let_def)
qed

section \<open>The marker survives\<close>

lemma decode_scalar: "char_len bs = Some n \<Longrightarrow> scalar (decode_char n bs)"
proof -
  assume n: "char_len bs = Some n"
  then consider b where "n = 1" "take n bs = [b]" "u8 b < 128"
    | a b where "n = 2" "take n bs = [a, b]" "0xC2 \<le> u8 a" "u8 a \<le> 0xDF" "cont_byte b"
    | a b c where "n = 3" "take n bs = [a, b, c]" "0xE0 \<le> u8 a" "u8 a \<le> 0xEF" "second_ok (u8 a) b" "cont_byte c"
    | a b c d where "n = 4" "take n bs = [a, b, c, d]" "0xF0 \<le> u8 a" "u8 a \<le> 0xF4" "second_ok (u8 a) b" "cont_byte c" "cont_byte d"
    by (cases bs rule: char_len.cases) (auto split: if_splits list.splits)
  then show ?thesis
    by cases (auto simp: decode_char_def scalar_def cont_byte_def second_ok_def split: if_splits)
qed

lemma chars_scalar: "list_all scalar (chars s)"
proof (induction s rule: chars.induct)
  case (1 bs)
  show ?case
  proof (cases "bs = []")
    case False
    then show ?thesis
    proof (cases "char_len bs")
      case None
      then have "chars bs = 0xFFFD # chars (tl bs)" using False by (simp add: chars.simps [of bs])
      then show ?thesis using 1(1) False None by (simp add: scalar_def)
    next
      case (Some n)
      then show ?thesis using 1(2) False by (simp add: chars_Some decode_scalar)
    qed
  qed simp
qed

lemma contains_append: "contains (a @ p @ b) p"
proof (induction a)
  case Nil
  have "starts_with (p @ b) p" by simp
  then show ?case by (cases "p @ b") (auto simp: contains_def starts_with_def)
next
  case (Cons x a)
  then show ?case by (simp add: contains_def)
qed

lemma truncate_clean:
  assumes "safe_name ds"
  obtains es where "truncate_utf8_bytes (encode_chars ds) n = encode_chars es" "clean es"
  using truncate_prefix [OF clean_scalar, of ds n] assms clean_append unfolding safe_name_def by metis

lemma list_trim: "list_all P xs \<Longrightarrow> list_all P (trim_list p xs)"
  using set_trim_list by (fastforce simp: list_all_iff)

lemma marker_chars: "encode_chars [32, 45, 32] = '' - ''"
  by code_simp

lemma marker_clean: "list_all clean_char [32, 45, 32]"
  by (simp add: clean_char_def scalar_def forbidden_def is_control_def is_white_def)

lemma trim_scalar: "\<exists>cs. trim s = encode_chars cs \<and> list_all scalar cs"
  unfolding trim_def using list_trim [OF chars_scalar] by blast

lemma token_name:
  assumes "list_all scalar cs"
  shows "\<exists>ds. sanitize_filename_preserving_token (encode_chars cs) token = encode_chars ds \<and>
      list_all clean_char ds \<and> ds \<noteq> [] \<and> length (encode_chars ds) \<le> max_filename \<and>
      (trim token \<noteq> [] \<and> contains (encode_chars cs) (trim token) \<longrightarrow>
         contains (encode_chars ds) (trim token) \<or> contains (encode_chars ds) (sanitize_filename (trim token)))"
    (is "\<exists>ds. ?r = _ \<and> ?ok ds")
proof -
  obtain ds where ds: "sanitize_filename (encode_chars cs) = encode_chars ds" "safe_name ds"
    using sanitize_safe [OF assms] .
  obtain ts where "trim token = encode_chars ts" "list_all scalar ts" using trim_scalar by blast
  then obtain ss where ss: "sanitize_filename (trim token) = encode_chars ss" "safe_name ss"
    using sanitize_safe by metis
  have clean_ok: "list_all clean_char xs" if "safe_name xs" for xs
    using that by (simp add: safe_name_def clean_def)
  let ?n = "max_filename - length ('' - '' @ encode_chars ss)"
  let ?raw = "encode_chars (trim_set {32, 95, 45} (chars (remove_all (trim token) (encode_chars cs))))"
  let ?name = "trim_white (trim_set {46, 32, 95, 45} (chars (truncate_utf8_bytes (sanitize_filename ?raw) ?n)))"
  have safe: "?ok ss"
    using ss clean_ok contains_append [of "[]" "encode_chars ss" "[]"] by (simp add: safe_name_def)
  define A where "A \<longleftrightarrow> trim token = [] \<or> \<not> contains (encode_chars cs) (trim token) \<or> contains (encode_chars ds) (trim token)"
  define B where "B \<longleftrightarrow> encode_chars ?name = [] \<or> encode_chars ?name = ''Unknown''"
  have r: "?r = (if A then encode_chars ds else if ?n = 0 then truncate_utf8_bytes (encode_chars ss) max_filename
      else if B then encode_chars ss else encode_chars ?name @ '' - '' @ encode_chars ss)"
    unfolding sanitize_filename_preserving_token_def Let_def ds(1) ss(1) A_def B_def by (rule refl)
  consider (kept) A "?r = encode_chars ds"
    | (long) "?n = 0" "?r = truncate_utf8_bytes (encode_chars ss) max_filename"
    | (marker) "?r = encode_chars ss"
    | (both) "?n \<noteq> 0" "?r = encode_chars ?name @ '' - '' @ encode_chars ss"
  proof (cases A)
    case False
    show thesis
    proof (cases "?n = 0")
      case True
      then have "?r = truncate_utf8_bytes (encode_chars ss) max_filename" using r False by simp
      with True show thesis by (rule that(2))
    next
      case False
      show thesis
      proof (cases B)
        case True
        then have "?r = encode_chars ss" using r \<open>\<not> A\<close> False by simp
        then show thesis by (rule that(3))
      next
        case nB: False
        have "?r = encode_chars ?name @ '' - '' @ encode_chars ss" using r \<open>\<not> A\<close> False nB by (simp only: if_False)
        with False show thesis by (rule that(4))
      qed
    qed
  qed (use that(1) r in simp)
  then show ?thesis
  proof cases
    case kept
    then show ?thesis using ds clean_ok [OF ds(2)] by (auto simp: safe_name_def A_def)
  next
    case long
    then have "?r = encode_chars ss" using ss(2) by (simp add: truncate_utf8_bytes_def safe_name_def)
    then show ?thesis using safe by blast
  next
    case marker
    then show ?thesis using safe by blast
  next
    case both
    obtain rs where rs: "sanitize_filename ?raw = encode_chars rs" "safe_name rs"
      using sanitize_safe [OF list_trim [OF chars_scalar]] .
    obtain es where es: "truncate_utf8_bytes (encode_chars rs) ?n = encode_chars es" "clean es"
      using truncate_clean [OF rs(2)] .
    have name: "?name = trim_white (trim_set {46, 32, 95, 45} es)"
      using rs(1) es clean_chars by simp
    have len: "length (encode_chars ?name) \<le> ?n"
    proof -
      have "length (encode_chars ?name) \<le> length (encode_chars es)"
        unfolding name by (intro order_trans [OF length_encode_trim]) simp
      also have "\<dots> \<le> ?n" using length_truncate [of "encode_chars rs" ?n] es(1) by simp
      finally show ?thesis .
    qed
    have cl: "list_all clean_char ?name"
      unfolding name using es(2) by (intro list_trim) (simp add: clean_def)
    let ?ds = "?name @ [32, 45, 32] @ ss"
    have r: "?r = encode_chars ?ds" using both(2) marker_chars by simp
    moreover have "list_all clean_char ?ds" using cl marker_clean clean_ok [OF ss(2)] by simp
    moreover have "length (encode_chars ?ds) \<le> max_filename"
    proof -
      have "length (encode_chars ?ds) = length (encode_chars ?name) + (3 + length (encode_chars ss))"
        unfolding encode_chars_append length_append marker_chars by simp
      moreover have "?n = max_filename - (3 + length (encode_chars ss))" by simp
      ultimately show ?thesis using len both(1) by linarith
    qed
    moreover have "contains (encode_chars ?ds) (encode_chars ss)"
      using contains_append [of "encode_chars (?name @ [32, 45, 32])" "encode_chars ss" "[]"] by simp
    ultimately show ?thesis using ss(1) by (intro exI [of _ ?ds]) simp
  qed
qed

section \<open>Properties\<close>

text \<open>
  C36. Whatever the input, a sanitised file name is a non-empty valid string of at most 200 bytes;
  it holds no path separator, reserved or control character, no white space but single spaces, no
  doubled underscore, and neither starts nor ends with a space or an underscore.  A name that is
  already of this form and neither starts nor ends with a dot is returned unchanged.
\<close>

theorem filename_is_safe:
  assumes "list_all scalar cs"
  shows "(\<exists>ds. sanitize_filename (encode_chars cs) = encode_chars ds \<and> safe_name ds) \<and>
      (safe_name cs \<and> hd cs \<noteq> 46 \<and> last cs \<noteq> 46 \<longrightarrow> sanitize_filename (encode_chars cs) = encode_chars cs)"
  using sanitize_safe [OF assms] sanitize_keeps by blast

definition sample_name :: "nat list" where
  "sample_name = [65, 47, 66, 58, 0xA0, 95, 95, 67, 0x97FF, 46]"

definition clean_sample :: "nat list" where
  "clean_sample = [65, 32, 66, 32, 95, 67, 0x97FF]"

lemma sanitize_eval:
  "list_all scalar cs \<Longrightarrow> normalized cs = ds \<Longrightarrow> ds \<noteq> [] \<Longrightarrow> length (encode_chars ds) \<le> max_filename \<Longrightarrow>
     sanitize_filename (encode_chars cs) = encode_chars ds"
  by (simp add: sanitize_filename_def chars_encode Let_def)

lemma sample_scalar: "list_all scalar sample_name"
  by (simp add: sample_name_def scalar_def)

lemma sample_normalized: "normalized sample_name = clean_sample"
  by (simp add: normalized_def trim_list_def is_white_def forbidden_def is_control_def sample_name_def clean_sample_def)

lemma clean_sample_safe: "safe_name clean_sample"
  by (simp add: safe_name_def clean_sample_def clean_def clean_char_def clean_pair_def scalar_def
      forbidden_def is_control_def is_white_def max_filename_def encode_char_def)

theorem filename_is_safe_witness:
  "(\<exists>ds. sanitize_filename (encode_chars sample_name) = encode_chars ds \<and> safe_name ds) \<and>
   sanitize_filename (encode_chars sample_name) = encode_chars clean_sample \<and>
   sanitize_filename (encode_chars clean_sample) = encode_chars clean_sample"
proof (intro conjI)
  show "\<exists>ds. sanitize_filename (encode_chars sample_name) = encode_chars ds \<and> safe_name ds"
    using filename_is_safe [OF sample_scalar] by blast
  show "sanitize_filename (encode_chars sample_name) = encode_chars clean_sample"
    using clean_sample_safe by (intro sanitize_eval sample_scalar sample_normalized) (simp_all add: safe_name_def)
  show "sanitize_filename (encode_chars clean_sample) = encode_chars clean_sample"
    using filename_is_safe [of clean_sample] clean_sample_safe
    by (simp add: safe_name_def clean_scalar) (simp add: clean_sample_def)
qed

text \<open>
  Sanitising with a marker keeps the marker: the result is a name of allowed characters of at
  most 200 bytes, and when the raw name contains the (trimmed, non-empty) marker, the result
  contains the marker or its sanitised form, however long the rest of the name is.
\<close>

theorem marker_is_kept:
  assumes "list_all scalar cs"
  shows "\<exists>ds. sanitize_filename_preserving_token (encode_chars cs) token = encode_chars ds \<and>
      list_all clean_char ds \<and> ds \<noteq> [] \<and> length (encode_chars ds) \<le> max_filename \<and>
      (trim token \<noteq> [] \<and> contains (encode_chars cs) (trim token) \<longrightarrow>
         contains (encode_chars ds) (trim token) \<or> contains (encode_chars ds) (sanitize_filename (trim token)))"
  by (rule token_name [OF assms])

theorem marker_is_kept_witness:
  "\<exists>ds. sanitize_filename_preserving_token (encode_chars (replicate 250 97 @ [91, 54, 47, 53, 93])) ''[6/5]'' = encode_chars ds \<and>
      list_all clean_char ds \<and> ds \<noteq> [] \<and> length (encode_chars ds) \<le> max_filename \<and>
      (trim ''[6/5]'' \<noteq> [] \<and> contains (encode_chars (replicate 250 97 @ [91, 54, 47, 53, 93])) (trim ''[6/5]'') \<longrightarrow>
         contains (encode_chars ds) (trim ''[6/5]'') \<or> contains (encode_chars ds) (sanitize_filename (trim ''[6/5]'')))"
  by (rule marker_is_kept) (simp add: scalar_def list_all_iff)

text \<open>The dots are trimmed before the underscores, so two dots can be what is left.\<close>

lemma dots_survive: "sanitize_filename ''_.._'' = ''..''"
proof -
  have e: "''_.._'' = encode_chars [95, 46, 46, 95]" "''..'' = encode_chars [46, 46]" by code_simp+
  have "normalized [95, 46, 46, 95] = [46, 46]"
    by (simp add: normalized_def trim_list_def is_white_def forbidden_def is_control_def)
  then show ?thesis unfolding e
    by (intro sanitize_eval) (simp_all add: scalar_def encode_char_def max_filename_def)
qed

end
