(* ===== verification/TransferPolicy.thy ===== *)
theory TransferPolicy
  imports Strings F64 BTree
begin

text \<open>
  The transfer policy an extension declares
  (rust\_backend/crates/extensions/src/transfer\_policy.rs) and the helpers all download loops
  share (rust\_backend/crates/extensions/src/download/mod.rs): header lookup, validators, the
  classification of HTTP failures, the wait a server asks for and the growing retry delay.
  A policy read from any manifest is within its limits, and every wait of a download loop is
  within the policy.
\<close>

section \<open>JSON values of a manifest\<close>

text \<open>\<^verbatim>\<open>serde_json::Value\<close>; a number is what \<^verbatim>\<open>as_f64\<close> gives for it.\<close>

datatype json = JNull | JBool bool | JNumber f64 | JString bytes | JArray "json list"
  | JObject "(bytes \<times> json) list"

type_synonym json_map = "(bytes \<times> json) list"

definition as_f64 :: "json \<Rightarrow> f64 option" where
  "as_f64 v = (case v of JNumber x \<Rightarrow> Some x | _ \<Rightarrow> None)"

definition as_object :: "json \<Rightarrow> json_map option" where
  "as_object v = (case v of JObject m \<Rightarrow> Some m | _ \<Rightarrow> None)"

definition as_str :: "json \<Rightarrow> bytes option" where
  "as_str v = (case v of JString s \<Rightarrow> Some s | _ \<Rightarrow> None)"

definition as_array :: "json \<Rightarrow> json list option" where
  "as_array v = (case v of JArray vs \<Rightarrow> Some vs | _ \<Rightarrow> None)"

definition is_boolean :: "json \<Rightarrow> bool" where
  "is_boolean v = (case v of JBool _ \<Rightarrow> True | _ \<Rightarrow> False)"

section \<open>The policy\<close>

record transfer_policy =
  max_attempts :: int
  initial_retry_delay_ms :: int
  max_retry_delay_ms :: int
  resume_policy :: bytes
  persistent_checkpoint :: bool
  refresh_stream_on_status :: "int list"
  max_parallel_segments :: int
  max_concurrent_downloads :: int

definition default_policy :: transfer_policy where
  "default_policy = \<lparr>max_attempts = 3, initial_retry_delay_ms = 500, max_retry_delay_ms = 8000,
     resume_policy = ''none'', persistent_checkpoint = False, refresh_stream_on_status = [401, 403],
     max_parallel_segments = 3, max_concurrent_downloads = 3\<rparr>"

text \<open>The compilation target: the width of \<^verbatim>\<open>isize\<close>, and whether it is x86.\<close>

record target =
  isize_bits :: nat
  is_x86 :: bool

definition isize_min :: "target \<Rightarrow> int" where "isize_min t = - (2 ^ (isize_bits t - 1))"
definition isize_max :: "target \<Rightarrow> int" where "isize_max t = 2 ^ (isize_bits t - 1) - 1"

definition f_less :: "f64 \<Rightarrow> f64 \<Rightarrow> bool" where
  "f_less x y \<longleftrightarrow> f_le x y \<and> x \<noteq> y"

definition rounded_int :: "target \<Rightarrow> f64 \<Rightarrow> int" where
  "rounded_int t x =
     (let r = f_round x
      in if is_x86 t \<and> (f_le (f_of_int (isize_max t)) r \<or> f_less r (f_of_int (isize_min t)))
         then isize_min t
         else f_to_int (isize_min t) (isize_max t) r)"

definition number :: "target \<Rightarrow> json option \<Rightarrow> int \<Rightarrow> int" where
  "number t v fallback =
     (case Option.bind v as_f64 of None \<Rightarrow> fallback | Some x \<Rightarrow> rounded_int t x)"

definition resume_of :: "case_tables \<Rightarrow> (nat list \<Rightarrow> nat \<Rightarrow> bool) \<Rightarrow> json_map \<Rightarrow> bytes \<Rightarrow> bytes" where
  "resume_of T sigma config fallback =
     (case Option.bind (map_of config ''resumePolicy'') as_str of
        None \<Rightarrow> fallback
      | Some resume \<Rightarrow>
          (let r = str_lower T sigma (trim resume)
           in if r = ''none'' \<or> r = ''validated'' then r else fallback))"

text \<open>A \<^verbatim>\<open>BTreeSet\<close> is its sorted list.\<close>

definition statuses_of :: "target \<Rightarrow> json_map \<Rightarrow> int list \<Rightarrow> int list" where
  "statuses_of t config fallback =
     (case Option.bind (map_of config ''refreshStreamOnStatus'') as_array of
        None \<Rightarrow> fallback
      | Some vs \<Rightarrow>
          (let ss = remdups (sort (filter (\<lambda>s. 400 \<le> s \<and> s \<le> 599) (map (\<lambda>v. number t (Some v) 0) vs)))
           in if ss = [] then fallback else ss))"

definition policy_of_config :: "target \<Rightarrow> case_tables \<Rightarrow> (nat list \<Rightarrow> nat \<Rightarrow> bool) \<Rightarrow> json_map \<Rightarrow> transfer_policy" where
  "policy_of_config t T sigma config =
     (let p = default_policy;
          initial = clamp_int 100 30000 (number t (map_of config ''initialRetryDelayMs'') (initial_retry_delay_ms p));
          resume = resume_of T sigma config (resume_policy p)
      in \<lparr>max_attempts = clamp_int 1 8 (number t (map_of config ''maxAttempts'') (max_attempts p)),
          initial_retry_delay_ms = initial,
          max_retry_delay_ms =
            clamp_int initial 120000 (number t (map_of config ''maxRetryDelayMs'') (max_retry_delay_ms p)),
          resume_policy = resume,
          persistent_checkpoint =
            (map_of config ''persistentCheckpoint'' = Some (JBool True) \<and> resume = ''validated''),
          refresh_stream_on_status = statuses_of t config (refresh_stream_on_status p),
          max_parallel_segments =
            clamp_int 1 8 (number t (map_of config ''maxParallelSegments'') (max_parallel_segments p)),
          max_concurrent_downloads =
            clamp_int 1 3 (number t (map_of config ''maxConcurrentDownloads'') (max_concurrent_downloads p))\<rparr>)"

definition from_capabilities :: "target \<Rightarrow> case_tables \<Rightarrow> (nat list \<Rightarrow> nat \<Rightarrow> bool) \<Rightarrow> json_map \<Rightarrow> transfer_policy" where
  "from_capabilities t T sigma capabilities =
     (case Option.bind (map_of capabilities ''downloadTransfer'') as_object of
        None \<Rightarrow> default_policy
      | Some config \<Rightarrow> policy_of_config t T sigma config)"

definition number_keys :: "bytes list" where
  "number_keys = [''maxAttempts'', ''initialRetryDelayMs'', ''maxRetryDelayMs'', ''maxParallelSegments'',
     ''maxConcurrentDownloads'']"

fun check_numbers :: "target \<Rightarrow> json_map \<Rightarrow> bytes list \<Rightarrow> unit res" where
  "check_numbers t config [] = Inr ()"
| "check_numbers t config (key # keys) =
     (case map_of config key of
        Some v \<Rightarrow>
          if number t (Some v) (- 1) < 0 then Inl (key @ '' must be a non-negative number'')
          else check_numbers t config keys
      | None \<Rightarrow> check_numbers t config keys)"

definition validate_policy :: "target \<Rightarrow> json_map \<Rightarrow> unit res" where
  "validate_policy t capabilities =
     (case map_of capabilities ''downloadTransfer'' of
        None \<Rightarrow> Inr ()
      | Some raw \<Rightarrow>
          (case as_object raw of
             None \<Rightarrow> Inl ''must be an object''
           | Some config \<Rightarrow>
               if (case map_of config ''resumePolicy'' of
                     None \<Rightarrow> False
                   | Some r \<Rightarrow> as_str r \<notin> {Some ''none'', Some ''validated''})
               then Inl (''resumePolicy must be '' @ CHR 0x27 # ''none'' @ CHR 0x27 # '' or '' @
                    CHR 0x27 # ''validated'' @ [CHR 0x27])
               else if (case map_of config ''persistentCheckpoint'' of
                     None \<Rightarrow> False
                   | Some c \<Rightarrow> \<not> is_boolean c)
               then Inl ''persistentCheckpoint must be a boolean''
               else check_numbers t config number_keys))"

section \<open>Failures and retries\<close>

text \<open>The payload of a failed transfer; \<^verbatim>\<open>success\<close> is constantly false.\<close>

record failure =
  f_error :: bytes
  f_type :: bytes
  f_attempts :: int
  f_http_status :: nat
  f_retry_after :: nat

definition failure_new :: "bytes \<Rightarrow> bytes \<Rightarrow> int \<Rightarrow> failure" where
  "failure_new kind error attempts =
     \<lparr>f_error = error, f_type = kind, f_attempts = attempts, f_http_status = 0, f_retry_after = 0\<rparr>"

record response =
  r_status :: nat
  r_headers :: "(bytes \<times> bytes list) list"

definition header :: "response \<Rightarrow> bytes \<Rightarrow> bytes" where
  "header r name =
     (case map_of (r_headers r) name of Some (v # _) \<Rightarrow> v | _ \<Rightarrow> [])"

definition set_header :: "(bytes \<times> bytes) list \<Rightarrow> bytes \<Rightarrow> bytes \<Rightarrow> (bytes \<times> bytes) list" where
  "set_header headers name value =
     (name, value) # filter (\<lambda>(key, _). \<not> eq_ignore_ascii_case key name) headers"

definition validator :: "case_tables \<Rightarrow> response \<Rightarrow> bytes" where
  "validator T r =
     (let etag = trim (header r ''Etag'')
      in if etag \<noteq> [] \<and> \<not> starts_with (str_upper T etag) ''W/'' then etag
      else trim (header r ''Last-Modified''))"

definition retryable :: "nat \<Rightarrow> bool" where
  "retryable status \<longleftrightarrow> status \<in> {408, 425, 429} \<or> 500 \<le> status"

text \<open>
  The wait asked for by \<^verbatim>\<open>Retry-After\<close>, in nanoseconds: seconds are multiplied with wrap-around;
  otherwise the \<^verbatim>\<open>httpdate\<close> crate reads a date (\<open>date\<close>, nanoseconds since the epoch).
\<close>

definition retry_after_nanos :: "target \<Rightarrow> (bytes \<Rightarrow> int option) \<Rightarrow> int \<Rightarrow> bytes \<Rightarrow> int" where
  "retry_after_nanos t date now value =
     (case parse_int (isize_min t) (isize_max t) value of
        Inr seconds \<Rightarrow> wrap_i64 (seconds * 1000000000)
      | Inl _ \<Rightarrow> (case date value of None \<Rightarrow> 0 | Some at_ns \<Rightarrow> at_ns - now))"

definition retry_after_seconds :: "int \<Rightarrow> nat" where
  "retry_after_seconds nanos =
     (if 0 < nanos then nat (max 1 ((min nanos 120000000000 + 500000000) div 1000000000)) else 0)"

text \<open>What the host supplies: its target, the case tables, the HTTP date parser and the clock.\<close>

record host =
  h_target :: target
  h_tables :: case_tables
  h_date :: "bytes \<Rightarrow> int option"
  h_now :: int

definition failure_kind :: "nat \<Rightarrow> transfer_policy \<Rightarrow> bytes" where
  "failure_kind status policy =
     (if status = 429 then ''rate_limited''
      else if int status \<in> set (refresh_stream_on_status policy) then ''expired_stream''
      else if retryable status then ''transient_network'' else ''http_error'')"

definition status_failure :: "host \<Rightarrow> response \<Rightarrow> transfer_policy \<Rightarrow> int \<Rightarrow> failure" where
  "status_failure h r policy attempt =
     (failure_new (failure_kind (r_status r) policy) (''HTTP error: '' @ show_nat (r_status r)) attempt)
       \<lparr>f_http_status := r_status r,
        f_retry_after := retry_after_seconds
          (retry_after_nanos (h_target h) (h_date h) (h_now h) (header r ''Retry-After''))\<rparr>"

text \<open>Durations are nanoseconds.\<close>

definition duration_max :: nat where
  "duration_max = (2 ^ 64 - 1) * 1000000000 + 999999999"

definition millis :: "int \<Rightarrow> nat" where
  "millis ms = nat (ms mod 2 ^ 64) * 1000000"

fun f_mul :: "f64 \<Rightarrow> f64 \<Rightarrow> f64" where
  "f_mul (Fin a) (Fin b) = fl (a * b)"
| "f_mul _ _ = NaN"

text \<open>The random part of the delay: \<open>r\<close> is the random word, \<open>room\<close> the room above the floor.\<close>

definition jitter :: "nat \<Rightarrow> nat \<Rightarrow> nat" where
  "jitter r room =
     nat (f_to_int 0 (2 ^ 64 - 1)
       (f_mul (f_div (f_of_int (int r)) (f_of_int (2 ^ 64 - 1))) (f_of_int (int room))))"

definition next_delay :: "nat option \<Rightarrow> nat \<Rightarrow> transfer_policy \<Rightarrow> nat" where
  "next_delay random current policy =
     (let highest = min (min (current * 2) duration_max) (millis (max_retry_delay_ms policy));
          lowest = millis (initial_retry_delay_ms policy)
      in if highest \<le> lowest then highest
      else case random of
        None \<Rightarrow> highest
      | Some r \<Rightarrow> lowest + jitter r (highest - lowest))"

definition retry_delay :: "failure \<Rightarrow> nat \<Rightarrow> nat" where
  "retry_delay f fallback = (if 0 < f_retry_after f then f_retry_after f * 1000000000 else fallback)"

section \<open>A policy is within its limits\<close>

definition policy_ok :: "transfer_policy \<Rightarrow> bool" where
  "policy_ok p \<longleftrightarrow>
     1 \<le> max_attempts p \<and> max_attempts p \<le> 8 \<and>
     100 \<le> initial_retry_delay_ms p \<and> initial_retry_delay_ms p \<le> 30000 \<and>
     initial_retry_delay_ms p \<le> max_retry_delay_ms p \<and> max_retry_delay_ms p \<le> 120000 \<and>
     resume_policy p \<in> {''none'', ''validated''} \<and>
     (persistent_checkpoint p \<longrightarrow> resume_policy p = ''validated'') \<and>
     refresh_stream_on_status p \<noteq> [] \<and> sorted_wrt (<) (refresh_stream_on_status p) \<and>
     set (refresh_stream_on_status p) \<subseteq> {400..599} \<and>
     1 \<le> max_parallel_segments p \<and> max_parallel_segments p \<le> 8 \<and>
     1 \<le> max_concurrent_downloads p \<and> max_concurrent_downloads p \<le> 3"

lemma clamp_bounds: "lo \<le> hi \<Longrightarrow> lo \<le> clamp_int lo hi i \<and> clamp_int lo hi i \<le> hi"
  by (simp add: clamp_int_def)

lemma default_policy_ok: "policy_ok default_policy"
  by (simp add: policy_ok_def default_policy_def)

lemma resume_of_ok: "resume_of T sigma config ''none'' \<in> {''none'', ''validated''}"
  by (auto simp: resume_of_def Let_def split: option.splits)

lemma statuses_of_ok:
  assumes "d \<noteq> []" "sorted_wrt (<) d" "set d \<subseteq> {400..599}"
  shows "statuses_of t config d \<noteq> [] \<and> sorted_wrt (<) (statuses_of t config d) \<and>
      set (statuses_of t config d) \<subseteq> {400..599}"
proof -
  have "sorted_wrt (<) (remdups (sort xs))" for xs :: "int list"
    using strict_sorted_iff by (metis distinct_remdups sorted_remdups sorted_sort)
  then show ?thesis using assms
    by (auto simp: statuses_of_def Let_def split: option.splits)
qed

lemma from_capabilities_ok: "policy_ok (from_capabilities t T sigma capabilities)"
proof (cases "Option.bind (map_of capabilities ''downloadTransfer'') as_object")
  case None
  then show ?thesis by (simp add: from_capabilities_def default_policy_ok)
next
  case (Some config)
  have "statuses_of t config [401, 403] \<noteq> [] \<and> sorted_wrt (<) (statuses_of t config [401, 403]) \<and>
      set (statuses_of t config [401, 403]) \<subseteq> {400..599}"
    by (rule statuses_of_ok) auto
  moreover have "resume_of T sigma config ''none'' \<in> {''none'', ''validated''}" by (rule resume_of_ok)
  ultimately have "policy_ok (policy_of_config t T sigma config)"
    unfolding policy_ok_def policy_of_config_def default_policy_def Let_def
    by (simp add: clamp_int_def)
  then show ?thesis using Some by (simp add: from_capabilities_def)
qed

section \<open>Delays stay within the policy\<close>

lemma floorlog_bounds2: "0 < n \<Longrightarrow> 2 ^ (floorlog 2 n - 1) \<le> n \<and> n < 2 ^ floorlog 2 n"
  using floorlog_bounds [of n 2] by simp

lemma floorlog_pos: "0 < n \<Longrightarrow> 0 < floorlog 2 n"
  by (simp add: floorlog_def)

lemma floor_log2_bounds:
  assumes "0 < x"
  shows "pow2 (floor_log2 x) \<le> x \<and> x < pow2 (floor_log2 x + 1)"
proof -
  obtain p q where pq: "quotient_of x = (p, q)" by (cases "quotient_of x")
  then have q: "0 < q" and x: "x = of_int p / of_int q"
    using quotient_of_denom_pos quotient_of_div by blast+
  then have p: "0 < p" using assms by (simp add: zero_less_divide_iff)
  let ?a = "floorlog 2 (nat p)" and ?b = "floorlog 2 (nat q)"
  have pos: "0 < ?a" "0 < ?b" using p q by (simp_all add: floorlog_pos)
  have real: "(of_nat (2 ^ k) :: rat) = pow2 (int k)" for k by simp
  have P: "pow2 (int ?a - 1) \<le> of_int p" "of_int p < pow2 (int ?a)"
    and Q: "pow2 (int ?b - 1) \<le> of_int q" "of_int q < pow2 (int ?b)"
  proof -
    have *: "pow2 (int (floorlog 2 (nat n)) - 1) \<le> of_int n \<and> (of_int n :: rat) < pow2 (int (floorlog 2 (nat n)))"
      if n: "0 < n" for n :: int
    proof -
      have b: "2 ^ (floorlog 2 (nat n) - 1) \<le> nat n \<and> nat n < 2 ^ floorlog 2 (nat n)"
        using n by (intro floorlog_bounds2) simp
      have e: "int (floorlog 2 (nat n)) - 1 = int (floorlog 2 (nat n) - 1)"
        using floorlog_pos [of "nat n"] n by simp
      have o: "(of_int n :: rat) = of_nat (nat n)" using n by simp
      show ?thesis unfolding e o real [symmetric] using b by (simp only: of_nat_le_iff of_nat_less_iff)
    qed
    show "pow2 (int ?a - 1) \<le> of_int p" "of_int p < pow2 (int ?a)"
      "pow2 (int ?b - 1) \<le> of_int q" "of_int q < pow2 (int ?b)"
      using * p q by blast+
  qed
  let ?e = "int ?a - int ?b"
  have up: "x < pow2 (?e + 1)"
  proof -
    have "x < pow2 (int ?a) / pow2 (int ?b - 1)"
      unfolding x using P(2) Q(1) p by (intro frac_less) simp_all
    also have "\<dots> = pow2 (int ?a - (int ?b - 1))" by (rule power_int_diff [symmetric]) simp
    also have "int ?a - (int ?b - 1) = ?e + 1" by simp
    finally show ?thesis .
  qed
  have low: "pow2 (?e - 1) \<le> x"
  proof -
    have e: "?e - 1 = int ?a - 1 - int ?b" by simp
    have "pow2 (?e - 1) = pow2 (int ?a - 1) / pow2 (int ?b)"
      unfolding e by (rule power_int_diff) simp
    also have "\<dots> \<le> x" unfolding x using P(1) Q(2) p q by (intro frac_le) simp_all
    finally show ?thesis .
  qed
  show ?thesis
  proof (cases "pow2 ?e \<le> x")
    case True
    then show ?thesis using up by (simp add: floor_log2_def pq)
  next
    case False
    then show ?thesis using low by (simp add: floor_log2_def pq)
  qed
qed

lemma floor_log2_less: "0 < x \<Longrightarrow> x < pow2 k \<Longrightarrow> floor_log2 x < k"
  using floor_log2_bounds [of x] by (metis le_less_trans linorder_not_le one_le_numeral power_int_increasing leD)

lemma floor_log2_ge: "0 < x \<Longrightarrow> pow2 k \<le> x \<Longrightarrow> k \<le> floor_log2 x"
proof (rule ccontr)
  assume x: "0 < x" "pow2 k \<le> x" and "\<not> k \<le> floor_log2 x"
  then have "pow2 (floor_log2 x + 1) \<le> pow2 k" by (intro power_int_increasing) simp_all
  then show False using floor_log2_bounds [OF x(1)] x(2) by linarith
qed

lemma round_even_le: "z \<le> of_int k \<Longrightarrow> round_even z \<le> k"
  by (auto simp: round_even_def Let_def) linarith+

lemma round_even_nonneg: "0 \<le> z \<Longrightarrow> 0 \<le> round_even z"
  by (auto simp: round_even_def Let_def)

lemma fl_bounds:
  assumes "0 \<le> x" "x \<le> of_int k * pow2 q" "0 < x \<Longrightarrow> floor_log2 x - 52 \<le> q" "- 1074 \<le> q" "of_int k * pow2 q < pow2 1024"
  obtains y where "fl x = Fin y" "0 \<le> y" "y \<le> of_int k * pow2 q"
proof (cases "x = 0")
  case True
  then show thesis using that [of 0] assms(2) by (simp add: fl_def)
next
  case False
  let ?q = "max (floor_log2 \<bar>x\<bar> - 52) (- 1074)"
  let ?j = "of_int (round_even (x / pow2 ?q)) * pow2 ?q :: rat"
  have "0 < x" using False assms(1) by simp
  then have q: "?q \<le> q" using assms(3,4) by simp
  obtain d where d: "q = ?q + int d" using q zle_iff_zadd by blast
  have B: "of_int k * pow2 q = of_int (k * 2 ^ d) * pow2 ?q"
    unfolding d by (simp add: power_int_add)
  have "x / pow2 ?q \<le> of_int (k * 2 ^ d)"
    using assms(2) unfolding B by (simp only: pos_divide_le_eq zero_less_power_int zero_less_numeral)
  then have "round_even (x / pow2 ?q) \<le> k * 2 ^ d" by (rule round_even_le)
  then have "?j \<le> of_int (k * 2 ^ d) * pow2 ?q"
    by (intro mult_right_mono) (simp_all only: of_int_le_iff zero_le_power_int zero_le_numeral)
  then have hi: "?j \<le> of_int k * pow2 q" by (simp only: B)
  have "0 \<le> round_even (x / pow2 ?q)" using assms(1) by (intro round_even_nonneg) simp
  then have lo: "0 \<le> ?j" by simp
  have "fl x = Fin ?j" using False hi lo assms(5) by (simp add: fl_def Let_def)
  then show thesis using that lo hi by blast
qed

lemma fl_le_int:
  assumes "0 \<le> x" "x \<le> of_int k" "k < 2 ^ 53"
  obtains y where "fl x = Fin y" "0 \<le> y" "y \<le> of_int k"
proof (rule fl_bounds [of x k 0])
  show "floor_log2 x - 52 \<le> 0" if "0 < x"
  proof -
    have "(of_int k :: rat) < of_int (2 ^ 53)" using assms(3) by (simp only: of_int_less_iff)
    then have "x < pow2 53" using assms(2) by (simp add: power_int_def)
    then show ?thesis using floor_log2_less [OF that] by fastforce
  qed
  have "(of_int k :: rat) < of_int (2 ^ 53)" using assms(3) by (simp only: of_int_less_iff)
  also have "(of_int (2 ^ 53) :: rat) \<le> pow2 1024" by (simp add: power_int_def)
  finally show "of_int k * pow2 0 < pow2 1024" by simp
qed (use assms that in simp_all)

lemma fl_le_int_ex: "0 \<le> x \<Longrightarrow> x \<le> of_int k \<Longrightarrow> k < 2 ^ 53 \<Longrightarrow> \<exists>y. fl x = Fin y \<and> 0 \<le> y \<and> y \<le> of_int k"
  using fl_le_int [of x k] by blast

lemma fl_word_max: "f_of_int (2 ^ 64 - 1) = Fin (2 ^ 64)"
proof -
  let ?x = "of_int (2 ^ 64 - 1) :: rat"
  have "floor_log2 ?x < 64" by (rule floor_log2_less) (simp_all add: power_int_def)
  moreover have "63 \<le> floor_log2 ?x" by (rule floor_log2_ge) (simp_all add: power_int_def)
  ultimately have f: "floor_log2 ?x = 63" by simp
  have "\<lfloor>18446744073709551615 / 2048 :: rat\<rfloor> = 9007199254740991" by (rule floor_unique) simp_all
  then have "round_even (?x / 2 ^ 11) = 2 ^ 53" by (simp add: round_even_def Let_def)
  then show ?thesis using f by (simp add: f_of_int_def fl_def Let_def power_int_def)
qed

lemma fl_word: "r < 2 ^ 64 \<Longrightarrow> \<exists>y. f_of_int (int r) = Fin y \<and> 0 \<le> y \<and> y \<le> 2 ^ 64"
proof -
  assume r: "r < 2 ^ 64"
  then have "(of_nat r :: rat) < of_nat (2 ^ 64)" by (simp only: of_nat_less_iff)
  then have R: "(of_nat r :: rat) < 2 ^ 64" by simp
  obtain y where "fl (of_int (int r)) = Fin y" "0 \<le> y" "y \<le> of_int 1 * pow2 64"
  proof (rule fl_bounds [of "of_int (int r)" 1 64])
    show "floor_log2 (of_int (int r)) - 52 \<le> 64" if "0 < (of_int (int r) :: rat)"
    proof -
      have "floor_log2 (of_int (int r)) < 64"
        using that R by (intro floor_log2_less) (simp_all add: power_int_def)
      then show ?thesis by simp
    qed
  qed (use R in \<open>simp_all add: power_int_def\<close>)
  then show ?thesis by (simp add: f_of_int_def power_int_def)
qed

lemma jitter_le:
  assumes "r < 2 ^ 64" "room < 2 ^ 53"
  shows "jitter r room \<le> room"
proof -
  have k: "int room < 2 ^ 53" using assms(2) by (metis of_nat_less_iff of_nat_numeral of_nat_power)
  obtain y where y: "f_of_int (int r) = Fin y" "0 \<le> y" "y \<le> 2 ^ 64" using fl_word [OF assms(1)] by blast
  have "0 \<le> y / 2 ^ 64" "y / 2 ^ 64 \<le> of_int 1" using y by simp_all
  from fl_le_int_ex [OF this] obtain z where z: "fl (y / 2 ^ 64) = Fin z" "0 \<le> z" "z \<le> 1" by auto
  obtain m where m: "f_of_int (int room) = Fin m" "0 \<le> m" "m \<le> of_int (int room)"
    unfolding f_of_int_def using fl_le_int_ex [of "of_int (int room)" "int room"] k by auto
  have "z * m \<le> 1 * of_int (int room)" using z m by (intro mult_mono) simp_all
  then have "0 \<le> z * m" "z * m \<le> of_int (int room)" using z m by simp_all
  from fl_le_int_ex [OF this k] obtain w
    where w: "fl (z * m) = Fin w" "0 \<le> w" "w \<le> of_int (int room)" by blast
  have wm: "f_of_int 18446744073709551615 = Fin 18446744073709551616" using fl_word_max by simp
  have "\<lfloor>w\<rfloor> \<le> int room" using w(3) by (simp add: floor_le_iff)
  moreover have "jitter r room = nat (clamp_int 0 (2 ^ 64 - 1) \<lfloor>w\<rfloor>)"
    using y z m w by (simp add: jitter_def wm trunc_rat_def)
  ultimately show ?thesis by (simp add: clamp_int_def)
qed

lemma millis_mono: "0 \<le> a \<Longrightarrow> a \<le> b \<Longrightarrow> b < 2 ^ 64 \<Longrightarrow> millis a \<le> millis b"
  by (simp add: millis_def)

lemma next_delay_bounds:
  assumes "policy_ok p" "millis (initial_retry_delay_ms p) \<le> current"
    and "\<And>r. random = Some r \<Longrightarrow> r < 2 ^ 64"
  shows "millis (initial_retry_delay_ms p) \<le> next_delay random current p \<and>
      next_delay random current p \<le> millis (max_retry_delay_ms p)"
proof -
  let ?lo = "millis (initial_retry_delay_ms p)" and ?hi = "millis (max_retry_delay_ms p)"
  let ?top = "min (min (current * 2) duration_max) ?hi"
  have b: "100 \<le> initial_retry_delay_ms p" "initial_retry_delay_ms p \<le> max_retry_delay_ms p" "max_retry_delay_ms p \<le> 120000"
    using assms(1) by (simp_all add: policy_ok_def)
  then have m: "?lo \<le> ?hi" "?hi \<le> 120000000000" by (auto simp: millis_def)
  then have "?hi < duration_max" by (simp add: duration_max_def)
  then have top: "?lo \<le> ?top" "?top \<le> ?hi" using m assms(2) by auto
  have "?top - ?lo < 2 ^ 53" using top m by simp
  then have j: "jitter r (?top - ?lo) \<le> ?top - ?lo" if "random = Some r" for r
    using jitter_le assms(3) that by blast
  consider "?top \<le> ?lo" "next_delay random current p = ?top"
    | "next_delay random current p = ?top"
    | r where "random = Some r" "next_delay random current p = ?lo + jitter r (?top - ?lo)"
    unfolding next_delay_def Let_def by (cases "?top \<le> ?lo"; cases random) auto
  then show ?thesis
  proof cases
    case (3 r)
    then show ?thesis using j [OF 3(1)] top by linarith
  qed (use top in linarith)+
qed

lemma retry_after_bounds: "retry_after_seconds n \<le> 120"
  by (auto simp: retry_after_seconds_def)

text \<open>The delays a download loop goes through; each entry is one random word or a failed read.\<close>

definition delay_after :: "transfer_policy \<Rightarrow> nat option list \<Rightarrow> nat" where
  "delay_after p randoms =
     foldl (\<lambda>d r. next_delay r d p) (millis (initial_retry_delay_ms p)) randoms"

lemma delay_after_bounds:
  assumes "policy_ok p" "\<forall>r. Some r \<in> set rs \<longrightarrow> r < 2 ^ 64"
  shows "millis (initial_retry_delay_ms p) \<le> delay_after p rs \<and> delay_after p rs \<le> millis (max_retry_delay_ms p)"
  using assms(2)
proof (induction rs rule: rev_induct)
  case Nil
  have "0 \<le> initial_retry_delay_ms p" "initial_retry_delay_ms p \<le> max_retry_delay_ms p" "max_retry_delay_ms p < 2 ^ 64"
    using assms(1) by (simp_all add: policy_ok_def)
  then show ?case by (simp add: delay_after_def millis_mono)
next
  case (snoc r rs)
  then have "millis (initial_retry_delay_ms p) \<le> delay_after p rs" by simp
  moreover have "delay_after p (rs @ [r]) = next_delay r (delay_after p rs) p" by (simp add: delay_after_def)
  ultimately show ?case using next_delay_bounds [OF assms(1)] snoc.prems by simp
qed

lemma millis_limit: "policy_ok p \<Longrightarrow> 100000000 \<le> millis (initial_retry_delay_ms p) \<and> millis (max_retry_delay_ms p) \<le> 120000000000"
  by (auto simp: policy_ok_def millis_def)

lemma retry_delay_bound: "d \<le> 120000000000 \<Longrightarrow> retry_delay (status_failure h r p attempt) d \<le> 120000000000"
  using retry_after_bounds [of "retry_after_nanos (h_target h) (h_date h) (h_now h) (header r ''Retry-After'')"]
  by (simp add: retry_delay_def status_failure_def)

text \<open>
  C35. Whatever a manifest declares, the policy read from it is within its limits: between one and
  eight attempts and parallel segments, one to three downloads, delays from 100 ms with the initial
  one at most the largest, a known resume policy (and a persistent checkpoint only with validated
  resume) and a non-empty sorted set of refresh statuses between 400 and 599.
\<close>

theorem policy_within_limits:
  "policy_ok (from_capabilities t T sigma capabilities)"
  by (rule from_capabilities_ok)

text \<open>
  However often a download is retried and whatever random numbers are drawn, the growing delay
  stays between the policy's initial and largest delay, and no wait, not even one the server asks
  for, is longer than two minutes.
\<close>

theorem waits_within_policy:
  assumes "p = from_capabilities t T sigma capabilities" "\<forall>r. Some r \<in> set rs \<longrightarrow> r < 2 ^ 64"
  shows "millis (initial_retry_delay_ms p) \<le> delay_after p rs \<and> delay_after p rs \<le> millis (max_retry_delay_ms p) \<and>
      100000000 \<le> delay_after p rs \<and>
      retry_delay (status_failure h r p attempt) (delay_after p rs) \<le> 120000000000"
proof -
  have p: "policy_ok p" unfolding assms(1) by (rule from_capabilities_ok)
  show ?thesis
    using delay_after_bounds [OF p assms(2)] millis_limit [OF p]
      retry_delay_bound [of "delay_after p rs" h r p attempt] by linarith
qed

definition sample_host :: host where
  "sample_host = \<lparr>h_target = \<lparr>isize_bits = 64, is_x86 = False\<rparr>, h_tables = \<lparr>to_lower = (\<lambda>c. [c]), to_upper = (\<lambda>c. [c])\<rparr>,
     h_date = (\<lambda>_. None), h_now = 0\<rparr>"

definition sample_capabilities :: json_map where
  "sample_capabilities = [(''downloadTransfer'', JObject [(''maxAttempts'', JNumber (Fin 99)),
     (''initialRetryDelayMs'', JNumber (Fin 250)), (''maxRetryDelayMs'', JNumber (Fin 1000))])]"

definition sample_policy :: transfer_policy where
  "sample_policy = from_capabilities (h_target sample_host) (h_tables sample_host) (\<lambda>_ _. False) sample_capabilities"

lemma number_small:
  "\<bar>i\<bar> < 2 ^ 31 \<Longrightarrow> number (h_target sample_host) (Some (JNumber (Fin (of_int i)))) d = i"
proof -
  assume i: "\<bar>i\<bar> < 2 ^ 31"
  have "\<lfloor>1 / 2 :: rat\<rfloor> = 0" by (rule floor_unique) simp_all
  then have "round_away (of_int i) = i" by (simp add: round_away_def)
  then show ?thesis using i
    by (simp add: number_def as_f64_def rounded_int_def sample_host_def Let_def trunc_rat_def
        clamp_int_def isize_min_def isize_max_def)
qed

lemma sample_numbers:
  "number (h_target sample_host) (Some (JNumber (Fin 99))) d = 99"
  "number (h_target sample_host) (Some (JNumber (Fin 250))) d = 250"
  "number (h_target sample_host) (Some (JNumber (Fin 1000))) d = 1000"
  using number_small [of 99] number_small [of 250] number_small [of 1000] by simp_all

lemma number_None: "number t None d = d"
  by (simp add: number_def)

definition sample_config :: json_map where
  "sample_config = [(''maxAttempts'', JNumber (Fin 99)), (''initialRetryDelayMs'', JNumber (Fin 250)),
     (''maxRetryDelayMs'', JNumber (Fin 1000))]"

lemma sample_keys:
  "map_of sample_config ''maxAttempts'' = Some (JNumber (Fin 99))"
  "map_of sample_config ''initialRetryDelayMs'' = Some (JNumber (Fin 250))"
  "map_of sample_config ''maxRetryDelayMs'' = Some (JNumber (Fin 1000))"
  by (simp_all add: sample_config_def)

lemma sample_object: "Option.bind (map_of sample_capabilities ''downloadTransfer'') as_object = Some sample_config"
  by (simp add: sample_capabilities_def sample_config_def as_object_def)

lemma sample_policy_fields:
  "max_attempts sample_policy = 8" "initial_retry_delay_ms sample_policy = 250" "max_retry_delay_ms sample_policy = 1000"
  unfolding sample_policy_def from_capabilities_def sample_object option.case policy_of_config_def Let_def
    transfer_policy.select_convs sample_keys sample_numbers
  by (simp_all add: clamp_int_def)

lemma sample_policy_values:
  "max_attempts sample_policy = 8" "delay_after sample_policy [None, None] = 1000000000"
  by (simp_all add: sample_policy_fields delay_after_def next_delay_def millis_def duration_max_def)

theorem waits_within_policy_witness:
  "max_attempts sample_policy = 8 \<and> delay_after sample_policy [None, None] = 1000000000 \<and>
   retry_delay (status_failure sample_host \<lparr>r_status = 503, r_headers = []\<rparr> sample_policy 1) (delay_after sample_policy [None, None])
     \<le> 120000000000"
  using waits_within_policy [OF sample_policy_def, of "[None, None]" sample_host "\<lparr>r_status = 503, r_headers = []\<rparr>" 1]
    sample_policy_values by simp

end
