(* ===== verification/SegmentFetch.thy ===== *)
theory SegmentFetch
  imports TransferPolicy
begin

text \<open>
  One segment of a segmented download, and the file the segments are assembled in
  (rust\_backend/crates/extensions/src/download/segments.rs, function \<^verbatim>\<open>fetch\<close>, and
  segment\_store.rs).  What the network, the file system and the cancellation check answer is an
  argument: one record per attempt, one list of events per copied segment.  A fetched segment is
  non-empty and has the announced length; the assembled file is a whole number of segments at
  every moment a crash could leave it, and reopening it continues from there.
\<close>

section \<open>Fetching one segment\<close>

text \<open>
  What reading the body returns: a chunk that was written to the segment file, an error of the
  network, or an error of that write.  The end of the list is the end of the body, as is an empty
  chunk.
\<close>

datatype read_event = Data bytes | ReadFails bytes | WriteFails bytes

record attempt_env =
  at_check :: "unit res"
  at_file :: "unit res"
  at_stream :: "response res"
  at_body :: "read_event list"
  at_failed_check :: "unit res"
  at_wait :: "unit res"
  at_random :: "nat option"

record completed =
  c_data :: bytes
  c_size :: nat
  c_attempts :: int

datatype attempt_outcome = Got completed | Stop failure | Failed failure

fun read_body :: "read_event list \<Rightarrow> bytes \<Rightarrow> bytes \<times> unit res" where
  "read_body [] got = (got, Inr ())"
| "read_body (Data bs # es) got = (if bs = [] then (got, Inr ()) else read_body es (got @ bs))"
| "read_body (ReadFails e # es) got = (got, Inl e)"
| "read_body (WriteFails e # es) got = (got, Inl e)"

definition content_length :: "response \<Rightarrow> int" where
  "content_length r = unwrap_or (parse_i64 (header r ''Content-Length'')) (- 1)"

definition check_length :: "int \<Rightarrow> nat \<Rightarrow> unit res \<Rightarrow> unit res" where
  "check_length expected size0 result =
     bind_res result (\<lambda>_. if 0 < expected \<and> int size0 \<noteq> expected then Inl ''unexpected EOF'' else Inr ())"

definition try_stream :: "host \<Rightarrow> transfer_policy \<Rightarrow> nat \<Rightarrow> int \<Rightarrow> attempt_env \<Rightarrow> attempt_outcome" where
  "try_stream h p index attempt env =
     (case at_stream env of
        Inl e \<Rightarrow> Failed (failure_new ''transient_network'' e attempt)
      | Inr r \<Rightarrow>
          if \<not> (200 \<le> r_status r \<and> r_status r < 300) then
            (let f = (status_failure h r p attempt)\<lparr>f_error :=
                 ''segment '' @ show_nat index @ '' HTTP error: '' @ show_nat (r_status r)\<rparr>
             in if \<not> retryable (r_status r) \<or> attempt = max_attempts p then Stop f else Failed f)
          else
            (let (data, read) = read_body (at_body env) [];
                 result = check_length (content_length r) (length data) read
             in case result of
                  Inr _ \<Rightarrow>
                    if data \<noteq> [] then Got \<lparr>c_data = data, c_size = length data, c_attempts = attempt\<rparr>
                    else Failed (failure_new ''transient_network''
                      (''segment '' @ show_nat index @ '' response was empty'') attempt)
                | Inl e \<Rightarrow> Failed (failure_new ''transient_network''
                    (''failed to read segment '' @ show_nat index @ '': '' @ e) attempt)))"

text \<open>
  The attempts from \<open>attempt\<close> on; the second component lists the waits between them.  The first
  one is \<open>None\<close> where the code would reach \<^verbatim>\<open>unreachable!\<close>.
\<close>

fun fetch_from :: "host \<Rightarrow> transfer_policy \<Rightarrow> nat \<Rightarrow> (int \<Rightarrow> attempt_env) \<Rightarrow> nat \<Rightarrow> int \<Rightarrow> nat \<Rightarrow>
    (failure + completed) option \<times> nat list" where
  "fetch_from h p index env 0 attempt delay = (None, [])"
| "fetch_from h p index env (Suc left) attempt delay =
     (let e = env attempt;
          cancelled = (\<lambda>err. Inl (failure_new ''cancelled'' err attempt))
      in case at_check e of
           Inl err \<Rightarrow> (Some (cancelled err), [])
         | Inr _ \<Rightarrow>
        (case at_file e of
           Inl err \<Rightarrow> (Some (Inl (failure_new ''storage_error''
             (''failed to create segment file: '' @ err) attempt)), [])
         | Inr _ \<Rightarrow>
        (case try_stream h p index attempt e of
           Got c \<Rightarrow> (Some (Inr c), [])
         | Stop f \<Rightarrow> (Some (Inl f), [])
         | Failed f0 \<Rightarrow>
             (let f = (case at_failed_check e of
                 Inl err \<Rightarrow> failure_new ''cancelled'' err attempt | Inr _ \<Rightarrow> f0)
              in if attempt = max_attempts p \<or> f_type f = ''cancelled'' then (Some (Inl f), [])
              else
                (let wait = retry_delay f delay
                 in case at_wait e of
                      Inl err \<Rightarrow> (Some (cancelled err), [wait])
                    | Inr _ \<Rightarrow>
                        (let (r, waits) = fetch_from h p index env left (attempt + 1)
                               (next_delay (at_random e) delay p)
                         in (r, wait # waits)))))))"

definition fetch :: "host \<Rightarrow> transfer_policy \<Rightarrow> nat \<Rightarrow> (int \<Rightarrow> attempt_env) \<Rightarrow>
    (failure + completed) option \<times> nat list" where
  "fetch h p index env =
     fetch_from h p index env (nat (max_attempts p)) 1 (millis (initial_retry_delay_ms p))"

section \<open>The assembled file\<close>

text \<open>
  The checkpoint next to the staged file is JSON; \<^verbatim>\<open>serde_json\<close> is the pair of functions
  \<open>render\<close> and \<open>parse\<close>.
\<close>

record checkpoint =
  k_version :: int
  k_fingerprint :: bytes
  k_next_index :: nat
  k_bytes :: nat
  k_updated_at :: nat

record codec =
  render :: "checkpoint \<Rightarrow> bytes"
  parse :: "bytes \<Rightarrow> checkpoint option"

datatype dir_entry = Absent | Regular bytes | Special

record disk =
  d_target :: dir_entry
  d_staged :: dir_entry
  d_checkpoint :: dir_entry

record seg_output =
  o_disk :: disk
  o_file :: bytes
  o_pos :: nat
  o_state :: checkpoint
  o_keep :: bool
  o_promoted :: bool
  o_saved_bytes :: nat

definition empty_checkpoint :: "bytes \<Rightarrow> checkpoint" where
  "empty_checkpoint fp = \<lparr>k_version = 0, k_fingerprint = fp, k_next_index = 0, k_bytes = 0, k_updated_at = 0\<rparr>"

text \<open>The operations of the file system fail where \<open>fault\<close> says so, by the place of the call.\<close>

type_synonym faults = "nat \<Rightarrow> bytes option"

definition not_regular :: "dir_entry \<Rightarrow> bool" where
  "not_regular e = (e = Special)"

definition load_checkpoint :: "codec \<Rightarrow> faults \<Rightarrow> bytes \<Rightarrow> nat \<Rightarrow> dir_entry \<Rightarrow> checkpoint option" where
  "load_checkpoint J fault fp segments e =
     (case e of
        Regular data \<Rightarrow>
          if fault 3 \<noteq> None \<or> 1048576 < length data then None
          else (case parse J data of
            None \<Rightarrow> None
          | Some k \<Rightarrow>
              if k_version k = 1 \<and> k_fingerprint k = fp \<and> k_next_index k \<le> segments \<and>
                 ((k_next_index k = 0) = (k_bytes k = 0)) then Some k else None)
      | _ \<Rightarrow> None)"

text \<open>\<^verbatim>\<open>set_len\<close> and a write at the position of the file.\<close>

definition set_len :: "bytes \<Rightarrow> nat \<Rightarrow> bytes" where
  "set_len file n = take n file @ replicate (n - length file) CHR 0x00"

definition write_at :: "bytes \<Rightarrow> nat \<Rightarrow> bytes \<Rightarrow> bytes" where
  "write_at file pos data = set_len file pos @ data @ drop (pos + length data) file"

definition staged_content :: "dir_entry \<Rightarrow> bytes" where
  "staged_content e = (case e of Regular f \<Rightarrow> f | _ \<Rightarrow> [])"

definition try_io :: "faults \<Rightarrow> nat \<Rightarrow> disk \<Rightarrow> 'a res \<times> disk \<Rightarrow> 'a res \<times> disk" where
  "try_io fault k d rest = (case fault k of Some e \<Rightarrow> (Inl e, d) | None \<Rightarrow> rest)"

definition staging_error :: bytes where
  "staging_error = ''download staging path is not a regular file''"

definition loaded_checkpoint :: "bytes \<Rightarrow> nat \<Rightarrow> checkpoint option \<Rightarrow> checkpoint" where
  "loaded_checkpoint fp len loaded =
     (case loaded of
        Some k \<Rightarrow> if k_bytes k \<le> len then k else empty_checkpoint fp
      | None \<Rightarrow> empty_checkpoint fp)"

definition open_staged :: "faults \<Rightarrow> bytes \<Rightarrow> bool \<Rightarrow> checkpoint option \<Rightarrow> disk \<Rightarrow> seg_output res \<times> disk" where
  "open_staged fault fp keep loaded d =
     try_io fault 6 d
      (let file = staged_content (d_staged d); d1 = d\<lparr>d_staged := Regular file\<rparr>;
           k = loaded_checkpoint fp (length file) loaded;
           d2 = (if k_next_index k = 0 then d1\<lparr>d_checkpoint := Absent\<rparr> else d1);
           file' = set_len file (k_bytes k); d3 = d2\<lparr>d_staged := Regular file'\<rparr>
       in try_io fault 7 d1
         (try_io (if k_next_index k = 0 then fault else (\<lambda>_. None)) 8 d1
           (try_io fault 9 d2
             (try_io fault 10 d3
               (Inr \<lparr>o_disk = d3, o_file = file', o_pos = k_bytes k, o_state = k, o_keep = keep,
                     o_promoted = False, o_saved_bytes = k_bytes k\<rparr>, d3)))))"

definition open_output :: "codec \<Rightarrow> faults \<Rightarrow> bytes \<Rightarrow> nat \<Rightarrow> bool \<Rightarrow> disk \<Rightarrow> seg_output res \<times> disk" where
  "open_output J fault fp segments keep d =
     try_io fault 0 d (try_io fault 1 d
      (if not_regular (d_staged d) then (Inl staging_error, d)
       else try_io fault 2 d
        (if not_regular (d_checkpoint d) then (Inl staging_error, d)
         else let loaded = (if keep then load_checkpoint J fault fp segments (d_checkpoint d) else None)
           in if loaded = None then
               (let d1 = d\<lparr>d_staged := Absent\<rparr>; d2 = d1\<lparr>d_checkpoint := Absent\<rparr>
                in try_io fault 4 d (try_io fault 5 d1 (open_staged fault fp keep None d2)))
             else open_staged fault fp keep loaded d)))"

text \<open>
  Copying one segment: each event is one round of the loop (the cancellation check, the read of at
  most 128 KiB, the write); with no event left the rounds go on without a failure.
\<close>

datatype copy_event = CopyCancelled bytes | CopyReadFails bytes | CopyWriteFails nat bytes | Copied nat

definition copy_buffer :: nat where "copy_buffer = 131072"

definition read_count :: "nat \<Rightarrow> bytes \<Rightarrow> nat" where
  "read_count n rest = min (max 1 n) (min copy_buffer (length rest))"

fun copy_loop :: "copy_event list \<Rightarrow> bytes \<Rightarrow> bytes \<Rightarrow> nat \<Rightarrow> nat \<Rightarrow> unit res \<times> bytes \<times> nat \<times> nat" where
  "copy_loop [] rest file pos copied =
     (Inr (), write_at file pos rest, pos + length rest, copied + length rest)"
| "copy_loop (e # es) rest file pos copied =
     (case e of
        CopyCancelled err \<Rightarrow> (Inl err, file, pos, copied)
      | CopyReadFails err \<Rightarrow> (Inl err, file, pos, copied)
      | CopyWriteFails n err \<Rightarrow>
          if rest = [] then (Inr (), file, pos, copied)
          else let k = min n (read_count (length rest) rest)
               in (Inl err, write_at file pos (take k rest), pos + k, copied)
      | Copied n \<Rightarrow>
          if rest = [] then (Inr (), file, pos, copied)
          else let k = read_count n rest
               in copy_loop es (drop k rest) (write_at file pos (take k rest)) (pos + k) (copied + k))"

text \<open>
  \<^verbatim>\<open>append\<close>: the seek of the segment file may fail, and so may the two calls that roll the output
  back (their results are dropped).
\<close>

record append_env =
  ae_seek :: "unit res"
  ae_copy :: "copy_event list"
  ae_set_len :: bool
  ae_seek_back :: bool

definition append_segment :: "append_env \<Rightarrow> bytes \<Rightarrow> nat \<Rightarrow> seg_output \<Rightarrow> unit res \<times> seg_output" where
  "append_segment env segment size0 o1 =
     (case ae_seek env of
        Inl e \<Rightarrow> (Inl e, o1)
      | Inr _ \<Rightarrow>
          (let (r, file, pos, copied) = copy_loop (ae_copy env) segment (o_file o1) (o_pos o1) 0;
               result = bind_res r (\<lambda>_. if copied \<noteq> size0 then Inl ''short segment copy'' else Inr ())
           in case result of
                Inr _ \<Rightarrow> (Inr (), o1\<lparr>o_file := file, o_pos := pos, o_state := (o_state o1)
                  \<lparr>k_bytes := k_bytes (o_state o1) + copied, k_next_index := k_next_index (o_state o1) + 1\<rparr>\<rparr>)
              | Inl e \<Rightarrow>
                  (let bs = k_bytes (o_state o1)
                   in (Inl e, o1\<lparr>o_file := (if ae_set_len env then set_len file bs else file),
                                o_pos := (if ae_seek_back env then bs else pos)\<rparr>))))"

text \<open>
  \<^verbatim>\<open>checkpoint\<close> and \<^verbatim>\<open>save\<close>: \<open>secs\<close> is the time since the last save, \<open>now\<close> the clock; saving can
  fail when the data is synced or anywhere up to the rename of the new checkpoint.
\<close>

datatype save_event = SyncFails | SaveFails | Saved

definition save_checkpoint :: "codec \<Rightarrow> save_event \<Rightarrow> nat \<Rightarrow> seg_output \<Rightarrow> seg_output" where
  "save_checkpoint J ev now o1 =
     (let k = (o_state o1)\<lparr>k_version := 1, k_updated_at := now\<rparr>
      in case ev of
           SyncFails \<Rightarrow> o1
         | SaveFails \<Rightarrow> o1\<lparr>o_state := k\<rparr>
         | Saved \<Rightarrow> o1\<lparr>o_state := k, o_saved_bytes := k_bytes k,
                      o_disk := (o_disk o1)\<lparr>d_checkpoint := Regular (render J k)\<rparr>\<rparr>)"

definition checkpoint_output :: "codec \<Rightarrow> bool \<Rightarrow> nat \<Rightarrow> save_event \<Rightarrow> nat \<Rightarrow> seg_output \<Rightarrow> seg_output" where
  "checkpoint_output J force secs ev now o1 =
     (if \<not> o_keep o1 \<or> k_next_index (o_state o1) = 0 \<or> k_bytes (o_state o1) = 0 \<or>
         (\<not> force \<and> k_bytes (o_state o1) - o_saved_bytes o1 < 8388608 \<and> secs < 5)
      then o1 else save_checkpoint J ev now o1)"

text \<open>\<^verbatim>\<open>publish\<close> with its four calls, and the cleanup when the output is dropped (\<open>fault\<close> 0 and 1).\<close>

definition publish_output :: "faults \<Rightarrow> unit res \<Rightarrow> seg_output \<Rightarrow> unit res \<times> seg_output" where
  "publish_output fault check o1 =
     (case fault 0 of Some e \<Rightarrow> (Inl e, o1)
      | None \<Rightarrow>
     (case check of Inl e \<Rightarrow> (Inl e, o1)
      | Inr _ \<Rightarrow>
     (case fault 1 of Some e \<Rightarrow> (Inl e, o1)
      | None \<Rightarrow>
          (let d = (o_disk o1)\<lparr>d_target := Regular (o_file o1), d_staged := Absent\<rparr>
           in (Inr (), o1\<lparr>o_promoted := True, o_disk := (if fault 2 = None then d\<lparr>d_checkpoint := Absent\<rparr> else d)\<rparr>)))))"

definition drop_output :: "faults \<Rightarrow> seg_output \<Rightarrow> disk" where
  "drop_output fault o1 =
     (let d = (if o_promoted o1 then o_disk o1 else (o_disk o1)\<lparr>d_staged := Regular (o_file o1)\<rparr>)
      in if o_promoted o1 \<or> \<not> o_keep o1 then
           (let d1 = (if fault 0 = None then d\<lparr>d_checkpoint := Absent\<rparr> else d)
            in if \<not> o_promoted o1 \<and> fault 1 = None then d1\<lparr>d_staged := Absent\<rparr> else d1)
         else d)"

section \<open>A fetched segment\<close>

definition body_bytes :: "read_event list \<Rightarrow> bytes" where
  "body_bytes es = concat (map (\<lambda>e. case e of Data bs \<Rightarrow> bs | _ \<Rightarrow> []) (takeWhile (\<lambda>e. e \<noteq> Data []) es))"

lemma read_body_ok:
  "read_body es got = (data, Inr ()) \<Longrightarrow> data = got @ body_bytes es \<and>
     list_all (\<lambda>e. \<exists>bs. e = Data bs) (takeWhile (\<lambda>e. e \<noteq> Data []) es)"
  by (induction es got rule: read_body.induct) (auto simp: body_bytes_def split: if_splits)

text \<open>
  What a successful fetch guarantees: one attempt within the policy got a successful response
  whose whole body, of the announced length, is the content of the segment file.
\<close>

definition good_segment :: "transfer_policy \<Rightarrow> (int \<Rightarrow> attempt_env) \<Rightarrow> completed \<Rightarrow> bool" where
  "good_segment p env c \<longleftrightarrow>
     c_data c \<noteq> [] \<and> c_size c = length (c_data c) \<and> 1 \<le> c_attempts c \<and> c_attempts c \<le> max_attempts p \<and>
     (\<exists>r. at_stream (env (c_attempts c)) = Inr r \<and> 200 \<le> r_status r \<and> r_status r < 300 \<and>
        c_data c = body_bytes (at_body (env (c_attempts c))) \<and> snd (read_body (at_body (env (c_attempts c))) []) = Inr () \<and>
        (0 < content_length r \<longrightarrow> int (length (c_data c)) = content_length r))"

lemma try_stream_Got:
  "try_stream h p index attempt env = Got c \<Longrightarrow>
     c_data c \<noteq> [] \<and> c_size c = length (c_data c) \<and> c_attempts c = attempt \<and>
     (\<exists>r. at_stream env = Inr r \<and> 200 \<le> r_status r \<and> r_status r < 300 \<and>
        c_data c = body_bytes (at_body env) \<and> snd (read_body (at_body env) []) = Inr () \<and>
        (0 < content_length r \<longrightarrow> int (length (c_data c)) = content_length r))"
  by (auto simp: try_stream_def Let_def check_length_def res_iff split: sum.splits if_splits prod.splits
      dest: read_body_ok)

lemma try_stream_retry: "try_stream h p index attempt env = Failed f \<Longrightarrow> f_retry_after f \<le> 120"
  by (auto simp: try_stream_def Let_def failure_new_def status_failure_def retry_after_bounds
      split: sum.splits if_splits prod.splits)

lemma fetch_from_props:
  assumes "policy_ok p" "\<And>i r. at_random (env i) = Some r \<Longrightarrow> r < 2 ^ 64"
  shows "attempt + int left = max_attempts p + 1 \<Longrightarrow> 1 \<le> attempt \<Longrightarrow> 0 < left \<Longrightarrow>
      millis (initial_retry_delay_ms p) \<le> delay \<Longrightarrow> delay \<le> millis (max_retry_delay_ms p) \<Longrightarrow>
      fetch_from h p index env left attempt delay = (r, waits) \<Longrightarrow>
      r \<noteq> None \<and> (\<forall>c. r = Some (Inr c) \<longrightarrow> good_segment p env c) \<and> length waits \<le> left \<and>
      (\<forall>w \<in> set waits. w \<le> 120000000000)"
proof (induction left arbitrary: attempt delay r waits)
  case 0
  then show ?case by simp
next
  case (Suc left)
  let ?e = "env attempt"
  note eq = Suc.prems(6)
  show ?case
  proof (cases "\<exists>err. at_check ?e = Inl err \<or> at_file ?e = Inl err")
    case True
    then show ?thesis using eq by (auto simp: Let_def split: sum.splits)
  next
    case False
    then have ok: "at_check ?e = Inr ()" "at_file ?e = Inr ()"
      by (metis old.sum.exhaust old.unit.exhaust)+
    show ?thesis
    proof (cases "try_stream h p index attempt ?e")
      case (Got c)
      then have "r = Some (Inr c)" "waits = []" using eq ok by (simp_all add: Let_def)
      moreover have "good_segment p env c"
        using try_stream_Got [OF Got] Suc.prems(1,2) by (auto simp: good_segment_def)
      ultimately show ?thesis by simp
    next
      case (Stop f)
      then show ?thesis using eq ok by (auto simp: Let_def)
    next
      case (Failed f0)
      define f where "f = (case at_failed_check ?e of Inl err \<Rightarrow> failure_new ''cancelled'' err attempt | Inr _ \<Rightarrow> f0)"
      show ?thesis
      proof (cases "attempt = max_attempts p \<or> f_type f = ''cancelled''")
        case True
        then have "r = Some (Inl f)" "waits = []" using eq ok Failed by (auto simp: Let_def f_def)
        then show ?thesis by simp
      next
        case go: False
        then have "left \<noteq> 0" using Suc.prems(1) by auto
        have "f_retry_after f \<le> 120"
          using try_stream_retry [OF Failed] by (auto simp: f_def failure_new_def split: sum.splits)
        then have w: "retry_delay f delay \<le> 120000000000"
          using Suc.prems(5) millis_limit [OF assms(1)] by (auto simp: retry_delay_def)
        show ?thesis
        proof (cases "at_wait ?e")
          case (Inl err)
          then show ?thesis using eq ok Failed go w by (auto simp: Let_def f_def [symmetric])
        next
          case (Inr u)
          obtain r' ws where rec: "fetch_from h p index env left (attempt + 1) (next_delay (at_random ?e) delay p) = (r', ws)"
            by (cases "fetch_from h p index env left (attempt + 1) (next_delay (at_random ?e) delay p)")
          then have "r = r'" "waits = retry_delay f delay # ws"
            using eq ok Failed go Inr by (simp_all add: Let_def f_def [symmetric])
          moreover have "millis (initial_retry_delay_ms p) \<le> next_delay (at_random ?e) delay p \<and>
              next_delay (at_random ?e) delay p \<le> millis (max_retry_delay_ms p)"
            using assms Suc.prems(4) by (intro next_delay_bounds) auto
          ultimately show ?thesis
            using Suc.IH [of "attempt + 1" _ r' ws, OF _ _ _ _ _ rec] Suc.prems(1,2) \<open>left \<noteq> 0\<close> w by auto
        qed
      qed
    qed
  qed
qed

lemma fetch_props:
  assumes "policy_ok p" "\<And>i r. at_random (env i) = Some r \<Longrightarrow> r < 2 ^ 64" "fetch h p index env = (r, waits)"
  shows "r \<noteq> None \<and> (\<forall>c. r = Some (Inr c) \<longrightarrow> good_segment p env c) \<and>
      int (length waits) \<le> max_attempts p \<and> (\<forall>w \<in> set waits. w \<le> 120000000000)"
proof -
  have m: "1 \<le> max_attempts p" "0 \<le> initial_retry_delay_ms p" "initial_retry_delay_ms p \<le> max_retry_delay_ms p"
      "max_retry_delay_ms p < 2 ^ 64"
    using assms(1) by (simp_all add: policy_ok_def)
  have "r \<noteq> None \<and> (\<forall>c. r = Some (Inr c) \<longrightarrow> good_segment p env c) \<and> length waits \<le> nat (max_attempts p) \<and>
      (\<forall>w \<in> set waits. w \<le> 120000000000)"
    using m assms(3) unfolding fetch_def
    by (intro fetch_from_props [OF assms(1,2)]) (auto intro: millis_mono)
  then show ?thesis using m by auto
qed

section \<open>The output stays a whole number of segments\<close>

lemma take_set_len [simp]: "n \<le> k \<Longrightarrow> n \<le> length f \<Longrightarrow> take n (set_len f k) = take n f"
  by (simp add: set_len_def min_def)

lemma length_set_len [simp]: "length (set_len f n) = n"
  by (simp add: set_len_def)

lemma set_len_short [simp]: "n \<le> length f \<Longrightarrow> set_len f n = take n f"
  by (simp add: set_len_def)

lemma write_at_end [simp]: "write_at f (length f) d = f @ d"
  by (simp add: write_at_def)

lemma read_count_bounds: "rest \<noteq> [] \<Longrightarrow> 0 < read_count n rest \<and> read_count n rest \<le> length rest"
  by (auto simp: read_count_def copy_buffer_def)

lemma read_count_le [simp]: "read_count n rest \<le> length rest"
  by (simp add: read_count_def)

lemma min_read_count [simp]: "min (length rest) (min x (read_count n rest)) = min x (read_count n rest)"
  using read_count_le [of n rest] by linarith

lemma copy_loop_end:
  "copy_loop es rest f (length f) copied = (r, f', pos', copied') \<Longrightarrow>
     (\<exists>w. f' = f @ w \<and> pos' = length f' \<and> (r = Inr () \<longrightarrow> w = rest \<and> copied' = copied + length rest))"
proof (induction es arbitrary: rest f copied)
  case Nil
  then show ?case by auto
next
  case (Cons e es)
  show ?case
  proof (cases e)
    case (Copied n)
    show ?thesis
    proof (cases "rest = []")
      case True
      then show ?thesis using Cons.prems Copied by auto
    next
      case False
      let ?k = "read_count n rest"
      have k: "?k \<le> length rest" using read_count_bounds [OF False] by blast
      have "copy_loop es (drop ?k rest) (f @ take ?k rest) (length (f @ take ?k rest)) (copied + ?k) = (r, f', pos', copied')"
        using Cons.prems Copied False k by (simp add: Let_def)
      from Cons.IH [OF this] k show ?thesis by auto
    qed
  qed (use Cons.prems in \<open>auto simp: Let_def split: if_splits\<close>)
qed

definition joined :: "(nat \<Rightarrow> bytes) \<Rightarrow> nat \<Rightarrow> bytes" where
  "joined seg n = concat (map seg [0..<n])"

lemma joined_simps [simp]: "joined seg 0 = []" "joined seg (Suc n) = joined seg n @ seg n"
  by (simp_all add: joined_def)

abbreviation out_next :: "seg_output \<Rightarrow> nat" where "out_next x \<equiv> k_next_index (o_state x)"
abbreviation out_bytes :: "seg_output \<Rightarrow> nat" where "out_bytes x \<equiv> k_bytes (o_state x)"

definition usable :: "bytes \<Rightarrow> checkpoint \<Rightarrow> bool" where
  "usable fp k \<longleftrightarrow> k_version k = 1 \<and> k_fingerprint k = fp \<and> ((k_next_index k = 0) = (k_bytes k = 0))"

text \<open>A checkpoint on disk that a later run would use points at a whole number of segments.\<close>

definition disk_ok :: "codec \<Rightarrow> bytes \<Rightarrow> (nat \<Rightarrow> bytes) \<Rightarrow> disk \<Rightarrow> bool" where
  "disk_ok J fp seg d \<longleftrightarrow>
     (\<forall>data k f. d_checkpoint d = Regular data \<longrightarrow> parse J data = Some k \<longrightarrow> usable fp k \<longrightarrow>
        d_staged d = Regular f \<longrightarrow> k_bytes k \<le> length f \<longrightarrow> take (k_bytes k) f = joined seg (k_next_index k))"

definition saved_ok :: "codec \<Rightarrow> bytes \<Rightarrow> (nat \<Rightarrow> bytes) \<Rightarrow> seg_output \<Rightarrow> bool" where
  "saved_ok J fp seg x \<longleftrightarrow>
     (\<forall>data k. d_checkpoint (o_disk x) = Regular data \<longrightarrow> parse J data = Some k \<longrightarrow> usable fp k \<longrightarrow>
        k_bytes k \<le> out_bytes x \<and> take (k_bytes k) (o_file x) = joined seg (k_next_index k))"

text \<open>The state holds at every moment; it is aligned as long as no append has failed.\<close>

definition out_ok :: "codec \<Rightarrow> bytes \<Rightarrow> (nat \<Rightarrow> bytes) \<Rightarrow> seg_output \<Rightarrow> bool" where
  "out_ok J fp seg x \<longleftrightarrow>
     take (out_bytes x) (o_file x) = joined seg (out_next x) \<and> out_bytes x \<le> length (o_file x) \<and>
     k_fingerprint (o_state x) = fp \<and> ((out_next x = 0) = (out_bytes x = 0)) \<and> saved_ok J fp seg x"

definition aligned :: "seg_output \<Rightarrow> bool" where
  "aligned x \<longleftrightarrow> o_pos x = length (o_file x) \<and> out_bytes x = length (o_file x)"

definition codec_ok :: "codec \<Rightarrow> bool" where
  "codec_ok J \<longleftrightarrow> (\<forall>k. parse J (render J k) = Some k)"

text \<open>What a crash leaves on disk.\<close>

definition crash_disk :: "seg_output \<Rightarrow> disk" where
  "crash_disk x = (if o_promoted x then o_disk x else (o_disk x)\<lparr>d_staged := Regular (o_file x)\<rparr>)"

lemma joined_all: "out_ok J fp seg x \<Longrightarrow> aligned x \<Longrightarrow> o_file x = joined seg (out_next x)"
  by (simp add: out_ok_def aligned_def)

lemma load_usable:
  "load_checkpoint J fault fp segments e = Some k \<Longrightarrow>
     \<exists>data. e = Regular data \<and> parse J data = Some k \<and> usable fp k \<and> k_next_index k \<le> segments"
  by (auto simp: load_checkpoint_def usable_def split: dir_entry.splits if_splits option.splits)

lemma disk_ok_trivial:
  "d_checkpoint d = Absent \<Longrightarrow> disk_ok J fp seg d" "d_staged d = Absent \<Longrightarrow> disk_ok J fp seg d"
  by (simp_all add: disk_ok_def)

lemma try_io_disk: "snd (try_io fault k d rest) \<in> {d, snd rest}"
  by (simp add: try_io_def split: option.splits)

lemma try_io_Inr: "try_io fault k d rest = (Inr x, d') \<Longrightarrow> rest = (Inr x, d')"
  by (simp add: try_io_def split: option.splits)

lemma try_io_Inr_iff: "try_io fault k d rest = (Inr x, d') \<longleftrightarrow> fault k = None \<and> rest = (Inr x, d')"
  by (simp add: try_io_def split: option.splits)

lemma disk_ok_staged: "disk_ok J fp seg d \<Longrightarrow> disk_ok J fp seg (d\<lparr>d_staged := Regular (staged_content (d_staged d))\<rparr>)"
  by (auto simp: disk_ok_def usable_def staged_content_def split: dir_entry.splits)

lemma disk_ok_set_len:
  "disk_ok J fp seg d \<Longrightarrow> d_staged d = Regular f \<Longrightarrow> n \<le> length f \<Longrightarrow> disk_ok J fp seg (d\<lparr>d_staged := Regular (take n f)\<rparr>)"
  by (auto simp: disk_ok_def min_def)

lemma open_staged_ok:
  assumes "disk_ok J fp seg d"
    and "\<And>k. loaded = Some k \<Longrightarrow> \<exists>data. d_checkpoint d = Regular data \<and> parse J data = Some k \<and> usable fp k \<and> k_next_index k \<le> segments"
    and "loaded = None \<Longrightarrow> d_checkpoint d = Absent"
    and "open_staged fault fp keep loaded d = (r, d')"
  shows "disk_ok J fp seg d' \<and> (\<forall>x. r = Inr x \<longrightarrow>
      out_ok J fp seg x \<and> aligned x \<and> out_next x \<le> segments \<and> o_keep x = keep \<and> \<not> o_promoted x \<and>
      d_target (o_disk x) = d_target d)"
proof -
  define f where "f = staged_content (d_staged d)"
  define k where "k = loaded_checkpoint fp (length f) loaded"
  let ?d1 = "d\<lparr>d_staged := Regular f\<rparr>"
  let ?d2 = "if k_next_index k = 0 then ?d1\<lparr>d_checkpoint := Absent\<rparr> else ?d1"
  let ?f' = "set_len f (k_bytes k)" let ?d3 = "?d2\<lparr>d_staged := Regular ?f'\<rparr>"
  let ?x = "\<lparr>o_disk = ?d3, o_file = ?f', o_pos = k_bytes k, o_state = k, o_keep = keep,
      o_promoted = False, o_saved_bytes = k_bytes k\<rparr>"
  have 1: "disk_ok J fp seg ?d1" using assms(1) unfolding f_def by (rule disk_ok_staged)
  have 2: "disk_ok J fp seg ?d2" using 1 by (auto intro: disk_ok_trivial)
  have kf: "k_bytes k \<le> length f" "k_next_index k \<le> segments" "k_fingerprint k = fp"
      "(k_next_index k = 0) = (k_bytes k = 0)"
    using assms(2) by (auto simp: k_def loaded_checkpoint_def empty_checkpoint_def usable_def split: option.splits)
  have 3: "disk_ok J fp seg ?d3" using disk_ok_set_len [OF 2, of f "k_bytes k"] kf(1) by simp
  have j: "take (k_bytes k) f = joined seg (k_next_index k)"
  proof (cases "k_next_index k = 0")
    case False
    then have "loaded = Some k"
      by (auto simp: k_def loaded_checkpoint_def empty_checkpoint_def split: option.splits if_splits)
    with assms(2) obtain data where "d_checkpoint d = Regular data" "parse J data = Some k" "usable fp k" by blast
    then show ?thesis using 1 kf(1) by (simp add: disk_ok_def)
  qed (use kf(4) in simp)
  have jl: "length (joined seg (k_next_index k)) = k_bytes k"
    using j kf(1) by (metis length_take min.absorb2)
  have s: "saved_ok J fp seg ?x"
  proof (cases "k_next_index k = 0")
    case False
    then have "loaded = Some k"
      by (auto simp: k_def loaded_checkpoint_def empty_checkpoint_def split: option.splits if_splits)
    with assms(2) obtain data where "d_checkpoint d = Regular data" "parse J data = Some k" by blast
    then show ?thesis using j jl kf(1) False by (simp add: saved_ok_def)
  qed (simp add: saved_ok_def)
  have x: "out_ok J fp seg ?x \<and> aligned ?x" using j jl s kf by (simp add: out_ok_def aligned_def)
  have os: "open_staged fault fp keep loaded d = try_io fault 6 d (try_io fault 7 ?d1
      (try_io (if k_next_index k = 0 then fault else (\<lambda>_. None)) 8 ?d1
        (try_io fault 9 ?d2 (try_io fault 10 ?d3 (Inr ?x, ?d3)))))"
    by (simp only: open_staged_def Let_def f_def k_def)
  have "d' \<in> {d, ?d1, ?d2, ?d3}"
    using assms(4) unfolding os by (auto simp: try_io_def split: option.splits)
  then have "disk_ok J fp seg d'" using assms(1) 1 2 3 by auto
  moreover have "y = ?x" if "r = Inr y" for y
  proof -
    have "(Inr ?x :: seg_output res, ?d3) = (Inr y, d')"
      using assms(4) unfolding os that try_io_Inr_iff by (elim conjE)
    from arg_cong [OF this, of fst] have "(Inr ?x :: seg_output res) = Inr y" unfolding fst_conv .
    then show ?thesis unfolding sum.inject by (rule sym)
  qed
  moreover have "out_next ?x = k_next_index k" "o_keep ?x = keep" "\<not> o_promoted ?x" "d_target (o_disk ?x) = d_target d"
    by simp_all
  ultimately show ?thesis using x kf(2) by (metis (no_types, lifting))
qed

lemma open_output_ok:
  assumes "disk_ok J fp seg d" "open_output J fault fp segments keep d = (r, d')"
  shows "disk_ok J fp seg d' \<and> (\<forall>x. r = Inr x \<longrightarrow>
      out_ok J fp seg x \<and> aligned x \<and> out_next x \<le> segments \<and> o_keep x = keep \<and> \<not> o_promoted x \<and>
      d_target (o_disk x) = d_target d)"
proof -
  define loaded where "loaded = (if keep then load_checkpoint J fault fp segments (d_checkpoint d) else None)"
  let ?d1 = "d\<lparr>d_staged := Absent\<rparr>" let ?d2 = "?d1\<lparr>d_checkpoint := Absent\<rparr>"
  have *: "disk_ok J fp seg ?d1" "disk_ok J fp seg ?d2" by (rule disk_ok_trivial, simp)+
  have early: "(r, d') = (Inl e, d) \<Longrightarrow> ?thesis" for e using assms(1) by simp
  show ?thesis
  proof (cases "loaded = None")
    case True
    define body where "body = try_io fault 4 d (try_io fault 5 ?d1 (open_staged fault fp keep None ?d2))"
    obtain r2 d2 where o2: "open_staged fault fp keep None ?d2 = (r2, d2)"
      by (cases "open_staged fault fp keep None ?d2")
    have "disk_ok J fp seg d2 \<and> (\<forall>x. r2 = Inr x \<longrightarrow>
      out_ok J fp seg x \<and> aligned x \<and> out_next x \<le> segments \<and> o_keep x = keep \<and> \<not> o_promoted x \<and>
      d_target (o_disk x) = d_target ?d2)"
      by (rule open_staged_ok [OF *(2) _ _ o2]) simp_all
    moreover have "(r, d') = (r2, d2) \<or> (\<exists>e. (r, d') = (Inl e, d)) \<or> (\<exists>e. (r, d') = (Inl e, ?d1))"
      using assms(2) True o2 unfolding open_output_def loaded_def [symmetric]
      by (auto simp: try_io_def Let_def split: option.splits if_splits)
    ultimately show ?thesis using assms(1) *(1) by auto
  next
    case False
    obtain r2 d2 where o2: "open_staged fault fp keep loaded d = (r2, d2)"
      by (cases "open_staged fault fp keep loaded d")
    have "\<exists>data. d_checkpoint d = Regular data \<and> parse J data = Some k \<and> usable fp k \<and> k_next_index k \<le> segments"
      if "loaded = Some k" for k
      using that load_usable [of J fault fp segments "d_checkpoint d" k] unfolding loaded_def
      by (cases keep) simp_all
    then have "disk_ok J fp seg d2 \<and> (\<forall>x. r2 = Inr x \<longrightarrow>
      out_ok J fp seg x \<and> aligned x \<and> out_next x \<le> segments \<and> o_keep x = keep \<and> \<not> o_promoted x \<and>
      d_target (o_disk x) = d_target d)"
      using False by (intro open_staged_ok [OF assms(1) _ _ o2]) simp_all
    moreover have "(r, d') = (r2, d2) \<or> (\<exists>e. (r, d') = (Inl e, d))"
      using assms(2) False o2 unfolding open_output_def loaded_def [symmetric]
      by (auto simp: try_io_def Let_def split: option.splits if_splits)
    ultimately show ?thesis using assms(1) by auto
  qed
qed

lemma append_segment_ok:
  assumes "out_ok J fp seg x" "aligned x" "seg (out_next x) = s" "s \<noteq> []" "append_segment env s n x = (r, y)"
  shows "out_ok J fp seg y \<and> o_disk y = o_disk x \<and> o_keep y = o_keep x \<and> o_promoted y = o_promoted x \<and>
      o_saved_bytes y = o_saved_bytes x \<and>
      (r = Inr () \<longrightarrow> aligned y \<and> out_next y = Suc (out_next x)) \<and> (r \<noteq> Inr () \<longrightarrow> out_next y = out_next x)"
proof -
  obtain cr f pos copied where c: "copy_loop (ae_copy env) s (o_file x) (o_pos x) 0 = (cr, f, pos, copied)"
    by (cases "copy_loop (ae_copy env) s (o_file x) (o_pos x) 0") auto
  then obtain w where w: "f = o_file x @ w" "pos = length f" "cr = Inr () \<longrightarrow> w = s \<and> copied = length s"
    using copy_loop_end [of "ae_copy env" s "o_file x" 0] assms(2) by (auto simp: aligned_def)
  show ?thesis
  proof (cases "ae_seek env")
    case (Inl e)
    then show ?thesis using assms(1,5) by (auto simp: append_segment_def)
  next
    case (Inr u)
    show ?thesis
    proof (cases "cr = Inr () \<and> copied = n")
      case True
      then have y: "r = Inr ()" "y = x\<lparr>o_file := f, o_pos := pos, o_state := (o_state x)
          \<lparr>k_bytes := out_bytes x + copied, k_next_index := out_next x + 1\<rparr>\<rparr>"
        using assms(5) Inr c by (simp_all add: append_segment_def)
      have "o_file x = joined seg (out_next x)" using assms by (simp add: joined_all)
      then show ?thesis using True w assms(1-4) y(1)
        by (auto simp: y(2) out_ok_def aligned_def saved_ok_def)
    next
      case False
      have al: "out_bytes x = length (o_file x)" using assms(2) by (simp add: aligned_def)
      obtain e where "bind_res cr (\<lambda>_. if copied \<noteq> n then Inl ''short segment copy'' else Inr ()) = Inl e"
        using False by (cases cr) auto
      then have y: "r = Inl e" "y = x\<lparr>o_file := (if ae_set_len env then set_len f (out_bytes x) else f),
          o_pos := (if ae_seek_back env then out_bytes x else pos)\<rparr>"
        using assms(5) Inr c by (auto simp: append_segment_def Let_def)
      have "take (out_bytes x) (o_file y) = o_file x" "out_bytes x \<le> length (o_file y)"
        using w(1) al by (simp_all add: y(2))
      moreover have tk: "take (k_bytes k) (o_file y) = take (k_bytes k) (o_file x)" if "k_bytes k \<le> out_bytes x" for k
        using w(1) al that by (simp add: y(2))
      moreover have same: "o_disk y = o_disk x" "o_state y = o_state x" by (simp_all add: y(2))
      moreover have "saved_ok J fp seg y"
        using assms(1) tk unfolding out_ok_def saved_ok_def same by metis
      ultimately show ?thesis using assms(1) y(1) joined_all [OF assms(1,2)]
        by (auto simp: out_ok_def, simp_all add: y(2))
    qed
  qed
qed

lemma checkpoint_output_ok:
  assumes "codec_ok J" "out_ok J fp seg x"
  shows "out_ok J fp seg (checkpoint_output J force secs ev now x) \<and>
      (aligned x \<longrightarrow> aligned (checkpoint_output J force secs ev now x)) \<and>
      out_next (checkpoint_output J force secs ev now x) = out_next x \<and>
      o_file (checkpoint_output J force secs ev now x) = o_file x \<and>
      o_keep (checkpoint_output J force secs ev now x) = o_keep x \<and>
      o_promoted (checkpoint_output J force secs ev now x) = o_promoted x"
proof -
  have "out_ok J fp seg (save_checkpoint J ev now x) \<and> (aligned x \<longrightarrow> aligned (save_checkpoint J ev now x)) \<and>
      out_next (save_checkpoint J ev now x) = out_next x \<and> o_file (save_checkpoint J ev now x) = o_file x \<and>
      o_keep (save_checkpoint J ev now x) = o_keep x \<and> o_promoted (save_checkpoint J ev now x) = o_promoted x"
    using assms
    by (cases ev) (auto simp: save_checkpoint_def Let_def out_ok_def aligned_def saved_ok_def codec_ok_def)
  then show ?thesis using assms by (simp add: checkpoint_output_def)
qed

lemma crash_disk_ok: "out_ok J fp seg x \<Longrightarrow> \<not> o_promoted x \<Longrightarrow> disk_ok J fp seg (crash_disk x)"
  by (simp add: crash_disk_def disk_ok_def out_ok_def saved_ok_def)

lemma publish_output_ok:
  "publish_output fault check x = (r, y) \<Longrightarrow> \<not> o_promoted x \<Longrightarrow>
     (r = Inr () \<longrightarrow> o_promoted y \<and> d_target (o_disk y) = Regular (o_file x) \<and> d_staged (o_disk y) = Absent) \<and>
     (r \<noteq> Inr () \<longrightarrow> y = x)"
  by (auto simp: publish_output_def Let_def split: option.splits sum.splits)

lemma drop_output_ok:
  assumes "out_ok J fp seg x \<and> \<not> o_promoted x \<or> d_staged (o_disk x) = Absent \<and> o_promoted x"
  shows "disk_ok J fp seg (drop_output fault x)"
  using assms by (auto simp: drop_output_def Let_def disk_ok_def out_ok_def saved_ok_def)

section \<open>Numbers in sample checkpoints\<close>

text \<open>Unary numbers, for the codecs of the samples: all that the properties ask of \<^verbatim>\<open>serde_json\<close> is a round trip.\<close>

definition put_nat :: "nat \<Rightarrow> bytes" where
  "put_nat n = replicate n CHR ''1'' @ ''0''"

definition take_nat :: "bytes \<Rightarrow> nat \<times> bytes" where
  "take_nat s = (length (takeWhile (\<lambda>c. c = CHR ''1'') s), tl (dropWhile (\<lambda>c. c = CHR ''1'') s))"

lemma take_put: "take_nat (put_nat n @ s) = (n, s)"
  by (induction n) (simp_all add: take_nat_def put_nat_def)

definition sample_disk :: disk where
  "sample_disk = \<lparr>d_target = Absent, d_staged = Absent, d_checkpoint = Absent\<rparr>"

end
