(* ===== verification/Segments.thy ===== *)
theory Segments
  imports SegmentFetch "HOL-Library.Multiset"
begin

text \<open>
  The segmented download (rust\_backend/crates/extensions/src/download/segments.rs, function
  \<^verbatim>\<open>download\<close>): worker threads that fetch segments, two bounded channels, and the coordinator that
  puts completed segments in order.  The step relation interleaves the threads in every way the
  channels allow.  Whatever the interleaving, the output is a whole number of segments in order,
  never more segments are in flight than there are workers, the coordinator never waits for room
  in the job channel, and every run ends.
\<close>

section \<open>The threads and their channels\<close>

datatype worker = Idle | Busy nat | Sending nat "failure + completed" | Quit

record sys =
  s_next_job :: nat
  s_jobs :: "nat list"
  s_sender :: bool
  s_workers :: "worker list"
  s_results :: "(nat \<times> (failure + completed)) list"
  s_pending :: "(nat, completed) btree"
  s_stop :: bool
  s_failure :: "failure option"
  s_out :: seg_output
  s_drain :: bool
  s_finished :: bool

text \<open>
  The surroundings of one call: the number of segments, the size of both channels, what fetching a
  segment can give, whether a check can fail, and the codec of the checkpoint.
\<close>

record setting =
  n_segments :: nat
  n_workers :: nat
  fetched :: "nat \<Rightarrow> failure + completed \<Rightarrow> bool"
  can_cancel :: bool
  can_fail_append :: bool
  json_codec :: codec

definition worker_count :: "transfer_policy \<Rightarrow> nat \<Rightarrow> nat \<Rightarrow> nat" where
  "worker_count p segments next = min (nat (max_parallel_segments p)) (segments - next)"

text \<open>
  The state after the spawn loop: \<open>spawned\<close> workers run; when spawning one fails, the failure is
  recorded and the jobs that are not queued yet are given up.
\<close>

definition fail_with :: "failure \<Rightarrow> sys \<Rightarrow> sys" where
  "fail_with f s = s\<lparr>s_failure := (case s_failure s of None \<Rightarrow> Some f | Some g \<Rightarrow> Some g),
     s_stop := True, s_sender := False\<rparr>"

definition start_workers :: "setting \<Rightarrow> failure option \<Rightarrow> nat \<Rightarrow> seg_output \<Rightarrow> sys" where
  "start_workers P spawn_failure spawned x =
     (let next = out_next x + n_workers P;
          s = \<lparr>s_next_job = next, s_jobs = [out_next x..<next], s_sender = (next < n_segments P),
               s_workers = replicate spawned Idle, s_results = [], s_pending = [], s_stop = False,
               s_failure = None, s_out = x, s_drain = False, s_finished = False\<rparr>
      in case spawn_failure of None \<Rightarrow> s | Some f \<Rightarrow> fail_with f s)"

definition release_slot :: "setting \<Rightarrow> sys \<Rightarrow> sys" where
  "release_slot P s =
     (if s_sender s then s\<lparr>s_jobs := s_jobs s @ [s_next_job s], s_next_job := s_next_job s + 1,
        s_sender := (s_next_job s + 1 \<noteq> n_segments P)\<rparr>
      else s)"

inductive step :: "setting \<Rightarrow> sys \<Rightarrow> sys \<Rightarrow> bool" for P where
  w_quit: "\<lbrakk>i < length (s_workers s); s_workers s ! i = Idle;
      can_cancel P \<or> s_stop s \<or> s_jobs s = [] \<and> \<not> s_sender s\<rbrakk>
     \<Longrightarrow> step P s (s\<lparr>s_workers := (s_workers s)[i := Quit]\<rparr>)"
| w_take: "\<lbrakk>i < length (s_workers s); s_workers s ! i = Idle; s_jobs s = j # js\<rbrakk>
     \<Longrightarrow> step P s (s\<lparr>s_workers := (s_workers s)[i := Busy j], s_jobs := js\<rparr>)"
| w_fetched: "\<lbrakk>i < length (s_workers s); s_workers s ! i = Busy j; fetched P j r\<rbrakk>
     \<Longrightarrow> step P s (s\<lparr>s_workers := (s_workers s)[i := Sending j r]\<rparr>)"
| w_send: "\<lbrakk>i < length (s_workers s); s_workers s ! i = Sending j r; length (s_results s) < n_workers P\<rbrakk>
     \<Longrightarrow> step P s (s\<lparr>s_results := s_results s @ [(j, r)],
           s_workers := (s_workers s)[i := (case r of Inl _ \<Rightarrow> Quit | Inr _ \<Rightarrow> Idle)]\<rparr>)"
| c_cancel: "\<lbrakk>can_cancel P; \<not> s_drain s; \<not> s_finished s; s_sender s \<or> \<not> s_stop s\<rbrakk>
     \<Longrightarrow> step P s (fail_with (failure_new ''cancelled'' e 0) s)"
| c_error: "\<lbrakk>\<not> s_drain s; \<not> s_finished s; s_results s = (j, Inl f) # rs\<rbrakk>
     \<Longrightarrow> step P s ((fail_with f s)\<lparr>s_results := rs, s_drain := True\<rparr>)"
| c_segment: "\<lbrakk>\<not> s_drain s; \<not> s_finished s; s_results s = (j, Inr c) # rs\<rbrakk>
     \<Longrightarrow> step P s (s\<lparr>s_results := rs, s_pending := bt_insert j c (s_pending s), s_drain := True\<rparr>)"
| c_append: "\<lbrakk>s_drain s; bt_get (s_pending s) (out_next (s_out s)) = Some c;
      append_segment env (c_data c) (c_size c) (s_out s) = (Inr (), x);
      s_sender s \<longrightarrow> length (s_jobs s) < n_workers P\<rbrakk>
     \<Longrightarrow> step P s (release_slot P (s\<lparr>s_pending := bt_remove (out_next (s_out s)) (s_pending s),
           s_out := checkpoint_output (json_codec P) False secs ev now x\<rparr>))"
| c_append_fails: "\<lbrakk>s_drain s; bt_get (s_pending s) (out_next (s_out s)) = Some c; can_fail_append P;
      append_segment env (c_data c) (c_size c) (s_out s) = (Inl e, x)\<rbrakk>
     \<Longrightarrow> step P s ((fail_with (failure_new ''storage_error''
            (''failed to append segment '' @ show_nat (out_next (s_out s)) @ '': '' @ e) (c_attempts c)) s)
           \<lparr>s_pending := bt_remove (out_next (s_out s)) (s_pending s), s_out := x, s_drain := False\<rparr>)"
| c_drained: "\<lbrakk>s_drain s; bt_get (s_pending s) (out_next (s_out s)) = None\<rbrakk>
     \<Longrightarrow> step P s (s\<lparr>s_drain := False\<rparr>)"
| c_closed: "\<lbrakk>\<not> s_drain s; \<not> s_finished s; s_results s = []; \<forall>w \<in> set (s_workers s). w = Quit\<rbrakk>
     \<Longrightarrow> step P s (s\<lparr>s_finished := True\<rparr>)"

inductive reachable :: "setting \<Rightarrow> sys \<Rightarrow> sys \<Rightarrow> bool" for P s0 where
  start: "reachable P s0 s0"
| steps: "reachable P s0 s \<Longrightarrow> step P s t \<Longrightarrow> reachable P s0 t"

section \<open>The end of the call\<close>

definition finish_download :: "setting \<Rightarrow> faults \<Rightarrow> unit res \<Rightarrow> nat \<Rightarrow> save_event \<Rightarrow> nat \<Rightarrow> sys \<Rightarrow>
    (failure + nat) \<times> seg_output" where
  "finish_download P fault check secs ev now s =
     (case s_failure s of
        Some f \<Rightarrow> (Inl f, checkpoint_output (json_codec P) True secs ev now (s_out s))
      | None \<Rightarrow>
          if out_next (s_out s) \<noteq> n_segments P \<or> out_bytes (s_out s) = 0 then
            (Inl (failure_new ''integrity_failed'' (''segmented transfer incomplete: assembled '' @
               show_nat (out_next (s_out s)) @ '' of '' @ show_nat (n_segments P) @ '' segments'') 0), s_out s)
          else (case publish_output fault check (s_out s) of
            (Inl e, x) \<Rightarrow> (Inl (failure_new ''storage_error'' (''failed to publish segmented output: '' @ e) 0), x)
          | (Inr _, x) \<Rightarrow> (Inr (out_bytes x), x)))"

section \<open>Jobs in flight\<close>

fun worker_job :: "worker \<Rightarrow> nat list" where
  "worker_job Idle = []"
| "worker_job (Busy j) = [j]"
| "worker_job (Sending j r) = [j]"
| "worker_job Quit = []"

definition worker_jobs :: "worker list \<Rightarrow> nat multiset" where
  "worker_jobs ws = mset (concat (map worker_job ws))"

definition flight :: "sys \<Rightarrow> nat multiset" where
  "flight s = mset (s_jobs s) + worker_jobs (s_workers s) + mset (map fst (s_results s)) +
     mset_set (fst ` set (s_pending s))"

lemma worker_jobs_update:
  assumes "i < length ws"
  shows "worker_jobs (ws[i := w]) + mset (worker_job (ws ! i)) = worker_jobs ws + mset (worker_job w)"
proof -
  have "ws = take i ws @ ws ! i # drop (Suc i) ws" using assms by (rule id_take_nth_drop)
  then have "worker_jobs ws = worker_jobs (take i ws) + mset (worker_job (ws ! i)) + worker_jobs (drop (Suc i) ws)"
    unfolding worker_jobs_def by (metis append.assoc concat.simps(2) concat_append list.simps(9) map_append mset_append)
  moreover have "worker_jobs (ws[i := w]) = worker_jobs (take i ws) + mset (worker_job w) + worker_jobs (drop (Suc i) ws)"
    using assms by (simp add: worker_jobs_def upd_conv_take_nth_drop)
  ultimately show ?thesis by simp
qed

text \<open>
  The numbers of the jobs: \<open>F\<close> the jobs in flight, \<open>nxt\<close> the next segment to append, \<open>nj\<close> the
  next job to queue.
\<close>

definition core :: "nat \<Rightarrow> nat \<Rightarrow> nat multiset \<Rightarrow> nat \<Rightarrow> nat \<Rightarrow> bool \<Rightarrow> bool \<Rightarrow> bool" where
  "core n w F nxt nj sender failed \<longleftrightarrow>
     (\<forall>j. count F j \<le> 1) \<and> set_mset F \<subseteq> {nxt..<nj} \<and> nxt \<le> nj \<and> nj \<le> n \<and> nj \<le> nxt + w \<and>
     (\<not> failed \<longrightarrow> set_mset F = {nxt..<nj} \<and> sender = (nj < n)) \<and>
     (sender \<longrightarrow> \<not> failed \<and> nj = nxt + w \<and> nj < n)"

lemma core_fail: "core n w F nxt nj sender failed \<Longrightarrow> F' \<subseteq># F \<Longrightarrow> core n w F' nxt nj False True"
  unfolding core_def by (meson mset_subset_eq_count order_trans set_mset_mono)

lemma core_append:
  assumes "core n w (add_mset nxt F) nxt nj sender failed"
  shows "core n w (if sender then add_mset nj F else F) (Suc nxt) (if sender then Suc nj else nj)
      (sender \<and> Suc nj \<noteq> n) failed"
proof -
  have cc: "count (add_mset nxt F) j \<le> 1" for j using assms by (simp add: core_def)
  have c: "count F nxt = 0" "count F j \<le> 1" for j
    using cc [of nxt] cc [of j] by (simp_all split: if_splits)
  have sub: "set_mset F \<subseteq> {Suc nxt..<nj}"
  proof
    fix j assume "j \<in># F"
    then have "j \<noteq> nxt" using c(1) by (metis count_eq_zero_iff)
    then show "j \<in> {Suc nxt..<nj}" using assms \<open>j \<in># F\<close> by (auto simp: core_def subset_iff)
  qed
  then have nj: "count F nj = 0" by (metis atLeastLessThan_iff count_eq_zero_iff less_irrefl subset_iff)
  have b: "nxt < nj" "nj \<le> n" "nj \<le> nxt + w" using assms by (auto simp: core_def)
  have full: "set_mset F = {Suc nxt..<nj} \<and> sender = (nj < n)" if "\<not> failed"
  proof -
    have "insert nxt (set_mset F) = {nxt..<nj}" "sender = (nj < n)"
      using assms that unfolding core_def set_mset_add_mset_insert by blast+
    have "{Suc nxt..<nj} \<subseteq> set_mset F"
    proof
      fix j assume "j \<in> {Suc nxt..<nj}"
      then have "j \<in> insert nxt (set_mset F)" "j \<noteq> nxt"
        using \<open>insert nxt (set_mset F) = {nxt..<nj}\<close> by auto
      then show "j \<in># F" by simp
    qed
    then show ?thesis using sub \<open>sender = (nj < n)\<close> by blast
  qed
  have s: "sender \<Longrightarrow> \<not> failed \<and> nj = nxt + w \<and> nj < n" using assms by (simp add: core_def)
  show ?thesis
  proof (cases sender)
    case True
    then show ?thesis using c nj sub b s full unfolding core_def by auto
  next
    case False
    then show ?thesis using c sub b full unfolding core_def by auto
  qed
qed

lemma core_size: "core n w F nxt nj sender failed \<Longrightarrow> size F \<le> w"
proof -
  assume c: "core n w F nxt nj sender failed"
  have "F \<subseteq># mset_set {nxt..<nj}"
  proof (rule mset_subset_eqI)
    fix j
    have "count F j \<le> 1" "j \<in># F \<Longrightarrow> j \<in> {nxt..<nj}" using c by (auto simp: core_def)
    then show "count F j \<le> count (mset_set {nxt..<nj}) j"
      by (cases "j \<in># F") (simp_all add: not_in_iff)
  qed
  then have "size F \<le> nj - nxt" using size_mset_mono by fastforce
  moreover have "nj \<le> nxt + w" using c by (simp add: core_def)
  ultimately show ?thesis by linarith
qed

section \<open>The invariant\<close>

definition good :: "(nat \<Rightarrow> bytes) \<Rightarrow> nat \<Rightarrow> completed \<Rightarrow> bool" where
  "good seg j c \<longleftrightarrow> c_data c = seg j \<and> seg j \<noteq> [] \<and> c_size c = length (seg j)"

text \<open>What the servers promise: segment \<open>j\<close>, when it is fetched, is \<open>seg j\<close>.\<close>

definition good_setting :: "setting \<Rightarrow> (nat \<Rightarrow> bytes) \<Rightarrow> bool" where
  "good_setting P seg \<longleftrightarrow> (\<forall>j c. fetched P j (Inr c) \<longrightarrow> good seg j c) \<and> codec_ok (json_codec P)"

definition numbers_ok :: "setting \<Rightarrow> sys \<Rightarrow> bool" where
  "numbers_ok P s \<longleftrightarrow> core (n_segments P) (n_workers P) (flight s) (out_next (s_out s)) (s_next_job s)
     (s_sender s) (s_failure s \<noteq> None)"

definition content_ok :: "(nat \<Rightarrow> bytes) \<Rightarrow> sys \<Rightarrow> bool" where
  "content_ok seg s \<longleftrightarrow>
     (\<forall>j c. Sending j (Inr c) \<in> set (s_workers s) \<longrightarrow> good seg j c) \<and>
     (\<forall>j c. (j, Inr c) \<in> set (s_results s) \<longrightarrow> good seg j c) \<and>
     (\<forall>j c. (j, c) \<in> set (s_pending s) \<longrightarrow> good seg j c)"

definition output_ok :: "setting \<Rightarrow> bytes \<Rightarrow> (nat \<Rightarrow> bytes) \<Rightarrow> dir_entry \<Rightarrow> sys \<Rightarrow> bool" where
  "output_ok P fp seg old s \<longleftrightarrow>
     out_ok (json_codec P) fp seg (s_out s) \<and> \<not> o_promoted (s_out s) \<and> d_target (o_disk (s_out s)) = old \<and>
     (aligned (s_out s) \<or> out_next (s_out s) \<notin># flight s \<and> s_failure s \<noteq> None)"

definition no_error :: "sys \<Rightarrow> bool" where
  "no_error s \<longleftrightarrow> (\<forall>j f. (j, Inl f) \<notin> set (s_results s))"

definition control_ok :: "setting \<Rightarrow> sys \<Rightarrow> bool" where
  "control_ok P s \<longleftrightarrow>
     bt_ok (s_pending s) \<and> s_stop s = (s_failure s \<noteq> None) \<and> length (s_workers s) \<le> n_workers P \<and>
     (\<not> s_drain s \<longrightarrow> out_next (s_out s) \<notin> fst ` set (s_pending s)) \<and>
     (s_finished s \<longrightarrow> \<not> s_drain s \<and> s_results s = [] \<and> (\<forall>w \<in> set (s_workers s). w = Quit)) \<and>
     (s_failure s = None \<longrightarrow> length (s_workers s) = n_workers P \<and>
        (\<not> can_cancel P \<and> no_error s \<and> Quit \<in> set (s_workers s) \<longrightarrow> s_jobs s = [] \<and> \<not> s_sender s))"

definition sys_ok :: "setting \<Rightarrow> bytes \<Rightarrow> (nat \<Rightarrow> bytes) \<Rightarrow> dir_entry \<Rightarrow> sys \<Rightarrow> bool" where
  "sys_ok P fp seg old s \<longleftrightarrow>
     numbers_ok P s \<and> content_ok seg s \<and> output_ok P fp seg old s \<and> control_ok P s"

lemma fail_with_simps [simp]:
  "s_next_job (fail_with f s) = s_next_job s" "s_jobs (fail_with f s) = s_jobs s" "\<not> s_sender (fail_with f s)"
  "s_workers (fail_with f s) = s_workers s" "s_results (fail_with f s) = s_results s"
  "s_pending (fail_with f s) = s_pending s" "s_stop (fail_with f s)" "s_failure (fail_with f s) \<noteq> None"
  "s_out (fail_with f s) = s_out s" "s_drain (fail_with f s) = s_drain s" "s_finished (fail_with f s) = s_finished s"
  by (simp_all add: fail_with_def split: option.splits)

lemma fail_with_some [simp]: "\<exists>g. s_failure (fail_with f s) = Some g"
  by (simp add: fail_with_def split: option.splits)

text \<open>The jobs in flight after each kind of step.\<close>

lemma flight_worker:
  assumes "i < length (s_workers s)" "s_workers s ! i = w0"
  shows "flight (s\<lparr>s_workers := (s_workers s)[i := w]\<rparr>) + mset (worker_job w0) = flight s + mset (worker_job w)"
  using worker_jobs_update [OF assms(1), of w] assms(2) by (simp add: flight_def ac_simps)

lemma flight_take:
  assumes "i < length (s_workers s)" "s_workers s ! i = Idle" "s_jobs s = j # js"
  shows "flight (s\<lparr>s_workers := (s_workers s)[i := Busy j], s_jobs := js\<rparr>) = flight s"
  using worker_jobs_update [OF assms(1), of "Busy j"] assms(2,3) by (simp add: flight_def)

lemma flight_send:
  assumes "i < length (s_workers s)" "s_workers s ! i = Sending j r" "worker_job w = []"
  shows "flight (s\<lparr>s_results := s_results s @ [(j, r)], s_workers := (s_workers s)[i := w]\<rparr>) = flight s"
  using worker_jobs_update [OF assms(1), of w] assms(2,3) by (simp add: flight_def ac_simps)

lemma flight_error:
  "s_results s = (j, r) # rs \<Longrightarrow> flight s = add_mset j (flight ((fail_with f s)\<lparr>s_results := rs, s_drain := d\<rparr>))"
  by (simp add: flight_def)

lemma flight_segment:
  assumes "s_results s = (j, Inr c) # rs" "j \<notin> fst ` set (s_pending s)"
  shows "flight (s\<lparr>s_results := rs, s_pending := bt_insert j c (s_pending s), s_drain := d\<rparr>) = flight s"
  using assms by (simp add: flight_def fst_bt_insert mset_set.insert)

lemma fst_bt_remove: "fst ` set (bt_remove k m) = fst ` set m - {k}"
  by (force simp: bt_remove_def)

lemma bt_get_key: "bt_get m k = Some v \<Longrightarrow> k \<in> fst ` set m"
  by (metis domI dom_map_of_conv_image_fst)

lemma flight_append:
  assumes "bt_get (s_pending s) k = Some c"
  shows "flight s = add_mset k (flight (s\<lparr>s_pending := bt_remove k (s_pending s)\<rparr>))"
proof -
  have "fst ` set (s_pending s) = insert k (fst ` set (bt_remove k (s_pending s)))"
    using bt_get_key [OF assms] by (auto simp: fst_bt_remove)
  moreover have "k \<notin> fst ` set (bt_remove k (s_pending s))" by (simp add: fst_bt_remove)
  ultimately show ?thesis by (simp add: flight_def mset_set.insert)
qed

text \<open>Fields the jobs in flight do not depend on.\<close>

lemma flight_frame [simp]:
  "flight (s\<lparr>s_out := x\<rparr>) = flight s" "flight (s\<lparr>s_drain := d\<rparr>) = flight s" "flight (s\<lparr>s_finished := b\<rparr>) = flight s"
  "flight (s\<lparr>s_next_job := n\<rparr>) = flight s" "flight (s\<lparr>s_sender := b\<rparr>) = flight s" "flight (fail_with f s) = flight s"
  by (simp_all add: flight_def)

lemma flight_jobs: "flight (s\<lparr>s_jobs := s_jobs s @ [j]\<rparr>) = add_mset j (flight s)"
  by (simp add: flight_def)

lemma good_pending: "content_ok seg s \<Longrightarrow> bt_get (s_pending s) k = Some c \<Longrightarrow> good seg k c"
  using map_of_SomeD by (fastforce simp: content_ok_def)

lemma set_update_in: "x \<in> set (ws[i := w]) \<Longrightarrow> x \<in> set ws \<or> x = w"
  using set_update_subset_insert by fastforce

lemma worker_step_ok:
  assumes "sys_ok P fp seg old s" "i < length (s_workers s)"
    and F: "flight t = flight s"
    and t: "t = s\<lparr>s_workers := (s_workers s)[i := w], s_jobs := js, s_results := rs\<rparr>"
    and new: "\<And>j c. w = Sending j (Inr c) \<Longrightarrow> good seg j c"
      "\<And>j c. (j, Inr c) \<in> set rs \<Longrightarrow> (j, Inr c) \<in> set (s_results s) \<or> good seg j c"
    and live: "s_workers s ! i \<noteq> Quit"
    and quit: "w = Quit \<Longrightarrow> s_failure s = None \<Longrightarrow> \<not> can_cancel P \<Longrightarrow> no_error t \<Longrightarrow> js = [] \<and> \<not> s_sender s"
      "s_jobs s = [] \<Longrightarrow> js = []" "set (s_results s) \<subseteq> set rs"
  shows "sys_ok P fp seg old t"
proof -
  have ok: "numbers_ok P s" "content_ok seg s" "output_ok P fp seg old s" "control_ok P s"
    using assms(1) by (simp_all add: sys_ok_def)
  have "\<not> s_finished s" using ok(4) assms(2) live by (auto simp: control_ok_def)
  moreover have "Quit \<in> set (s_workers t) \<Longrightarrow> Quit \<in> set (s_workers s) \<or> w = Quit"
    using set_update_in by (fastforce simp: t)
  moreover have "no_error t \<Longrightarrow> no_error s" using quit(3) by (auto simp: no_error_def t)
  ultimately have "control_ok P t" using ok(4) quit(1,2) by (auto simp: control_ok_def t)
  moreover have "numbers_ok P t" using ok(1) F by (simp add: numbers_ok_def t)
  moreover have "output_ok P fp seg old t" using ok(3) F by (simp add: output_ok_def t)
  moreover have "content_ok seg t"
  proof -
    have "good seg j c" if "Sending j (Inr c) \<in> set ((s_workers s)[i := w])" for j c
      using set_update_in [OF that] ok(2) new(1) by (auto simp: content_ok_def)
    moreover have "good seg j c" if "(j, Inr c) \<in> set rs" for j c
      using new(2) [OF that] ok(2) by (auto simp: content_ok_def)
    ultimately show ?thesis using ok(2) by (simp add: content_ok_def t)
  qed
  ultimately show ?thesis by (simp add: sys_ok_def)
qed

lemma quit_ok:
  assumes "sys_ok P fp seg old s" "i < length (s_workers s)" "s_workers s ! i = Idle"
    and "can_cancel P \<or> s_stop s \<or> s_jobs s = [] \<and> \<not> s_sender s"
  shows "sys_ok P fp seg old (s\<lparr>s_workers := (s_workers s)[i := Quit]\<rparr>)"
proof (rule worker_step_ok [OF assms(1,2), where w = Quit and js = "s_jobs s" and rs = "s_results s"])
  show "flight (s\<lparr>s_workers := (s_workers s)[i := Quit]\<rparr>) = flight s"
    using flight_worker [OF assms(2,3), of Quit] by simp
  show "s_jobs s = [] \<and> \<not> s_sender s" if "s_failure s = None" "\<not> can_cancel P"
    using assms(1,4) that by (auto simp: sys_ok_def control_ok_def)
qed (use assms(3) in simp_all)

lemma take_ok:
  assumes "sys_ok P fp seg old s" "i < length (s_workers s)" "s_workers s ! i = Idle" "s_jobs s = j # js"
  shows "sys_ok P fp seg old (s\<lparr>s_workers := (s_workers s)[i := Busy j], s_jobs := js\<rparr>)"
  by (rule worker_step_ok [OF assms(1,2), where w = "Busy j" and js = js and rs = "s_results s"])
    (use assms flight_take [OF assms(2-4)] in simp_all)

lemma fetched_ok:
  assumes "sys_ok P fp seg old s" "i < length (s_workers s)" "s_workers s ! i = Busy j" "fetched P j r" "good_setting P seg"
  shows "sys_ok P fp seg old (s\<lparr>s_workers := (s_workers s)[i := Sending j r]\<rparr>)"
proof (rule worker_step_ok [OF assms(1,2), where w = "Sending j r" and js = "s_jobs s" and rs = "s_results s"])
  show "flight (s\<lparr>s_workers := (s_workers s)[i := Sending j r]\<rparr>) = flight s"
    using flight_worker [OF assms(2,3), of "Sending j r"] by simp
  show "good seg j' c" if "Sending j r = Sending j' (Inr c)" for j' c
    using assms(4,5) that by (simp add: good_setting_def)
qed (use assms(3) in simp_all)

lemma send_ok:
  assumes "sys_ok P fp seg old s" "i < length (s_workers s)" "s_workers s ! i = Sending j r"
  shows "sys_ok P fp seg old (s\<lparr>s_results := s_results s @ [(j, r)],
      s_workers := (s_workers s)[i := (case r of Inl _ \<Rightarrow> Quit | Inr _ \<Rightarrow> Idle)]\<rparr>)"
proof (rule worker_step_ok [OF assms(1,2), where w = "case r of Inl _ \<Rightarrow> Quit | Inr _ \<Rightarrow> Idle" and js = "s_jobs s"
      and rs = "s_results s @ [(j, r)]"])
  show "flight (s\<lparr>s_results := s_results s @ [(j, r)],
      s_workers := (s_workers s)[i := (case r of Inl _ \<Rightarrow> Quit | Inr _ \<Rightarrow> Idle)]\<rparr>) = flight s"
    by (rule flight_send [OF assms(2,3)]) (simp split: sum.splits)
  show "s_jobs s = [] \<and> \<not> s_sender s"
    if "(case r of Inl _ \<Rightarrow> Quit | Inr _ \<Rightarrow> Idle) = Quit"
      "no_error (s\<lparr>s_results := s_results s @ [(j, r)], s_workers := (s_workers s)[i := (case r of Inl _ \<Rightarrow> Quit | Inr _ \<Rightarrow> Idle)]\<rparr>)"
    using that by (cases r) (auto simp: no_error_def)
  have "Sending j r \<in> set (s_workers s)" using assms(2,3) nth_mem by metis
  then show "(j', Inr c) \<in> set (s_results s) \<or> good seg j' c" if "(j', Inr c) \<in> set (s_results s @ [(j, r)])" for j' c
    using that assms(1) by (auto simp: sys_ok_def content_ok_def)
qed (use assms(3) in \<open>auto split: sum.splits\<close>)

text \<open>The steps of the coordinator.\<close>

lemma fail_ok:
  assumes "sys_ok P fp seg old s" "\<not> s_finished s"
  shows "sys_ok P fp seg old (fail_with f s)"
  using assms core_fail [of "n_segments P" "n_workers P" "flight s" "out_next (s_out s)" "s_next_job s" "s_sender s"
      "s_failure s \<noteq> None" "flight s"]
  by (auto simp: sys_ok_def numbers_ok_def content_ok_def output_ok_def control_ok_def)

lemma error_ok:
  assumes "sys_ok P fp seg old s" "\<not> s_finished s" "s_results s = (j, Inl f) # rs"
  shows "sys_ok P fp seg old ((fail_with f s)\<lparr>s_results := rs, s_drain := True\<rparr>)" (is "sys_ok P fp seg old ?t")
proof -
  have F: "flight s = add_mset j (flight ?t)" by (rule flight_error [OF assms(3)])
  have "sys_ok P fp seg old (fail_with f s)" using fail_ok assms by blast
  moreover have "numbers_ok P ?t"
    using assms(1) core_fail [of "n_segments P" "n_workers P" "flight s" "out_next (s_out s)" "s_next_job s" "s_sender s"
      "s_failure s \<noteq> None" "flight ?t"] F
    by (simp add: sys_ok_def numbers_ok_def)
  ultimately show ?thesis using assms F
    by (auto simp: sys_ok_def content_ok_def output_ok_def control_ok_def)
qed

lemma segment_ok:
  assumes "sys_ok P fp seg old s" "\<not> s_finished s" "s_results s = (j, Inr c) # rs"
  shows "sys_ok P fp seg old (s\<lparr>s_results := rs, s_pending := bt_insert j c (s_pending s), s_drain := True\<rparr>)"
    (is "sys_ok P fp seg old ?t")
proof -
  have "count (flight s) j \<le> 1" using assms(1) by (simp add: sys_ok_def numbers_ok_def core_def)
  then have "count (mset_set (fst ` set (s_pending s))) j = 0" using assms(3) by (simp add: flight_def)
  then have "j \<notin> fst ` set (s_pending s)"
    by (metis count_mset_set(1) finite_imageI finite_set zero_neq_one)
  then have F: "flight ?t = flight s" by (rule flight_segment [OF assms(3)])
  have bt: "bt_ok (s_pending s)" using assms(1) by (simp add: sys_ok_def control_ok_def)
  have g: "good seg j c" using assms(1,3) by (auto simp: sys_ok_def content_ok_def)
  have ins: "(k, v) = (j, c) \<or> (k, v) \<in> set (s_pending s)" if "(k, v) \<in> set (bt_insert j c (s_pending s))" for k v
  proof -
    have "bt_get (bt_insert j c (s_pending s)) k = Some v"
      using that bt_distinct [OF bt_ok_insert [OF bt]] by simp
    then show ?thesis using bt_get_insert [OF bt, of j c k] map_of_SomeD by (auto split: if_splits)
  qed
  have "good seg k v" if "(k, v) \<in> set (bt_insert j c (s_pending s))" for k v
    using ins [OF that] g assms(1) by (auto simp: sys_ok_def content_ok_def)
  then have "content_ok seg ?t" using assms(1,3) by (simp add: sys_ok_def content_ok_def)
  then show ?thesis using assms F bt_ok_insert [OF bt]
    by (auto simp: sys_ok_def numbers_ok_def output_ok_def control_ok_def no_error_def)
qed

lemma drained_ok:
  assumes "sys_ok P fp seg old s" "s_drain s" "bt_get (s_pending s) (out_next (s_out s)) = None"
  shows "sys_ok P fp seg old (s\<lparr>s_drain := False\<rparr>)"
  using assms by (auto simp: sys_ok_def numbers_ok_def content_ok_def output_ok_def control_ok_def no_error_def map_of_eq_None_iff)

lemma closed_ok:
  assumes "sys_ok P fp seg old s" "\<not> s_drain s" "s_results s = []" "\<forall>w \<in> set (s_workers s). w = Quit"
  shows "sys_ok P fp seg old (s\<lparr>s_finished := True\<rparr>)"
  using assms by (auto simp: sys_ok_def numbers_ok_def content_ok_def output_ok_def control_ok_def no_error_def)

lemma release_slot_simps [simp]:
  "s_workers (release_slot P s) = s_workers s" "s_results (release_slot P s) = s_results s"
  "s_pending (release_slot P s) = s_pending s" "s_stop (release_slot P s) = s_stop s"
  "s_failure (release_slot P s) = s_failure s" "s_out (release_slot P s) = s_out s"
  "s_drain (release_slot P s) = s_drain s" "s_finished (release_slot P s) = s_finished s"
  "no_error (release_slot P s) = no_error s"
  by (simp_all add: release_slot_def no_error_def)

lemma release_slot_numbers:
  "s_next_job (release_slot P s) = (if s_sender s then Suc (s_next_job s) else s_next_job s)"
  "s_sender (release_slot P s) = (s_sender s \<and> Suc (s_next_job s) \<noteq> n_segments P)"
  "flight (release_slot P s) = (if s_sender s then add_mset (s_next_job s) (flight s) else flight s)"
  by (simp_all add: release_slot_def flight_def)

lemma drain_get:
  assumes "sys_ok P fp seg old s" "bt_get (s_pending s) (out_next (s_out s)) = Some c"
  shows "good seg (out_next (s_out s)) c" "aligned (s_out s)" "\<not> s_finished s \<or> \<not> s_drain s"
proof -
  have "out_next (s_out s) \<in># flight s" using flight_append [OF assms(2)] by simp
  then show "aligned (s_out s)" using assms(1) by (simp add: sys_ok_def output_ok_def)
  show "good seg (out_next (s_out s)) c" using good_pending [OF _ assms(2)] assms(1) by (simp add: sys_ok_def)
  show "\<not> s_finished s \<or> \<not> s_drain s" using assms(1) by (auto simp: sys_ok_def control_ok_def)
qed

lemma append_ok:
  assumes ok: "sys_ok P fp seg old s" and P: "good_setting P seg" and d: "s_drain s"
    and g: "bt_get (s_pending s) (out_next (s_out s)) = Some c"
    and a: "append_segment env (c_data c) (c_size c) (s_out s) = (Inr (), x)"
  shows "sys_ok P fp seg old (release_slot P (s\<lparr>s_pending := bt_remove (out_next (s_out s)) (s_pending s),
      s_out := checkpoint_output (json_codec P) False secs ev now x\<rparr>))" (is "sys_ok P fp seg old (release_slot P ?t)")
proof -
  let ?n = "out_next (s_out s)" let ?y = "checkpoint_output (json_codec P) False secs ev now x"
  let ?u = "s\<lparr>s_pending := bt_remove ?n (s_pending s)\<rparr>"
  have c: "good seg ?n c" "aligned (s_out s)" and fin: "\<not> s_finished s" using drain_get [OF ok g] d by auto
  have s: "numbers_ok P s" "content_ok seg s" "output_ok P fp seg old s" "control_ok P s"
    using ok by (simp_all add: sys_ok_def)
  have x: "out_ok (json_codec P) fp seg x" "aligned x" "out_next x = Suc ?n" "o_disk x = o_disk (s_out s)" "\<not> o_promoted x"
    using append_segment_ok [OF _ c(2) _ _ a, of "json_codec P" fp seg] c(1) s(3) by (auto simp: good_def output_ok_def)
  have cj: "codec_ok (json_codec P)" using P by (simp add: good_setting_def)
  have y: "out_ok (json_codec P) fp seg ?y" "aligned ?y" "out_next ?y = Suc ?n" "\<not> o_promoted ?y"
    using checkpoint_output_ok [OF cj x(1), of False secs ev now] x by auto
  have yt: "d_target (o_disk ?y) = d_target (o_disk x)"
    by (simp add: checkpoint_output_def save_checkpoint_def Let_def split: save_event.splits)
  have F: "flight s = add_mset ?n (flight ?u)" by (rule flight_append [OF g])
  have "flight ?t = flight ?u" by (simp add: flight_def)
  then have "numbers_ok P (release_slot P ?t)"
    using core_append [of "n_segments P" "n_workers P" ?n "flight ?u" "s_next_job s" "s_sender s" "s_failure s \<noteq> None"] s(1) F
    by (cases "s_sender s") (simp_all add: numbers_ok_def y release_slot_numbers)
  moreover have "content_ok seg (release_slot P ?t)" using s(2) by (auto simp: content_ok_def bt_remove_def)
  moreover have "output_ok P fp seg old (release_slot P ?t)" using y yt x(4) s(3) by (simp add: output_ok_def)
  moreover have "control_ok P (release_slot P ?t)"
    using s(4) d fin bt_ok_remove by (auto simp: control_ok_def release_slot_def no_error_def)
  ultimately show ?thesis by (simp add: sys_ok_def)
qed

lemma append_fails_ok:
  assumes ok: "sys_ok P fp seg old s" and d: "s_drain s"
    and g: "bt_get (s_pending s) (out_next (s_out s)) = Some c"
    and a: "append_segment env (c_data c) (c_size c) (s_out s) = (Inl e, x)"
  shows "sys_ok P fp seg old ((fail_with f s)\<lparr>s_pending := bt_remove (out_next (s_out s)) (s_pending s),
      s_out := x, s_drain := False\<rparr>)" (is "sys_ok P fp seg old ?t")
proof -
  let ?n = "out_next (s_out s)" let ?u = "s\<lparr>s_pending := bt_remove ?n (s_pending s)\<rparr>"
  have c: "good seg ?n c" "aligned (s_out s)" and fin: "\<not> s_finished s" using drain_get [OF ok g] d by auto
  have s: "numbers_ok P s" "content_ok seg s" "output_ok P fp seg old s" "control_ok P s"
    using ok by (simp_all add: sys_ok_def)
  have x: "out_ok (json_codec P) fp seg x" "out_next x = ?n" "o_disk x = o_disk (s_out s)" "\<not> o_promoted x"
    using append_segment_ok [OF _ c(2) _ _ a, of "json_codec P" fp seg] c(1) s(3) by (auto simp: good_def output_ok_def)
  have F: "flight s = add_mset ?n (flight ?u)" by (rule flight_append [OF g])
  have Ft: "flight ?t = flight ?u" by (simp add: flight_def)
  have "count (flight s) ?n \<le> 1" using s(1) by (simp add: numbers_ok_def core_def)
  then have n: "?n \<notin># flight ?t" using F Ft by (simp add: not_in_iff)
  have "numbers_ok P ?t"
    using core_fail [of "n_segments P" "n_workers P" "flight s" ?n "s_next_job s" "s_sender s" "s_failure s \<noteq> None" "flight ?t"]
      s(1) F Ft by (simp add: numbers_ok_def x)
  moreover have "content_ok seg ?t" using s(2) by (auto simp: content_ok_def bt_remove_def)
  moreover have "output_ok P fp seg old ?t" using x s(3) n by (simp add: output_ok_def)
  moreover have "control_ok P ?t"
    using s(4) d fin bt_ok_remove [of "s_pending s" ?n] x(2)
    by (simp add: control_ok_def fst_bt_remove)
  ultimately show ?thesis by (simp add: sys_ok_def)
qed

lemma step_ok:
  assumes "step P s t" "sys_ok P fp seg old s" "good_setting P seg"
  shows "sys_ok P fp seg old t"
  using assms(1)
proof cases
  case (w_quit i)
  then show ?thesis using quit_ok assms(2) by blast
next
  case (w_take i j js)
  then show ?thesis using take_ok assms(2) by blast
next
  case (w_fetched i j r)
  then show ?thesis using fetched_ok assms(2,3) by blast
next
  case (w_send i j r)
  then show ?thesis using send_ok assms(2) by blast
next
  case (c_cancel e)
  then show ?thesis using fail_ok assms(2) by blast
next
  case (c_error j f rs)
  then show ?thesis using error_ok assms(2) by blast
next
  case (c_segment j c rs)
  then show ?thesis using segment_ok assms(2) by blast
next
  case (c_append c env x secs ev now)
  then show ?thesis using append_ok assms(2,3) by blast
next
  case (c_append_fails c env e x)
  then show ?thesis using append_fails_ok assms(2) by blast
next
  case c_drained
  then show ?thesis using drained_ok assms(2) by blast
next
  case c_closed
  then show ?thesis using closed_ok assms(2) by blast
qed

lemma reachable_ok: "reachable P s0 s \<Longrightarrow> sys_ok P fp seg old s0 \<Longrightarrow> good_setting P seg \<Longrightarrow> sys_ok P fp seg old s"
  by (induction rule: reachable.induct) (auto intro: step_ok)

lemma start_ok:
  assumes "out_ok (json_codec P) fp seg x" "aligned x" "out_next x \<le> n_segments P" "\<not> o_promoted x"
    and "n_workers P = worker_count p (n_segments P) (out_next x)"
    and "spawned \<le> n_workers P" "spawn_failure = None \<Longrightarrow> spawned = n_workers P"
  shows "sys_ok P fp seg (d_target (o_disk x)) (start_workers P spawn_failure spawned x)"
proof -
  let ?n = "out_next x" let ?nj = "?n + n_workers P"
  have w: "?nj \<le> n_segments P" using assms(3,5) by (simp add: worker_count_def)
  define u where "u k = \<lparr>s_next_job = ?nj, s_jobs = [?n..<?nj], s_sender = (?nj < n_segments P),
               s_workers = replicate k Idle, s_results = [], s_pending = [], s_stop = False,
               s_failure = None, s_out = x, s_drain = False, s_finished = False\<rparr>" for k
  have jobs: "worker_jobs (replicate k Idle) = {#}" for k
    by (induction k) (simp_all add: worker_jobs_def)
  have F: "flight (u k) = mset_set {?n..<?nj}" for k by (simp add: flight_def jobs mset_upt u_def)
  have sel: "s_out (u k) = x" "s_next_job (u k) = ?nj" "s_sender (u k) = (?nj < n_segments P)" "s_failure (u k) = None"
    "s_workers (u k) = replicate k Idle" "s_results (u k) = []" "s_pending (u k) = []" "\<not> s_stop (u k)"
    "\<not> s_drain (u k)" "\<not> s_finished (u k)" for k
    by (simp_all add: u_def)
  have st: "start_workers P spawn_failure spawned x =
      (case spawn_failure of None \<Rightarrow> u spawned | Some f \<Rightarrow> fail_with f (u spawned))"
    unfolding start_workers_def u_def Let_def by (rule refl)
  show ?thesis
  proof (cases spawn_failure)
    case None
    have "numbers_ok P (u spawned)" using w by (simp add: numbers_ok_def core_def F sel count_mset_set')
    then show ?thesis using assms(1,2,4,6) assms(7) [OF None] unfolding st unfolding None option.case
      by (simp add: sel sys_ok_def content_ok_def output_ok_def control_ok_def)
  next
    case (Some f)
    have "numbers_ok P (fail_with f (u spawned))" using w by (simp add: numbers_ok_def core_def F sel count_mset_set')
    then show ?thesis using assms(1,2,4,6) unfolding st unfolding Some option.case
      by (simp add: sel sys_ok_def content_ok_def output_ok_def control_ok_def)
  qed
qed

section \<open>Every run ends\<close>

fun worker_weight :: "worker \<Rightarrow> nat" where
  "worker_weight Idle = 1"
| "worker_weight (Busy j) = 6"
| "worker_weight (Sending j r) = 5"
| "worker_weight Quit = 0"

definition weight :: "setting \<Rightarrow> sys \<Rightarrow> nat" where
  "weight P s =
     (if s_sender s then 7 * (n_segments P - s_next_job s) else 0) + 6 * length (s_jobs s) +
     sum_list (map worker_weight (s_workers s)) + 3 * length (s_results s) + card (fst ` set (s_pending s)) +
     (if s_drain s then 1 else 0) + (if s_sender s \<or> \<not> s_stop s then 1 else 0) + (if s_finished s then 0 else 1)"

lemma worker_weight_update:
  "i < length ws \<Longrightarrow> sum_list (map worker_weight (ws[i := w])) + worker_weight (ws ! i) =
     sum_list (map worker_weight ws) + worker_weight w"
proof (induction ws arbitrary: i)
  case (Cons x ws)
  then show ?case by (cases i) auto
qed simp

lemma pending_removed:
  assumes "bt_get m k = Some c"
  shows "Suc (card (fst ` set (bt_remove k m))) = card (fst ` set m)"
  using bt_get_key [OF assms] unfolding fst_bt_remove by (intro card_Suc_Diff1) auto

lemma step_weight:
  assumes "step P s t" "sys_ok P fp seg old s"
  shows "weight P t < weight P s"
  using assms(1)
proof cases
  case (w_quit i)
  then show ?thesis using worker_weight_update [of i "s_workers s" Quit] by (simp add: weight_def)
next
  case (w_take i j js)
  then show ?thesis using worker_weight_update [of i "s_workers s" "Busy j"] by (simp add: weight_def)
next
  case (w_fetched i j r)
  then show ?thesis using worker_weight_update [of i "s_workers s" "Sending j r"] by (simp add: weight_def)
next
  case (w_send i j r)
  then show ?thesis
    using worker_weight_update [of i "s_workers s" "case r of Inl _ \<Rightarrow> Quit | Inr _ \<Rightarrow> Idle"]
    by (simp add: weight_def split: sum.splits)
next
  case (c_cancel e)
  then show ?thesis by (auto simp: weight_def)
next
  case (c_error j f rs)
  then show ?thesis by (simp add: weight_def)
next
  case (c_segment j c rs)
  have "card (insert j (fst ` set (s_pending s))) \<le> Suc (card (fst ` set (s_pending s)))"
    by (simp add: card_insert_if)
  then show ?thesis using c_segment by (simp add: weight_def fst_bt_insert)
next
  case (c_append c env x secs ev now)
  have "s_sender s \<Longrightarrow> s_next_job s < n_segments P"
    using assms(2) by (simp add: sys_ok_def numbers_ok_def core_def)
  then show ?thesis using c_append pending_removed [OF c_append(3)]
    by (cases "s_sender s") (auto simp: weight_def release_slot_def)
next
  case (c_append_fails c env e x)
  then show ?thesis using pending_removed [OF c_append_fails(3)] by (simp add: weight_def)
next
  case c_drained
  then show ?thesis by (simp add: weight_def)
next
  case c_closed
  then show ?thesis by (simp add: weight_def)
qed

text \<open>A copy without failures succeeds.\<close>

definition calm :: append_env where
  "calm = \<lparr>ae_seek = Inr (), ae_copy = [], ae_set_len = True, ae_seek_back = True\<rparr>"

lemma append_calm: "c_size c = length (c_data c) \<Longrightarrow> fst (append_segment calm (c_data c) (c_size c) x) = Inr ()"
  by (simp add: append_segment_def calm_def Let_def)

lemma in_worker_jobs: "j \<in># worker_jobs ws \<Longrightarrow> \<exists>i < length ws. ws ! i = Busy j \<or> (\<exists>r. ws ! i = Sending j r)"
proof -
  assume "j \<in># worker_jobs ws"
  then have "\<exists>w \<in> set ws. j \<in> set (worker_job w)" by (auto simp: worker_jobs_def)
  then obtain i where i: "i < length ws" "j \<in> set (worker_job (ws ! i))" by (metis in_set_conv_nth)
  then have "ws ! i = Busy j \<or> (\<exists>r. ws ! i = Sending j r)" by (cases "ws ! i") auto
  then show ?thesis using i(1) by blast
qed

lemma jobs_room:
  assumes "sys_ok P fp seg old s" "bt_get (s_pending s) (out_next (s_out s)) = Some c"
  shows "length (s_jobs s) < n_workers P"
proof -
  have "size (flight s) \<le> n_workers P" using assms(1) core_size unfolding sys_ok_def numbers_ok_def by blast
  moreover have "0 < card (fst ` set (s_pending s))" using pending_removed [OF assms(2)] by simp
  ultimately show ?thesis by (simp add: flight_def)
qed

lemma drain_step:
  assumes "sys_ok P fp seg old s" "s_drain s"
  shows "\<exists>t. step P s t"
proof (cases "bt_get (s_pending s) (out_next (s_out s))")
  case None
  then show ?thesis using assms(2) step.c_drained by blast
next
  case (Some c)
  have "good seg (out_next (s_out s)) c" using drain_get [OF assms(1) Some] by blast
  then obtain x where "append_segment calm (c_data c) (c_size c) (s_out s) = (Inr (), x)"
    using append_calm [of c "s_out s"] by (cases "append_segment calm (c_data c) (c_size c) (s_out s)") (auto simp: good_def)
  then show ?thesis using assms(2) Some jobs_room [OF assms(1) Some] step.c_append by blast
qed

lemma idle_step:
  assumes ok: "sys_ok P fp seg old s" and "\<not> s_drain s" "s_results s = []"
    and i: "i < length (s_workers s)" "s_workers s ! i = Idle"
    and busy: "\<And>i j. i < length (s_workers s) \<Longrightarrow> s_workers s ! i = Busy j \<or> (\<exists>r. s_workers s ! i = Sending j r) \<Longrightarrow> \<exists>t. step P s t"
  shows "\<exists>t. step P s t"
proof -
  consider "s_jobs s \<noteq> []" | "s_jobs s = []" "\<not> s_sender s" | "s_jobs s = []" "s_sender s" by blast
  then show ?thesis
  proof cases
    case 1
    then show ?thesis using i step.w_take by (metis list.exhaust)
  next
    case 2
    then show ?thesis using i step.w_quit by blast
  next
    case 3
    have "core (n_segments P) (n_workers P) (flight s) (out_next (s_out s)) (s_next_job s) (s_sender s) (s_failure s \<noteq> None)"
      using ok by (simp add: sys_ok_def numbers_ok_def)
    moreover have "length (s_workers s) \<le> n_workers P" using ok by (simp add: sys_ok_def control_ok_def)
    ultimately have "out_next (s_out s) \<in># flight s" using 3(2) i(1) unfolding core_def by force
    moreover have "out_next (s_out s) \<notin> fst ` set (s_pending s)" using ok assms(2) by (simp add: sys_ok_def control_ok_def)
    ultimately have "out_next (s_out s) \<in># worker_jobs (s_workers s)" using 3 assms(3) by (simp add: flight_def)
    then show ?thesis using in_worker_jobs busy by blast
  qed
qed

lemma progress_step:
  assumes ok: "sys_ok P fp seg old s" and nf: "\<not> s_finished s" and total: "\<And>j. \<exists>r. fetched P j r"
  shows "\<exists>t. step P s t"
proof (cases "s_drain s \<or> s_results s \<noteq> []")
  case True
  then show ?thesis
  proof (cases "s_drain s")
    case False
    then obtain j r rs where "s_results s = (j, r) # rs" using True by (metis list.exhaust surj_pair)
    then show ?thesis using False nf step.c_error step.c_segment by (cases r) blast+
  qed (rule drain_step [OF ok])
next
  case False
  then have nd: "\<not> s_drain s" "s_results s = []" by simp_all
  have wk: "length (s_workers s) \<le> n_workers P" using ok by (simp add: sys_ok_def control_ok_def)
  have busy: "\<exists>t. step P s t"
    if "i < length (s_workers s)" "s_workers s ! i = Busy j \<or> (\<exists>r. s_workers s ! i = Sending j r)" for i j
  proof -
    have "length (s_results s) < n_workers P" using nd that(1) wk by simp
    then show ?thesis using that total [of j] step.w_fetched step.w_send by blast
  qed
  show ?thesis
  proof (cases "\<forall>w \<in> set (s_workers s). w = Quit")
    case True
    then show ?thesis using nd nf step.c_closed by blast
  next
    case False
    then obtain i where i: "i < length (s_workers s)" "s_workers s ! i \<noteq> Quit" by (metis in_set_conv_nth)
    then show ?thesis using busy [OF i(1)] idle_step [OF ok nd i(1) _ busy] by (cases "s_workers s ! i") auto
  qed
qed

lemma no_infinite_run:
  assumes "sys_ok P fp seg old (f 0)" "good_setting P seg" "\<And>i. step P (f i) (f (Suc i))"
  shows False
proof -
  have "sys_ok P fp seg old (f i)" for i
    by (induction i) (use assms step_ok in blast)+
  then have "weight P (f (Suc i)) < weight P (f i)" for i using step_weight assms(3) by blast
  then have "\<exists>i. \<not> weight P (f (Suc i)) < weight P (f i)"
    using infinite_descent_measure by (metis wf_no_infinite_down_chainE wf_measure in_measure)
  then show False using \<open>\<And>i. weight P (f (Suc i)) < weight P (f i)\<close> by blast
qed

text \<open>Without cancellation and without an error the whole list is assembled.\<close>

definition faultless :: "setting \<Rightarrow> bool" where
  "faultless P \<longleftrightarrow> \<not> can_cancel P \<and> \<not> can_fail_append P \<and> (\<forall>j f. \<not> fetched P j (Inl f))"

definition no_failures :: "sys \<Rightarrow> bool" where
  "no_failures s \<longleftrightarrow> s_failure s = None \<and> no_error s \<and> (\<forall>j f. Sending j (Inl f) \<notin> set (s_workers s))"

lemma step_faultless:
  assumes "step P s t" "faultless P" "no_failures s"
  shows "no_failures t"
  using assms(1)
proof cases
  case (w_send i j r)
  have "Sending j r \<in> set (s_workers s)" using w_send nth_mem by metis
  then obtain c where "r = Inr c" using assms(3) by (cases r) (auto simp: no_failures_def)
  then show ?thesis using w_send assms(3) set_update_in [of _ "s_workers s" i Idle]
    by (fastforce simp: no_failures_def no_error_def)
next
  case (w_fetched i j r)
  then show ?thesis using assms(2,3) set_update_in [of _ "s_workers s" i "Sending j r"]
    by (fastforce simp: no_failures_def no_error_def faultless_def)
next
  case (w_quit i)
  then show ?thesis using assms(3) set_update_in [of _ "s_workers s" i Quit]
    by (fastforce simp: no_failures_def no_error_def)
next
  case (w_take i j js)
  then show ?thesis using assms(3) set_update_in [of _ "s_workers s" i "Busy j"]
    by (fastforce simp: no_failures_def no_error_def)
qed (use assms(2,3) in \<open>auto simp: no_failures_def no_error_def faultless_def\<close>)

lemma finished_complete:
  assumes "sys_ok P fp seg old s" "s_finished s" "no_failures s" "faultless P" "0 < n_workers P \<or> out_next (s_out s) = n_segments P"
  shows "out_next (s_out s) = n_segments P \<and> o_file (s_out s) = joined seg (n_segments P)"
proof -
  have c: "control_ok P s" "output_ok P fp seg old s" and n: "numbers_ok P s" using assms(1) by (simp_all add: sys_ok_def)
  have f: "s_failure s = None" "no_error s" "\<not> can_cancel P" using assms(3,4) by (simp_all add: no_failures_def faultless_def)
  have q: "\<not> s_drain s" "s_results s = []" "\<forall>w \<in> set (s_workers s). w = Quit" "length (s_workers s) = n_workers P"
    using c(1) assms(2) f by (simp_all add: control_ok_def)
  have al: "aligned (s_out s)" "out_ok (json_codec P) fp seg (s_out s)" using c(2) f by (simp_all add: output_ok_def)
  have "out_next (s_out s) = n_segments P"
  proof (cases "n_workers P = 0")
    case False
    then have "Quit \<in> set (s_workers s)" using q(3,4) by (metis length_0_conv last_in_set)
    then have jobs: "s_jobs s = []" "\<not> s_sender s" using c(1) f by (simp_all add: control_ok_def)
    have "worker_jobs (s_workers s) = {#}"
      using q(3) in_worker_jobs [of _ "s_workers s"] nth_mem by (metis multi_nonempty_split union_single_eq_member worker.distinct(9,11) worker.distinct)
    then have "flight s = mset_set (fst ` set (s_pending s))" using jobs q by (simp add: flight_def)
    moreover have "out_next (s_out s) \<notin> fst ` set (s_pending s)" using c(1) q by (simp add: control_ok_def)
    ultimately have "out_next (s_out s) \<notin># flight s" by simp
    then show ?thesis using n f jobs(2) by (auto simp: numbers_ok_def core_def)
  qed (use assms(5) in simp)
  then show ?thesis using joined_all [OF al(2,1)] by simp
qed

section \<open>The properties of the call\<close>

text \<open>
  The setting of one call: segment \<open>j\<close> meets one of the surroundings \<open>serves j\<close> allows, and its
  worker runs \<^verbatim>\<open>fetch\<close> there.
\<close>

definition segment_setting :: "host \<Rightarrow> transfer_policy \<Rightarrow> (nat \<Rightarrow> (int \<Rightarrow> attempt_env) \<Rightarrow> bool) \<Rightarrow> nat \<Rightarrow> nat \<Rightarrow>
    bool \<Rightarrow> bool \<Rightarrow> codec \<Rightarrow> setting" where
  "segment_setting h p serves n next cancel fail J =
     \<lparr>n_segments = n, n_workers = worker_count p n next,
      fetched = (\<lambda>j r. \<exists>env. serves j env \<and> fst (fetch h p j env) = Some r),
      can_cancel = cancel, can_fail_append = fail, json_codec = J\<rparr>"

text \<open>
  What is assumed of the servers: a body that arrives whole with a successful status is the
  content of the segment.  They may fail in every other way.
\<close>

definition honest :: "(nat \<Rightarrow> (int \<Rightarrow> attempt_env) \<Rightarrow> bool) \<Rightarrow> (nat \<Rightarrow> bytes) \<Rightarrow> bool" where
  "honest serves seg \<longleftrightarrow>
     (\<forall>j env i. serves j env \<longrightarrow> (\<forall>n. at_random (env i) = Some n \<longrightarrow> n < 2 ^ 64) \<and>
        (\<forall>r. at_stream (env i) = Inr r \<and> 200 \<le> r_status r \<and> r_status r < 300 \<and>
           snd (read_body (at_body (env i)) []) = Inr () \<longrightarrow> body_bytes (at_body (env i)) = seg j))"

lemma segment_setting_simps [simp]:
  "n_segments (segment_setting h p serves n next cancel fail J) = n"
  "n_workers (segment_setting h p serves n next cancel fail J) = worker_count p n next"
  "can_cancel (segment_setting h p serves n next cancel fail J) = cancel"
  "can_fail_append (segment_setting h p serves n next cancel fail J) = fail"
  "json_codec (segment_setting h p serves n next cancel fail J) = J"
  "fetched (segment_setting h p serves n next cancel fail J) j r \<longleftrightarrow>
     (\<exists>env. serves j env \<and> fst (fetch h p j env) = Some r)"
  by (simp_all add: segment_setting_def)

lemma segment_setting_good:
  assumes "policy_ok p" "honest serves seg" "codec_ok J"
  shows "good_setting (segment_setting h p serves n next cancel fail J) seg"
proof -
  have "good seg j c" if env: "serves j env" "fst (fetch h p j env) = Some (Inr c)" for j env c
  proof -
    obtain waits where f: "fetch h p j env = (Some (Inr c), waits)" using env(2) by (metis prod.collapse)
    have r: "\<And>i n. at_random (env i) = Some n \<Longrightarrow> n < 2 ^ 64" using assms(2) env(1) unfolding honest_def by blast
    have "good_segment p env c" using fetch_props [OF assms(1) _ f] r by blast
    then show ?thesis using assms(2) env(1) unfolding good_segment_def honest_def good_def by metis
  qed
  then show ?thesis using assms(3) by (auto simp: good_setting_def)
qed

lemma segment_setting_total:
  assumes "policy_ok p" "honest serves seg" "\<And>j. \<exists>env. serves j env"
  shows "\<exists>r. fetched (segment_setting h p serves n next cancel fail J) j r"
proof -
  obtain env where env: "serves j env" using assms(3) by blast
  have r: "\<And>i n. at_random (env i) = Some n \<Longrightarrow> n < 2 ^ 64" using assms(2) env unfolding honest_def by blast
  show ?thesis using env r fetch_props [OF assms(1), of env h j "fst (fetch h p j env)" "snd (fetch h p j env)"] by auto
qed

text \<open>A call up to the start of its workers.\<close>

definition started :: "codec \<Rightarrow> faults \<Rightarrow> bytes \<Rightarrow> nat \<Rightarrow> bool \<Rightarrow> disk \<Rightarrow> seg_output \<Rightarrow> setting \<Rightarrow> failure option \<Rightarrow> nat \<Rightarrow> bool" where
  "started J fault fp n keep d x P spawn_failure spawned \<longleftrightarrow>
     fst (open_output J fault fp n keep d) = Inr x \<and>
     spawned \<le> n_workers P \<and> (spawn_failure = None \<longrightarrow> spawned = n_workers P)"

lemma started_ok:
  assumes "started J fault fp n keep d x P spawn_failure spawned" "disk_ok J fp seg d"
    and "P = segment_setting h p serves n (out_next x) cancel fail J"
  shows "sys_ok P fp seg (d_target d) (start_workers P spawn_failure spawned x)" "out_next x \<le> n"
proof -
  have "open_output J fault fp n keep d = (Inr x, snd (open_output J fault fp n keep d))"
    using assms(1) by (metis prod.collapse started_def)
  from open_output_ok [OF assms(2) this]
  have x: "out_ok J fp seg x" "aligned x" "out_next x \<le> n" "\<not> o_promoted x" "d_target (o_disk x) = d_target d" by auto
  show "sys_ok P fp seg (d_target d) (start_workers P spawn_failure spawned x)"
    using start_ok [of P fp seg x p spawned spawn_failure] x assms(1) by (simp add: assms(3) started_def)
  show "out_next x \<le> n" by fact
qed

lemma finish_ok:
  assumes "sys_ok P fp seg old s" "good_setting P seg" "finish_download P fault check secs ev now s = (r, y)"
  shows "case r of
      Inl _ \<Rightarrow> d_target (o_disk y) = old \<and> out_ok (json_codec P) fp seg y \<and> \<not> o_promoted y
    | Inr n \<Rightarrow> d_target (o_disk y) = Regular (joined seg (n_segments P)) \<and> n = length (joined seg (n_segments P)) \<and>
        d_staged (o_disk y) = Absent \<and> o_promoted y"
proof (cases "s_failure s")
  case None
  have o: "out_ok (json_codec P) fp seg (s_out s)" "aligned (s_out s)" "\<not> o_promoted (s_out s)" "d_target (o_disk (s_out s)) = old"
    using assms(1) None by (simp_all add: sys_ok_def output_ok_def)
  have j: "o_file (s_out s) = joined seg (out_next (s_out s))" "length (joined seg (out_next (s_out s))) = out_bytes (s_out s)"
    using joined_all [OF o(1,2)] o(2) by (simp_all add: aligned_def)
  obtain pr z where z: "publish_output fault check (s_out s) = (pr, z)" by (cases "publish_output fault check (s_out s)")
  have "out_bytes z = out_bytes (s_out s)"
    using z by (auto simp: publish_output_def Let_def split: option.splits sum.splits)
  then show ?thesis using assms(3) None o j z publish_output_ok [OF z o(3)]
    by (cases pr) (auto simp: finish_download_def split: if_splits)
next
  case (Some f)
  have o: "out_ok (json_codec P) fp seg (s_out s)" "\<not> o_promoted (s_out s)" "d_target (o_disk (s_out s)) = old"
    using assms(1) by (simp_all add: sys_ok_def output_ok_def)
  have J: "codec_ok (json_codec P)" using assms(2) by (simp add: good_setting_def)
  have "d_target (o_disk (checkpoint_output (json_codec P) True secs ev now (s_out s))) = d_target (o_disk (s_out s))"
    by (simp add: checkpoint_output_def save_checkpoint_def Let_def split: save_event.splits)
  then show ?thesis using assms(3) Some o checkpoint_output_ok [OF J o(1), of True secs ev now]
    by (auto simp: finish_download_def)
qed

text \<open>
  C1. Segments are assembled in order, whatever the interleaving of the workers, the failures of
  the servers, of the file system and of single copies, and the cancellations: at every moment the
  output file starts with the first \<open>out_next\<close> segments; if the process dies then, the staged file
  and its checkpoint on the disk can be resumed; if the call succeeds, the target is the
  concatenation of all segments; if it fails, the target is what it was before, and what is left
  on the disk can again be resumed.
\<close>

theorem segments_assembled_in_order:
  assumes "p = from_capabilities t T sigma capabilities" "honest serves seg" "codec_ok J" "disk_ok J fp seg d"
    and "started J fault fp n keep d x P spawn_failure spawned"
    and "P = segment_setting h p serves n (out_next x) cancel fail J"
    and "reachable P (start_workers P spawn_failure spawned x) s"
    and "finish_download P fault2 check secs ev now s = (r, y)"
  shows "take (out_bytes (s_out s)) (o_file (s_out s)) = joined seg (out_next (s_out s)) \<and>
      out_next (s_out s) \<le> n \<and> disk_ok J fp seg (crash_disk (s_out s)) \<and>
      (case r of Inr bytes \<Rightarrow> d_target (o_disk y) = Regular (joined seg n) \<and> bytes = length (joined seg n)
       | Inl f \<Rightarrow> d_target (o_disk y) = d_target d) \<and>
      disk_ok J fp seg (drop_output fault3 y)"
proof -
  have p: "policy_ok p" unfolding assms(1) by (rule from_capabilities_ok)
  have P: "good_setting P seg" unfolding assms(6) by (rule segment_setting_good [OF p assms(2,3)])
  have s: "sys_ok P fp seg (d_target d) s"
    by (rule reachable_ok [OF assms(7) started_ok(1) [OF assms(5,4,6)] P])
  have sel: "json_codec P = J" "n_segments P = n" by (simp_all add: assms(6))
  have o: "out_ok J fp seg (s_out s)" "\<not> o_promoted (s_out s)" "out_next (s_out s) \<le> n"
    using s by (auto simp: sys_ok_def output_ok_def numbers_ok_def core_def sel)
  show ?thesis using o crash_disk_ok [OF o(1,2)] finish_ok [OF s P assms(8)] drop_output_ok [of J fp seg y fault3]
    by (cases r) (auto simp: sel out_ok_def)
qed

lemma policy_workers:
  assumes "policy_ok p"
  shows "worker_count p n next \<le> 8" "int (worker_count p n next) \<le> max_parallel_segments p" "next < n \<Longrightarrow> 0 < worker_count p n next"
  using assms by (auto simp: worker_count_def policy_ok_def)

text \<open>
  C33. The number of segments in flight is bounded: the jobs queued, being fetched, waiting to be
  sent, in the result channel or completed but not yet appended are pairwise different and never
  more than the policy's \<open>max_parallel_segments\<close>, so that no more segment files exist at a time;
  and when the coordinator frees a slot, the bounded job channel has room, so that its \<^verbatim>\<open>send\<close>
  never waits for a worker.
\<close>

theorem segments_in_flight:
  assumes "p = from_capabilities t T sigma capabilities" "honest serves seg" "codec_ok J" "disk_ok J fp seg d"
    and "started J fault fp n keep d x P spawn_failure spawned"
    and "P = segment_setting h p serves n (out_next x) cancel fail J"
    and "reachable P (start_workers P spawn_failure spawned x) s"
  shows "int (size (flight s)) \<le> max_parallel_segments p \<and> size (flight s) \<le> 8 \<and> (\<forall>j. count (flight s) j \<le> 1) \<and>
      set_mset (flight s) \<subseteq> {out_next (s_out s)..<n} \<and>
      (bt_get (s_pending s) (out_next (s_out s)) \<noteq> None \<longrightarrow> length (s_jobs s) < n_workers P)"
proof -
  have p: "policy_ok p" unfolding assms(1) by (rule from_capabilities_ok)
  have P: "good_setting P seg" unfolding assms(6) by (rule segment_setting_good [OF p assms(2,3)])
  have s: "sys_ok P fp seg (d_target d) s"
    by (rule reachable_ok [OF assms(7) started_ok(1) [OF assms(5,4,6)] P])
  have c: "core n (n_workers P) (flight s) (out_next (s_out s)) (s_next_job s) (s_sender s) (s_failure s \<noteq> None)"
    using s unfolding sys_ok_def numbers_ok_def by (simp add: assms(6))
  have w: "n_workers P \<le> 8" "int (n_workers P) \<le> max_parallel_segments p"
    using policy_workers [OF p, of n "out_next x"] by (simp_all add: assms(6))
  have "set_mset (flight s) \<subseteq> {out_next (s_out s)..<n}" "\<forall>j. count (flight s) j \<le> 1"
    using c unfolding core_def by auto
  then show ?thesis using core_size [OF c] w jobs_room [OF s] by auto
qed


lemma reachable_trans: "reachable P t u \<Longrightarrow> reachable P s t \<Longrightarrow> reachable P s u"
  by (induction rule: reachable.induct) (auto intro: reachable.steps)

lemma can_finish:
  assumes "sys_ok P fp seg old s" "good_setting P seg" "\<And>j. \<exists>r. fetched P j r"
  shows "\<exists>t. reachable P s t \<and> s_finished t"
  using assms(1)
proof (induction "weight P s" arbitrary: s rule: less_induct)
  case less
  show ?case
  proof (cases "s_finished s")
    case True
    then show ?thesis using reachable.start by blast
  next
    case False
    then obtain t where t: "step P s t" using progress_step [OF less.prems _ assms(3)] by blast
    then obtain u where "reachable P t u" "s_finished u"
      using less.hyps [OF step_weight [OF t less.prems] step_ok [OF t less.prems assms(2)]] by blast
    then show ?thesis using reachable_trans reachable.steps [OF reachable.start t] by blast
  qed
qed

lemma sender_stays_off: "reachable P s0 s \<Longrightarrow> \<not> s_sender s0 \<Longrightarrow> \<not> s_sender s"
proof (induction rule: reachable.induct)
  case (steps s t)
  from steps.hyps(2) show ?case
    using steps.IH steps.prems by cases (simp_all add: release_slot_def)
qed

lemma reachable_faultless: "reachable P s0 s \<Longrightarrow> faultless P \<Longrightarrow> no_failures s0 \<Longrightarrow> no_failures s"
  by (induction rule: reachable.induct) (auto intro: step_faultless)

text \<open>
  C2. Every call ends.  No run of the workers and the coordinator is infinite; a run that has not
  finished can go on as long as every started fetch ends in some way, so no interleaving
  deadlocks on the two bounded channels; and when nothing fails and nobody cancels, the finished
  run has assembled every segment.
\<close>

theorem segments_always_finish:
  assumes "p = from_capabilities t T sigma capabilities" "honest serves seg" "codec_ok J" "disk_ok J fp seg d"
    and "started J fault fp n keep d x P spawn_failure spawned"
    and "P = segment_setting h p serves n (out_next x) cancel fail J"
    and "\<And>j. \<exists>env. serves j env"
    and "s0 = start_workers P spawn_failure spawned x"
  shows "\<not> (\<exists>f. f 0 = s0 \<and> (\<forall>i. step P (f i) (f (Suc i)))) \<and>
      (\<forall>s. reachable P s0 s \<longrightarrow> \<not> s_finished s \<longrightarrow> (\<exists>u. step P s u)) \<and>
      (\<exists>s. reachable P s0 s \<and> s_finished s) \<and>
      (\<forall>s. reachable P s0 s \<longrightarrow> s_finished s \<longrightarrow> faultless P \<longrightarrow> spawn_failure = None \<longrightarrow>
         s_failure s = None \<and> out_next (s_out s) = n \<and> o_file (s_out s) = joined seg n)"
proof -
  have p: "policy_ok p" unfolding assms(1) by (rule from_capabilities_ok)
  have P: "good_setting P seg" unfolding assms(6) by (rule segment_setting_good [OF p assms(2,3)])
  have s0: "sys_ok P fp seg (d_target d) s0" and x: "out_next x \<le> n"
    using started_ok [OF assms(5,4,6)] unfolding assms(8) .
  have total: "\<And>j. \<exists>r. fetched P j r" unfolding assms(6) using segment_setting_total [OF p assms(2,7)] by blast
  have done1: "s_failure s = None \<and> out_next (s_out s) = n \<and> o_file (s_out s) = joined seg n"
    if s: "reachable P s0 s" "s_finished s" "faultless P" "spawn_failure = None" for s
  proof -
    have ok: "sys_ok P fp seg (d_target d) s" by (rule reachable_ok [OF s(1) s0 P])
    have nf: "no_failures s"
      using s(4) by (intro reachable_faultless [OF s(1,3)])
        (auto simp: assms(8) start_workers_def no_failures_def no_error_def Let_def)
    have "out_next (s_out s) = n" if w: "n_workers P = 0"
    proof -
      have "n \<le> out_next x" using w policy_workers(3) [OF p] by (metis assms(6) less_irrefl not_le segment_setting_simps(2))
      then have "\<not> s_sender s0" using w s(4) by (simp add: assms(8) start_workers_def) (simp add: assms(6))
      then have "\<not> s_sender s" by (rule sender_stays_off [OF s(1)])
      then show ?thesis using ok nf w by (auto simp: sys_ok_def numbers_ok_def core_def no_failures_def assms(6))
    qed
    then show ?thesis using finished_complete [OF ok s(2) nf s(3)] nf by (auto simp: assms(6) no_failures_def)
  qed
  have 1: False if "f 0 = s0" "\<forall>i. step P (f i) (f (Suc i))" for f
    using no_infinite_run [OF _ P, of fp "d_target d" f] s0 that by simp
  have 2: "\<exists>u. step P s u" if "reachable P s0 s" "\<not> s_finished s" for s
    by (rule progress_step [OF reachable_ok [OF that(1) s0 P] that(2) total])
  show ?thesis using 1 2 can_finish [OF s0 P total] done1 by (intro conjI) blast+
qed

section \<open>A sample call\<close>

definition unary_codec :: codec where
  "unary_codec = \<lparr>
     render = (\<lambda>k. put_nat (nat (k_version k)) @ put_nat (nat (- k_version k)) @ put_nat (k_next_index k) @
       put_nat (k_bytes k) @ put_nat (k_updated_at k) @ k_fingerprint k),
     parse = (\<lambda>s. let (v, s1) = take_nat s; (w, s2) = take_nat s1; (i, s3) = take_nat s2; (b, s4) = take_nat s3;
         (u, fp) = take_nat s4
       in Some \<lparr>k_version = int v - int w, k_fingerprint = fp, k_next_index = i, k_bytes = b, k_updated_at = u\<rparr>)\<rparr>"

lemma unary_codec_ok: "codec_ok unary_codec"
  by (simp add: codec_ok_def unary_codec_def take_put)

definition sample_seg :: "nat \<Rightarrow> bytes" where
  "sample_seg j = (if j = 0 then ''ab'' else ''cd'')"

definition sample_env :: "nat \<Rightarrow> attempt_env" where
  "sample_env j = \<lparr>at_check = Inr (), at_file = Inr (), at_stream = Inr \<lparr>r_status = 200, r_headers = []\<rparr>,
     at_body = [Data (sample_seg j)], at_failed_check = Inr (), at_wait = Inr (), at_random = None\<rparr>"

definition sample_serves :: "nat \<Rightarrow> (int \<Rightarrow> attempt_env) \<Rightarrow> bool" where
  "sample_serves j env \<longleftrightarrow> env = (\<lambda>_. sample_env j)"

definition sample_out :: seg_output where
  "sample_out = \<lparr>o_disk = sample_disk\<lparr>d_staged := Regular []\<rparr>, o_file = [], o_pos = 0, o_state = empty_checkpoint ''fp'',
     o_keep = True, o_promoted = False, o_saved_bytes = 0\<rparr>"

definition sample_setting :: setting where
  "sample_setting = segment_setting sample_host sample_policy sample_serves 2 (out_next sample_out) False False unary_codec"

definition sample_start :: sys where
  "sample_start = start_workers sample_setting None (n_workers sample_setting) sample_out"

lemma sample_honest: "honest sample_serves sample_seg"
  by (simp add: honest_def sample_serves_def sample_env_def sample_seg_def body_bytes_def)

lemma sample_disk_ok: "disk_ok unary_codec ''fp'' sample_seg sample_disk"
  by (simp add: disk_ok_def sample_disk_def)

lemma sample_started:
  "started unary_codec (\<lambda>_. None) ''fp'' 2 True sample_disk sample_out sample_setting None (n_workers sample_setting)"
  by (simp add: started_def open_output_def try_io_def not_regular_def sample_disk_def load_checkpoint_def Let_def
      open_staged_def staged_content_def loaded_checkpoint_def empty_checkpoint_def sample_out_def set_len_def)

lemma sample_fetch: "fst (fetch sample_host sample_policy j (\<lambda>_. sample_env j)) =
    Some (Inr \<lparr>c_data = sample_seg j, c_size = 2, c_attempts = 1\<rparr>)"
proof -
  have m: "nat (max_attempts sample_policy) = Suc 7" by (simp add: sample_policy_fields)
  have "isl (parse_i64 [])" by code_simp
  then have "content_length \<lparr>r_status = 200, r_headers = []\<rparr> = -1"
    by (auto simp: content_length_def header_def unwrap_or_def isl_def split: sum.splits)
  then show ?thesis unfolding fetch_def m fetch_from.simps(2)
    by (simp add: sample_env_def try_stream_def check_length_def sample_seg_def)
qed

lemma sample_faultless: "faultless sample_setting"
  by (simp add: faultless_def sample_setting_def sample_serves_def sample_fetch)

lemma sample_finished:
  "\<exists>s. reachable sample_setting sample_start s \<and> s_finished s \<and> s_failure s = None \<and> out_next (s_out s) = 2 \<and>
     o_file (s_out s) = ''abcd'' \<and> 0 < out_bytes (s_out s)"
proof -
  have p: "policy_ok sample_policy" unfolding sample_policy_def by (rule from_capabilities_ok)
  have P: "good_setting sample_setting sample_seg"
    unfolding sample_setting_def by (rule segment_setting_good [OF p sample_honest unary_codec_ok])
  have s0: "sys_ok sample_setting ''fp'' sample_seg Absent sample_start"
    using started_ok(1) [OF sample_started sample_disk_ok sample_setting_def]
    by (simp add: sample_start_def sample_disk_def)
  have total: "\<And>j. \<exists>r. fetched sample_setting j r"
    by (simp add: sample_setting_def sample_serves_def sample_fetch)
  obtain s where s: "reachable sample_setting sample_start s" "s_finished s" using can_finish [OF s0 P total] by blast
  have nf: "no_failures s"
    by (intro reachable_faultless [OF s(1) sample_faultless])
      (auto simp: sample_start_def start_workers_def no_failures_def no_error_def Let_def)
  have ok: "sys_ok sample_setting ''fp'' sample_seg Absent s" by (rule reachable_ok [OF s(1) s0 P])
  have "0 < n_workers sample_setting"
    unfolding sample_setting_def segment_setting_simps
    by (rule policy_workers(3) [OF p]) (simp add: sample_out_def empty_checkpoint_def)
  then have f: "out_next (s_out s) = 2" "o_file (s_out s) = ''abcd''"
    using finished_complete [OF ok s(2) nf sample_faultless]
    by (auto simp: sample_setting_def joined_def sample_seg_def numeral_2_eq_2)
  moreover have "0 < out_bytes (s_out s)" using ok f(1) by (auto simp: sys_ok_def output_ok_def out_ok_def)
  ultimately show ?thesis using s nf by (auto simp: no_failures_def)
qed

theorem segments_assembled_in_order_witness:
  "\<exists>s bytes y. reachable sample_setting sample_start s \<and>
     finish_download sample_setting (\<lambda>_. None) (Inr ()) 0 Saved 0 s = (Inr bytes, y) \<and>
     bytes = 4 \<and> d_target (o_disk y) = Regular ''abcd''"
proof -
  obtain s where s: "reachable sample_setting sample_start s" "s_failure s = None" "out_next (s_out s) = 2" "0 < out_bytes (s_out s)"
    using sample_finished by blast
  then have f: "\<exists>n y. finish_download sample_setting (\<lambda>_. None) (Inr ()) 0 Saved 0 s = (Inr n, y)"
    by (simp add: finish_download_def publish_output_def sample_setting_def)
  then obtain n y where y: "finish_download sample_setting (\<lambda>_. None) (Inr ()) 0 Saved 0 s = (Inr n, y)" by blast
  have "n = 4 \<and> d_target (o_disk y) = Regular ''abcd''"
    using segments_assembled_in_order [OF sample_policy_def sample_honest unary_codec_ok sample_disk_ok sample_started
      sample_setting_def s(1) [unfolded sample_start_def] y]
    by (simp add: joined_def sample_seg_def numeral_2_eq_2)
  then show ?thesis using s(1) y by blast
qed

theorem segments_in_flight_witness:
  "size (flight sample_start) \<le> 8 \<and> set_mset (flight sample_start) \<subseteq> {0..<2}"
  using segments_in_flight [OF sample_policy_def sample_honest unary_codec_ok sample_disk_ok sample_started
      sample_setting_def reachable.start]
  by (simp add: sample_start_def start_workers_def sample_out_def empty_checkpoint_def Let_def)

theorem segments_always_finish_witness:
  "\<exists>s. reachable sample_setting sample_start s \<and> s_finished s \<and> o_file (s_out s) = ''abcd''"
  using segments_always_finish [OF sample_policy_def sample_honest unary_codec_ok sample_disk_ok sample_started
      sample_setting_def _ sample_start_def] sample_faultless
  by (fastforce simp: sample_serves_def joined_def sample_seg_def numeral_2_eq_2)

section \<open>A fetched segment is whole\<close>

text \<open>
  C34. A fetch ends: within the policy's number of attempts it gives either a failure or a segment,
  and waits at most two minutes before each further attempt.  The segment is one whole body: one
  attempt got a successful response, its body was read to the end without an error, it is not
  empty and has the length that the response announced, if it announced one.  No bytes of an
  earlier attempt remain in it.
\<close>

theorem segment_fetch_is_whole:
  assumes "p = from_capabilities t T sigma capabilities" "\<And>i r. at_random (env i) = Some r \<Longrightarrow> r < 2 ^ 64"
    and "fetch h p index env = (r, waits)"
  shows "r \<noteq> None \<and> int (length waits) \<le> max_attempts p \<and> (\<forall>w \<in> set waits. w \<le> 120 * 1000000000) \<and>
      (\<forall>c. r = Some (Inr c) \<longrightarrow> good_segment p env c)"
  using fetch_props [OF _ assms(2,3)] from_capabilities_ok [of t T sigma capabilities] by (simp add: assms(1))

theorem segment_fetch_is_whole_witness:
  "\<exists>c. fst (fetch sample_host sample_policy 0 (\<lambda>_. sample_env 0)) = Some (Inr c) \<and> c_data c = ''ab'' \<and>
     good_segment sample_policy (\<lambda>_. sample_env 0) c"
proof -
  have r: "\<And>i r. at_random ((\<lambda>_. sample_env 0) i) = Some r \<Longrightarrow> r < 2 ^ 64" by (simp add: sample_env_def)
  obtain waits where f: "fetch sample_host sample_policy 0 (\<lambda>_. sample_env 0) =
      (Some (Inr \<lparr>c_data = ''ab'', c_size = 2, c_attempts = 1\<rparr>), waits)"
    using sample_fetch [of 0] by (metis prod.collapse sample_seg_def)
  have "good_segment sample_policy (\<lambda>_. sample_env 0) \<lparr>c_data = ''ab'', c_size = 2, c_attempts = 1\<rparr>"
    using segment_fetch_is_whole [OF sample_policy_def r f] by simp
  then show ?thesis using f by simp
qed

end
