(* ===== verification/PartFile.thy ===== *)
theory PartFile
  imports SegmentFetch "HOL-Library.Sublist"
begin

text \<open>
  The staged file of a plain or chunked download and its checkpoint
  (rust\_backend/crates/extensions/src/download/store.rs).  The directory is the \<open>disk\<close> of
  SegmentFetch: the target, the \<^verbatim>\<open>.partial\<close> file and the checkpoint next to it.
\<close>

section \<open>State\<close>

record part_state =
  ps_version :: int
  ps_fingerprint :: bytes
  ps_validator :: bytes
  ps_bytes :: nat
  ps_total :: int
  ps_updated_at :: nat

record part_codec =
  put_state :: "part_state \<Rightarrow> bytes"
  get_state :: "bytes \<Rightarrow> part_state option"

record part_file =
  pf_disk :: disk
  pf_file :: bytes
  pf_pos :: nat
  pf_state :: part_state
  pf_restored :: bool
  pf_keep :: bool
  pf_promoted :: bool
  pf_saved_bytes :: nat

definition default_state :: part_state where
  "default_state = \<lparr>ps_version = 0, ps_fingerprint = [], ps_validator = [], ps_bytes = 0, ps_total = 0, ps_updated_at = 0\<rparr>"

section \<open>Opening\<close>

definition load_part :: "part_codec \<Rightarrow> faults \<Rightarrow> bytes \<Rightarrow> dir_entry \<Rightarrow> part_state option" where
  "load_part J fault fp e =
     (case e of
        Regular data \<Rightarrow>
          if fault 3 \<noteq> None \<or> 1048576 < length data then None
          else (case get_state J data of
            None \<Rightarrow> None
          | Some k \<Rightarrow>
              if ps_version k = 1 \<and> ps_fingerprint k \<noteq> [] \<and> ps_fingerprint k = fp \<and>
                 ps_validator k \<noteq> [] \<and> 0 < ps_bytes k then Some k else None)
      | _ \<Rightarrow> None)"

text \<open>An error after the value is built drops it again.\<close>

definition drop_opened :: "faults \<Rightarrow> bool \<Rightarrow> disk \<Rightarrow> disk" where
  "drop_opened fault keep d =
     (if keep then d
      else (let d1 = (if fault 11 = None then d\<lparr>d_checkpoint := Absent\<rparr> else d)
            in if fault 12 = None then d1\<lparr>d_staged := Absent\<rparr> else d1))"

definition open_part_file :: "faults \<Rightarrow> bytes \<Rightarrow> bool \<Rightarrow> part_state option \<Rightarrow> disk \<Rightarrow> part_file res \<times> disk" where
  "open_part_file fault fp keep loaded d =
     try_io fault 6 d
      (let file = staged_content (d_staged d); d1 = d\<lparr>d_staged := Regular file\<rparr>;
           k0 = (case loaded of Some k \<Rightarrow> k | None \<Rightarrow> default_state);
           k = k0\<lparr>ps_fingerprint := fp, ps_bytes := min (ps_bytes k0) (length file)\<rparr>;
           file' = set_len file (ps_bytes k); d2 = d1\<lparr>d_staged := Regular file'\<rparr>
       in try_io fault 7 d1 (try_io fault 8 (drop_opened fault keep d1) (try_io fault 9 (drop_opened fault keep d1)
          (try_io fault 10 (drop_opened fault keep d2)
            (Inr \<lparr>pf_disk = d2, pf_file = file', pf_pos = ps_bytes k, pf_state = k, pf_restored = (loaded \<noteq> None),
                  pf_keep = keep, pf_promoted = False, pf_saved_bytes = ps_bytes k\<rparr>, d2)))))"

definition open_part :: "part_codec \<Rightarrow> faults \<Rightarrow> bytes \<Rightarrow> bool \<Rightarrow> disk \<Rightarrow> part_file res \<times> disk" where
  "open_part J fault fp keep d =
     try_io fault 0 d (try_io fault 1 d
      (if not_regular (d_staged d) then (Inl staging_error, d)
       else try_io fault 2 d
        (if not_regular (d_checkpoint d) then (Inl staging_error, d)
         else let loaded = (if keep then load_part J fault fp (d_checkpoint d) else None)
           in if loaded = None then
               (let d1 = d\<lparr>d_staged := Absent\<rparr>; d2 = d1\<lparr>d_checkpoint := Absent\<rparr>
                in try_io fault 4 d (try_io fault 5 d1 (open_part_file fault fp keep None d2)))
             else open_part_file fault fp keep loaded d)))"

section \<open>Rewinding, saving, publishing\<close>

text \<open>In \<open>rewind\<close> the file can be cut and the seek fail; \<open>fault\<close> 0 and 1 are its calls, 2 the removal in \<open>restart\<close>.\<close>

definition rewind :: "faults \<Rightarrow> nat \<Rightarrow> part_file \<Rightarrow> unit res \<times> part_file" where
  "rewind fault n x =
     (case fault 0 of Some e \<Rightarrow> (Inl e, x)
      | None \<Rightarrow>
          (let x1 = x\<lparr>pf_file := set_len (pf_file x) n\<rparr>
           in case fault 1 of Some e \<Rightarrow> (Inl e, x1)
              | None \<Rightarrow> (Inr (), x1\<lparr>pf_pos := n, pf_state := (pf_state x)\<lparr>ps_bytes := n\<rparr>\<rparr>)))"

definition restart :: "faults \<Rightarrow> part_file \<Rightarrow> unit res \<times> part_file" where
  "restart fault x =
     (case rewind fault 0 x of
        (Inl e, x1) \<Rightarrow> (Inl e, x1)
      | (Inr _, x1) \<Rightarrow>
          (let x2 = x1\<lparr>pf_state := (pf_state x1)\<lparr>ps_validator := []\<rparr>\<rparr>
           in case fault 2 of Some e \<Rightarrow> (Inl e, x2)
              | None \<Rightarrow> (Inr (), x2\<lparr>pf_disk := (pf_disk x2)\<lparr>d_checkpoint := Absent\<rparr>\<rparr>)))"

definition save_part :: "part_codec \<Rightarrow> save_event \<Rightarrow> nat \<Rightarrow> part_file \<Rightarrow> part_file" where
  "save_part J ev now x =
     (let k = (pf_state x)\<lparr>ps_version := 1, ps_updated_at := now\<rparr>
      in case ev of
           SyncFails \<Rightarrow> x
         | SaveFails \<Rightarrow> x\<lparr>pf_state := k\<rparr>
         | Saved \<Rightarrow> x\<lparr>pf_state := k, pf_disk := (pf_disk x)\<lparr>d_checkpoint := Regular (put_state J k)\<rparr>\<rparr>)"

definition checkpoint_part :: "part_codec \<Rightarrow> bool \<Rightarrow> nat \<Rightarrow> save_event \<Rightarrow> nat \<Rightarrow> part_file \<Rightarrow> part_file" where
  "checkpoint_part J force secs ev now x =
     (if \<not> pf_keep x \<or> ps_validator (pf_state x) = [] \<or> ps_bytes (pf_state x) = 0 \<or>
         (\<not> force \<and> ps_bytes (pf_state x) - pf_saved_bytes x < 8388608 \<and> secs < 5)
      then x else save_part J ev now (x\<lparr>pf_saved_bytes := ps_bytes (pf_state x)\<rparr>))"

definition publish_part :: "faults \<Rightarrow> unit res \<Rightarrow> part_file \<Rightarrow> unit res \<times> part_file" where
  "publish_part fault check x =
     (case fault 0 of Some e \<Rightarrow> (Inl e, x)
      | None \<Rightarrow>
     (case check of Inl e \<Rightarrow> (Inl e, x)
      | Inr _ \<Rightarrow>
     (case fault 1 of Some e \<Rightarrow> (Inl e, x)
      | None \<Rightarrow>
          (let d = (pf_disk x)\<lparr>d_target := Regular (pf_file x), d_staged := Absent\<rparr>
           in (Inr (), x\<lparr>pf_promoted := True, pf_disk := (if fault 2 = None then d\<lparr>d_checkpoint := Absent\<rparr> else d)\<rparr>)))))"

definition drop_part :: "faults \<Rightarrow> part_file \<Rightarrow> disk" where
  "drop_part fault x =
     (let d = (if pf_promoted x then pf_disk x else (pf_disk x)\<lparr>d_staged := Regular (pf_file x)\<rparr>)
      in if pf_promoted x \<or> \<not> pf_keep x then
           (let d1 = (if fault 0 = None then d\<lparr>d_checkpoint := Absent\<rparr> else d)
            in if \<not> pf_promoted x \<and> fault 1 = None then d1\<lparr>d_staged := Absent\<rparr> else d1)
         else d)"

section \<open>Receiving a body\<close>

text \<open>
  One event is one round of the read loop: a chunk that was written, with what the checkpoint after
  it meets; an error of the network; or a write that stops after some bytes.  An empty chunk, or
  the end of the list, is the end of the body.  The chunked download takes no checkpoint between
  two reads (\<open>saving\<close> is false).
\<close>

datatype body_event = Chunk bytes nat save_event nat | BodyFails bytes | DiskFails bytes nat bytes

datatype body_outcome = BodyEnded | BodyError bytes | DiskError bytes

definition write_part :: "bytes \<Rightarrow> part_file \<Rightarrow> part_file" where
  "write_part bs x = x\<lparr>pf_file := write_at (pf_file x) (pf_pos x) bs, pf_pos := pf_pos x + length bs\<rparr>"

fun receive_body :: "part_codec \<Rightarrow> bool \<Rightarrow> body_event list \<Rightarrow> part_file \<Rightarrow> body_outcome \<times> part_file" where
  "receive_body J saving [] x = (BodyEnded, x)"
| "receive_body J saving (Chunk bs secs ev now # es) x =
     (if bs = [] then (BodyEnded, x)
      else let x1 = write_part bs x;
               x2 = x1\<lparr>pf_state := (pf_state x1)\<lparr>ps_bytes := ps_bytes (pf_state x1) + length bs\<rparr>\<rparr>
        in receive_body J saving es (if saving then checkpoint_part J False secs ev now x2 else x2))"
| "receive_body J saving (BodyFails e # es) x = (BodyError e, x)"
| "receive_body J saving (DiskFails bs n e # es) x = (DiskError e, write_part (take n bs) x)"

section \<open>The state of the file against the resource\<close>

text \<open>
  \<open>content v\<close> is the resource whose validator is \<open>v\<close>, \<open>V\<close> the set of all resources that were ever
  served.  A state is good for a file when the file is the start of one of them, of the one the
  state's validator names if it has one, and its total length, if known, is that of the resource.
\<close>

definition good_part :: "bytes set \<Rightarrow> (bytes \<Rightarrow> bytes) \<Rightarrow> part_state \<Rightarrow> bytes \<Rightarrow> bool" where
  "good_part V content k f \<longleftrightarrow>
     (\<exists>c \<in> V. prefix f c \<and> (ps_validator k \<noteq> [] \<longrightarrow> c = content (ps_validator k)) \<and>
        (0 < ps_total k \<longrightarrow> ps_total k = int (length c)))"

definition usable_part :: "bytes \<Rightarrow> part_state \<Rightarrow> bool" where
  "usable_part fp k \<longleftrightarrow> ps_version k = 1 \<and> ps_fingerprint k = fp \<and> ps_validator k \<noteq> []"

definition part_disk_ok :: "part_codec \<Rightarrow> bytes set \<Rightarrow> (bytes \<Rightarrow> bytes) \<Rightarrow> bytes \<Rightarrow> disk \<Rightarrow> bool" where
  "part_disk_ok J V content fp d \<longleftrightarrow>
     (\<forall>data k. d_checkpoint d = Regular data \<longrightarrow> get_state J data = Some k \<longrightarrow> usable_part fp k \<longrightarrow>
        good_part V content k (take (ps_bytes k) (staged_content (d_staged d))))"

definition part_codec_ok :: "part_codec \<Rightarrow> bool" where
  "part_codec_ok J \<longleftrightarrow> (\<forall>k. get_state J (put_state J k) = Some k)"

text \<open>The total length stored in a checkpoint is that of the resource it names.\<close>

definition saved_total_ok :: "part_codec \<Rightarrow> bytes set \<Rightarrow> (bytes \<Rightarrow> bytes) \<Rightarrow> bytes \<Rightarrow> disk \<Rightarrow> bool" where
  "saved_total_ok J V content fp d \<longleftrightarrow>
     (\<forall>data k. d_checkpoint d = Regular data \<longrightarrow> get_state J data = Some k \<longrightarrow> usable_part fp k \<longrightarrow>
        good_part V content k [])"

definition whole :: "part_file \<Rightarrow> bool" where
  "whole x \<longleftrightarrow> pf_pos x = length (pf_file x) \<and> ps_bytes (pf_state x) = length (pf_file x)"

definition part_ok :: "part_codec \<Rightarrow> bytes set \<Rightarrow> (bytes \<Rightarrow> bytes) \<Rightarrow> bytes \<Rightarrow> part_file \<Rightarrow> bool" where
  "part_ok J V content fp x \<longleftrightarrow>
     whole x \<and> \<not> pf_promoted x \<and> saved_total_ok J V content fp (pf_disk x) \<and>
     (pf_file x \<noteq> [] \<longrightarrow> good_part V content (pf_state x) (pf_file x))"

lemma good_part_shorter: "good_part V content k f \<Longrightarrow> prefix g f \<Longrightarrow> good_part V content k g"
  unfolding good_part_def by (metis prefix_order.trans)

lemma good_part_Nil: "good_part V content k f \<Longrightarrow> good_part V content k []"
  by (rule good_part_shorter) simp_all

lemma write_part_whole:
  "pf_pos x = length (pf_file x) \<Longrightarrow>
    pf_file (write_part bs x) = pf_file x @ bs \<and> pf_pos (write_part bs x) = length (pf_file x @ bs)"
  by (simp add: write_part_def)

lemma write_part_frame [simp]:
  "pf_disk (write_part bs x) = pf_disk x" "pf_state (write_part bs x) = pf_state x"
  "pf_keep (write_part bs x) = pf_keep x" "pf_promoted (write_part bs x) = pf_promoted x"
  by (simp_all add: write_part_def)

text \<open>What is left when a call ends: no promise about positions, but the staged file is a start.\<close>

definition left_ok :: "part_codec \<Rightarrow> bytes set \<Rightarrow> (bytes \<Rightarrow> bytes) \<Rightarrow> bytes \<Rightarrow> part_file \<Rightarrow> bool" where
  "left_ok J V content fp x \<longleftrightarrow>
     \<not> pf_promoted x \<and> saved_total_ok J V content fp (pf_disk x) \<and>
     (pf_file x \<noteq> [] \<longrightarrow> (\<exists>c \<in> V. prefix (pf_file x) c))"

lemma part_left: "part_ok J V content fp x \<Longrightarrow> left_ok J V content fp x"
  by (auto simp: part_ok_def left_ok_def good_part_def)

lemma disk_saved: "part_disk_ok J V content fp d \<Longrightarrow> saved_total_ok J V content fp d"
  unfolding part_disk_ok_def saved_total_ok_def using good_part_Nil by blast

lemma load_part_usable:
  "load_part J fault fp e = Some k \<Longrightarrow> usable_part fp k \<and> 0 < ps_bytes k \<and>
     (\<exists>data. e = Regular data \<and> get_state J data = Some k)"
  by (auto simp: load_part_def usable_part_def split: dir_entry.splits if_splits option.splits)

lemma part_disk_trivial:
  "d_checkpoint d = Absent \<Longrightarrow> part_disk_ok J V content fp d"
  by (simp add: part_disk_ok_def)

lemma part_disk_shorter:
  assumes "part_disk_ok J V content fp d" "prefix f (staged_content (d_staged d))" "staged_content e = f"
  shows "part_disk_ok J V content fp (d\<lparr>d_staged := e\<rparr>)"
proof -
  have "prefix (take n f) (take n (staged_content (d_staged d)))" for n
    using assms(2) by (auto simp: prefix_def)
  then show ?thesis using assms(1,3) good_part_shorter unfolding part_disk_ok_def by (simp, blast)
qed

lemma drop_opened_ok:
  "part_disk_ok J V content fp d \<Longrightarrow> part_disk_ok J V content fp (drop_opened fault keep d) \<and>
     d_target (drop_opened fault keep d) = d_target d"
  using part_disk_shorter [of J V content fp d "[]" Absent]
  by (auto simp: drop_opened_def Let_def staged_content_def part_disk_trivial)

lemma open_part_file_ok:
  assumes "part_disk_ok J V content fp d"
    and "\<And>k. loaded = Some k \<Longrightarrow> keep \<and> usable_part fp k \<and> (\<exists>data. d_checkpoint d = Regular data \<and> get_state J data = Some k)"
    and "loaded = None \<Longrightarrow> staged_content (d_staged d) = []"
    and "open_part_file fault fp keep loaded d = (r, d')"
  shows "part_disk_ok J V content fp d' \<and> d_target d' = d_target d \<and> (\<forall>x. r = Inr x \<longrightarrow> part_ok J V content fp x \<and>
      d_target (pf_disk x) = d_target d \<and> pf_keep x = keep \<and>
      (ps_validator (pf_state x) \<noteq> [] \<longrightarrow> (\<exists>k. loaded = Some k)) \<and>
      (pf_restored x \<or> pf_file x \<noteq> [] \<longrightarrow> keep \<and> ps_validator (pf_state x) \<noteq> []))"
proof -
  define f where "f = staged_content (d_staged d)"
  define k0 where "k0 = (case loaded of Some k \<Rightarrow> k | None \<Rightarrow> default_state)"
  define k where "k = k0\<lparr>ps_fingerprint := fp, ps_bytes := min (ps_bytes k0) (length f)\<rparr>"
  let ?d1 = "d\<lparr>d_staged := Regular f\<rparr>" let ?d2 = "?d1\<lparr>d_staged := Regular (take (ps_bytes k) f)\<rparr>"
  let ?x = "\<lparr>pf_disk = ?d2, pf_file = take (ps_bytes k) f, pf_pos = ps_bytes k, pf_state = k, pf_restored = (loaded \<noteq> None),
                  pf_keep = keep, pf_promoted = False, pf_saved_bytes = ps_bytes k\<rparr>"
  have kf: "ps_bytes k \<le> length f" by (simp add: k_def)
  have d1: "part_disk_ok J V content fp ?d1" by (rule part_disk_shorter [OF assms(1)]) (simp_all add: f_def staged_content_def)
  have d2: "part_disk_ok J V content fp ?d2"
    by (rule part_disk_shorter [OF d1]) (simp_all add: staged_content_def take_is_prefix)
  have o: "(r, d') \<in> {(Inr ?x, ?d2)} \<union> (\<lambda>e. (Inl e, d)) ` UNIV \<union> (\<lambda>e. (Inl e, ?d1)) ` UNIV \<union>
      (\<lambda>e. (Inl e, drop_opened fault keep ?d1)) ` UNIV \<union> (\<lambda>e. (Inl e, drop_opened fault keep ?d2)) ` UNIV"
    using assms(4) kf unfolding open_part_file_def f_def [symmetric] k0_def [symmetric]
    by (auto simp: try_io_def Let_def k_def split: option.splits)
  have x: "part_ok J V content fp ?x \<and>
      (ps_validator (pf_state ?x) \<noteq> [] \<longrightarrow> (\<exists>k. loaded = Some k)) \<and>
      (pf_restored ?x \<or> pf_file ?x \<noteq> [] \<longrightarrow> keep \<and> ps_validator (pf_state ?x) \<noteq> [])"
  proof (cases loaded)
    case None
    then show ?thesis using assms(3) disk_saved [OF d2] kf
      by (simp add: part_ok_def whole_def f_def [symmetric] k_def k0_def default_state_def)
  next
    case (Some k1)
    then have "good_part V content k1 (take (ps_bytes k1) f)"
      using assms(1,2) unfolding part_disk_ok_def f_def by blast
    moreover have "take (ps_bytes k) f = take (ps_bytes k1) f" using Some by (simp add: k_def k0_def min_def)
    ultimately have "good_part V content k (take (ps_bytes k) f)"
      using Some by (simp add: good_part_def k_def k0_def)
    then show ?thesis using assms(2) [OF Some] disk_saved [OF d2] kf Some
      by (simp add: part_ok_def whole_def k_def k0_def usable_part_def)
  qed
  show ?thesis using o x d1 d2 assms(1) drop_opened_ok [OF d1, of fault keep] drop_opened_ok [OF d2, of fault keep] by auto
qed

lemma open_part_ok:
  assumes "part_disk_ok J V content fp d" "open_part J fault fp keep d = (r, d')"
  shows "part_disk_ok J V content fp d' \<and> d_target d' = d_target d \<and> (\<forall>x. r = Inr x \<longrightarrow> part_ok J V content fp x \<and>
      d_target (pf_disk x) = d_target d \<and> pf_keep x = keep \<and>
      (ps_validator (pf_state x) \<noteq> [] \<longrightarrow> (\<exists>data k. d_checkpoint d = Regular data \<and> get_state J data = Some k \<and> usable_part fp k)) \<and>
      (pf_restored x \<or> pf_file x \<noteq> [] \<longrightarrow> keep \<and> ps_validator (pf_state x) \<noteq> []))"
proof -
  define loaded where "loaded = (if keep then load_part J fault fp (d_checkpoint d) else None)"
  let ?d1 = "d\<lparr>d_staged := Absent\<rparr>" let ?d2 = "?d1\<lparr>d_checkpoint := Absent\<rparr>"
  have d1: "part_disk_ok J V content fp ?d1" by (rule part_disk_shorter [OF assms(1)]) (simp_all add: staged_content_def)
  have d2: "part_disk_ok J V content fp ?d2" by (rule part_disk_trivial) simp
  show ?thesis
  proof (cases "loaded = None")
    case True
    obtain r2 e2 where o2: "open_part_file fault fp keep None ?d2 = (r2, e2)"
      by (cases "open_part_file fault fp keep None ?d2")
    have "(r, d') = (r2, e2) \<or> (\<exists>e. (r, d') = (Inl e, d)) \<or> (\<exists>e. (r, d') = (Inl e, ?d1))"
      using assms(2) True o2 unfolding open_part_def loaded_def [symmetric]
      by (auto simp: try_io_def Let_def split: option.splits if_splits)
    then show ?thesis using open_part_file_ok [OF d2 _ _ o2] assms(1) d1
      by (auto simp: staged_content_def)
  next
    case False
    then obtain k where k: "loaded = Some k" by blast
    obtain r2 e2 where o2: "open_part_file fault fp keep loaded d = (r2, e2)"
      by (cases "open_part_file fault fp keep loaded d")
    have u: "keep \<and> usable_part fp k \<and> (\<exists>data. d_checkpoint d = Regular data \<and> get_state J data = Some k)"
      using k load_part_usable [of J fault fp "d_checkpoint d" k] by (simp add: loaded_def split: if_splits)
    have "(r, d') = (r2, e2) \<or> (\<exists>e. (r, d') = (Inl e, d))"
      using assms(2) False o2 unfolding open_part_def loaded_def [symmetric]
      by (auto simp: try_io_def Let_def split: option.splits if_splits)
    then show ?thesis using open_part_file_ok [OF assms(1) _ _ o2] u k assms(1) by auto
  qed
qed

section \<open>The operations keep the file a start of the resource\<close>

lemma checkpoint_part_frame [simp]:
  "pf_file (checkpoint_part J force secs ev now x) = pf_file x"
  "pf_pos (checkpoint_part J force secs ev now x) = pf_pos x"
  "pf_keep (checkpoint_part J force secs ev now x) = pf_keep x"
  "pf_promoted (checkpoint_part J force secs ev now x) = pf_promoted x"
  "pf_restored (checkpoint_part J force secs ev now x) = pf_restored x"
  "d_target (pf_disk (checkpoint_part J force secs ev now x)) = d_target (pf_disk x)"
  "ps_bytes (pf_state (checkpoint_part J force secs ev now x)) = ps_bytes (pf_state x)"
  "ps_validator (pf_state (checkpoint_part J force secs ev now x)) = ps_validator (pf_state x)"
  "ps_total (pf_state (checkpoint_part J force secs ev now x)) = ps_total (pf_state x)"
  by (simp_all add: checkpoint_part_def save_part_def Let_def split: save_event.splits)

lemma checkpoint_part_saved:
  assumes "part_codec_ok J" "saved_total_ok J V content fp (pf_disk x)"
    and "ps_validator (pf_state x) \<noteq> [] \<Longrightarrow> good_part V content (pf_state x) []"
  shows "saved_total_ok J V content fp (pf_disk (checkpoint_part J force secs ev now x))"
  using assms
  by (auto simp: checkpoint_part_def save_part_def Let_def saved_total_ok_def part_codec_ok_def good_part_def
      split: save_event.splits)

text \<open>The data of a body that reaches the file at most, and whether the body comes to its end.\<close>

fun body_data :: "body_event list \<Rightarrow> bytes" where
  "body_data [] = []"
| "body_data (Chunk bs secs ev now # es) = (if bs = [] then [] else bs @ body_data es)"
| "body_data (BodyFails e # es) = []"
| "body_data (DiskFails bs n e # es) = bs"

fun body_ends :: "body_event list \<Rightarrow> bool" where
  "body_ends [] = True"
| "body_ends (Chunk bs secs ev now # es) = (bs = [] \<or> body_ends es)"
| "body_ends (BodyFails e # es) = False"
| "body_ends (DiskFails bs n e # es) = False"

text \<open>What is known of the file while the body of a response with the resource \<open>c\<close> is received.\<close>

definition receiving :: "part_codec \<Rightarrow> bytes set \<Rightarrow> (bytes \<Rightarrow> bytes) \<Rightarrow> bytes \<Rightarrow> bytes \<Rightarrow> part_file \<Rightarrow> bool" where
  "receiving J V content fp c x \<longleftrightarrow>
     \<not> pf_promoted x \<and> saved_total_ok J V content fp (pf_disk x) \<and> c \<in> V \<and>
     (ps_validator (pf_state x) \<noteq> [] \<longrightarrow> c = content (ps_validator (pf_state x))) \<and>
     (0 < ps_total (pf_state x) \<longrightarrow> ps_total (pf_state x) = int (length c))"

lemma receiving_checkpoint:
  "part_codec_ok J \<Longrightarrow> receiving J V content fp c x \<Longrightarrow> receiving J V content fp c (checkpoint_part J force secs ev now x)"
  by (auto simp: receiving_def good_part_def intro!: checkpoint_part_saved)

lemma receiving_write:
  "receiving J V content fp c x \<Longrightarrow> receiving J V content fp c (write_part bs x)"
  "receiving J V content fp c x \<Longrightarrow> receiving J V content fp c (x\<lparr>pf_state := (pf_state x)\<lparr>ps_bytes := n\<rparr>\<rparr>)"
  by (simp_all add: receiving_def)

lemma receive_body_ok:
  assumes "part_codec_ok J" "receiving J V content fp c x" "whole x" "prefix (pf_file x @ body_data es) c"
    and "receive_body J saving es x = (r, y)"
  shows "receiving J V content fp c y \<and> prefix (pf_file x) (pf_file y) \<and> prefix (pf_file y) c \<and> pf_keep y = pf_keep x \<and>
      d_target (pf_disk y) = d_target (pf_disk x) \<and>
      ps_validator (pf_state y) = ps_validator (pf_state x) \<and> ps_total (pf_state y) = ps_total (pf_state x) \<and>
      ((\<forall>e. r \<noteq> DiskError e) \<longrightarrow> whole y) \<and>
      (r = BodyEnded \<longrightarrow> body_ends es \<and> pf_file y = pf_file x @ body_data es)"
  using assms
proof (induction J saving es x rule: receive_body.induct)
  case (2 J saving bs secs ev now es x)
  show ?case
  proof (cases "bs = []")
    case True
    then show ?thesis using 2 by (auto dest: append_prefixD)
  next
    case False
    define x1 where "x1 = write_part bs x"
    define x2 where "x2 = x1\<lparr>pf_state := (pf_state x1)\<lparr>ps_bytes := ps_bytes (pf_state x1) + length bs\<rparr>\<rparr>"
    define x3 where "x3 = (if saving then checkpoint_part J False secs ev now x2 else x2)"
    have f: "pf_file x3 = pf_file x @ bs" "pf_pos x3 = length (pf_file x @ bs)" "whole x3"
      using 2(4) write_part_whole [of x bs] by (simp_all add: x3_def x2_def x1_def whole_def)
    have fr: "pf_keep x3 = pf_keep x" "d_target (pf_disk x3) = d_target (pf_disk x)"
      "ps_validator (pf_state x3) = ps_validator (pf_state x)" "ps_total (pf_state x3) = ps_total (pf_state x)"
      by (simp_all add: x3_def x2_def x1_def)
    have "receiving J V content fp c x2" unfolding x2_def x1_def by (intro receiving_write 2(3))
    then have r3: "receiving J V content fp c x3" using receiving_checkpoint [OF 2(2)] by (simp add: x3_def)
    have p: "prefix (pf_file x3 @ body_data es) c" using 2(5) False by (simp add: f)
    have "receive_body J saving es x3 = (r, y)" using 2(6) False by (simp add: x3_def x2_def x1_def Let_def del: write_part_frame split: if_splits)
    from 2(1) [OF False x1_def x2_def 2(2) r3 [unfolded x3_def] f(3) [unfolded x3_def] p [unfolded x3_def] this [unfolded x3_def]]
    show ?thesis using False fr f(1) unfolding x3_def [symmetric] by (auto dest: append_prefixD)
  qed
next
  case (4 J saving bs n e es x)
  have "prefix (pf_file x @ take n bs) c"
    using 4(4) prefix_order.trans [OF _ 4(4)] by (simp add: take_is_prefix)
  moreover have "receiving J V content fp c y" using 4(2,5) receiving_write by auto
  ultimately show ?case using 4 write_part_whole [of x "take n bs"] by (auto simp: whole_def)
qed (auto dest: append_prefixD)

lemma receiving_left: "receiving J V content fp c x \<Longrightarrow> prefix (pf_file x) c \<Longrightarrow> left_ok J V content fp x"
  by (auto simp: receiving_def left_ok_def)

lemma receiving_part: "receiving J V content fp c x \<Longrightarrow> prefix (pf_file x) c \<Longrightarrow> whole x \<Longrightarrow> part_ok J V content fp x"
  by (auto simp: receiving_def part_ok_def good_part_def)

lemma left_empty: "left_ok J V content fp x \<Longrightarrow> whole x \<Longrightarrow> pf_file x = [] \<Longrightarrow> part_ok J V content fp x"
  by (simp add: left_ok_def part_ok_def)

lemma rewind_left:
  assumes "left_ok J V content fp x" "n \<le> length (pf_file x)" "rewind fault n x = (r, y)"
  shows "left_ok J V content fp y \<and> d_target (pf_disk y) = d_target (pf_disk x) \<and> pf_keep y = pf_keep x \<and>
      (r = Inr () \<longrightarrow> whole y \<and> pf_file y = take n (pf_file x) \<and> pf_disk y = pf_disk x \<and>
         pf_state y = (pf_state x)\<lparr>ps_bytes := n\<rparr>)"
proof -
  have "\<exists>c \<in> V. prefix (take n (pf_file x)) c" if "take n (pf_file x) \<noteq> []"
  proof -
    have "pf_file x \<noteq> []" using that by auto
    then show ?thesis using assms(1) prefix_order.trans [OF take_is_prefix] unfolding left_ok_def by blast
  qed
  then show ?thesis using assms
    by (auto simp: rewind_def left_ok_def whole_def Let_def split: option.splits)
qed

lemma restart_left:
  assumes "left_ok J V content fp x" "restart fault x = (r, y)"
  shows "left_ok J V content fp y \<and> d_target (pf_disk y) = d_target (pf_disk x) \<and> pf_keep y = pf_keep x \<and>
      (r = Inr () \<longrightarrow> whole y \<and> pf_file y = [] \<and> ps_validator (pf_state y) = [] \<and> ps_bytes (pf_state y) = 0 \<and>
         ps_total (pf_state y) = ps_total (pf_state x))"
proof -
  obtain r1 x1 where x1: "rewind fault 0 x = (r1, x1)" by (cases "rewind fault 0 x")
  from rewind_left [OF assms(1) _ x1] show ?thesis using assms(2) x1
    by (auto simp: restart_def left_ok_def saved_total_ok_def whole_def Let_def split: sum.splits option.splits)
qed

lemma publish_part_ok:
  assumes "publish_part fault check x = (r, y)" "\<not> pf_promoted x"
  shows "(r = Inr () \<longrightarrow> pf_promoted y \<and> d_target (pf_disk y) = Regular (pf_file x) \<and> d_staged (pf_disk y) = Absent \<and>
         (saved_total_ok J V content fp (pf_disk x) \<longrightarrow> saved_total_ok J V content fp (pf_disk y)) \<and>
         pf_state y = pf_state x) \<and>
      (r \<noteq> Inr () \<longrightarrow> y = x)"
  using assms by (cases "fault 2") (auto simp: publish_part_def saved_total_ok_def Let_def split: option.splits sum.splits)

text \<open>
  While the resource does not change, what a call leaves behind can be resumed.
\<close>

lemma drop_part_ok:
  assumes "left_ok J {c} content fp x \<or> pf_promoted x \<and> d_staged (pf_disk x) = Absent \<and> saved_total_ok J {c} content fp (pf_disk x)"
    and "\<And>v. content v = c"
  shows "part_disk_ok J {c} content fp (drop_part fault x)"
proof -
  have good: "good_part {c} content k (take n f)" if "good_part {c} content k []" "f \<noteq> [] \<longrightarrow> prefix f c" for k n f
    using that assms(2) prefix_order.trans [OF take_is_prefix]
    by (cases "f = []") (auto simp: good_part_def)
  show ?thesis using assms(1)
  proof
    assume l: "left_ok J {c} content fp x"
    then show ?thesis using good
      by (auto simp: left_ok_def saved_total_ok_def part_disk_ok_def drop_part_def Let_def staged_content_def)
  next
    assume "pf_promoted x \<and> d_staged (pf_disk x) = Absent \<and> saved_total_ok J {c} content fp (pf_disk x)"
    then show ?thesis
      by (auto simp: saved_total_ok_def part_disk_ok_def drop_part_def Let_def staged_content_def)
  qed
qed

end
