(* ===== verification/PlainDownload.thy ===== *)
theory PlainDownload
  imports PartFile
begin

text \<open>
  The plain download (rust\_backend/crates/extensions/src/download/mod.rs, function \<^verbatim>\<open>download\<close>
  without a chunk size): one response at a time, resumed with \<^verbatim>\<open>Range\<close> and \<^verbatim>\<open>If-Range\<close> when the resource
  has a validator, restarted from the beginning otherwise.
\<close>

section \<open>The request and its response\<close>

record dl_options =
  do_headers :: "(bytes \<times> bytes) list"
  do_resume :: bool
  do_persistent :: bool
  do_policy :: transfer_policy

definition caller_range :: "dl_options \<Rightarrow> bool" where
  "caller_range o1 \<longleftrightarrow> list_ex (\<lambda>(name, _). eq_ignore_ascii_case name ''Range'') (do_headers o1)"

definition effective_options :: "dl_options \<Rightarrow> dl_options" where
  "effective_options o1 = (if caller_range o1 then o1\<lparr>do_resume := False, do_persistent := False\<rparr> else o1)"

definition request_headers :: "(bytes \<times> bytes) list \<Rightarrow> nat \<Rightarrow> bytes \<Rightarrow> (bytes \<times> bytes) list" where
  "request_headers headers range_from v =
     (if 0 < range_from then
        set_header (set_header headers ''Range'' (''bytes='' @ show_nat range_from @ ''-'')) ''If-Range'' v
      else headers)"

text \<open>\<^verbatim>\<open>rsplit_once('/')\<close>: what follows the last slash.\<close>

definition after_slash :: "bytes \<Rightarrow> bytes option" where
  "after_slash s = (if CHR ''/'' \<in> set s then Some (rev (takeWhile (\<lambda>c. c \<noteq> CHR ''/'') (rev s))) else None)"

definition announced_total :: "bool \<Rightarrow> nat \<Rightarrow> response \<Rightarrow> int" where
  "announced_total caller range_from r =
     (if r_status r = 206 \<and> \<not> caller then
        (case Option.bind (after_slash (header r ''Content-Range'')) (\<lambda>t. case parse_i64 t of Inl _ \<Rightarrow> None | Inr n \<Rightarrow> Some n) of
           Some n \<Rightarrow> n
         | None \<Rightarrow> if 0 < content_length r then min i64_max (int range_from + content_length r) else 0)
      else content_length r)"

text \<open>What a resumed response must say; \<open>debug\<close> is the quoting of a string by \<^verbatim>\<open>{:?}\<close>.\<close>

definition resume_failure :: "host \<Rightarrow> (bytes \<Rightarrow> bytes) \<Rightarrow> response \<Rightarrow> nat \<Rightarrow> bytes \<Rightarrow> int \<Rightarrow> failure option" where
  "resume_failure h debug r range_from v attempt =
     (let range = header r ''Content-Range''; v' = validator (h_tables h) r
      in if 0 < range_from \<and> r_status r = 206 then
           (if \<not> starts_with range (''bytes '' @ show_nat range_from @ ''-'') then
              Some ((failure_new ''integrity_failed'' (''resume failed: unexpected Content-Range '' @ debug range @
                '' at '' @ show_nat range_from @ '' bytes'') attempt)\<lparr>f_http_status := r_status r\<rparr>)
            else if v' \<noteq> [] \<and> v' \<noteq> v then
              Some ((failure_new ''integrity_failed'' ''resume failed: response validator changed'' attempt)
                \<lparr>f_http_status := r_status r\<rparr>)
            else None)
         else None)"

section \<open>One attempt\<close>

text \<open>
  The surroundings of one attempt: the checks, what the server answers to a request, the faults of
  rewinding, restarting and publishing, the saving of a forced checkpoint, the wait and the random
  number of its delay.
\<close>

record try_env =
  te_check :: "unit res"
  te_serve :: "(bytes \<times> bytes) list \<Rightarrow> (response \<times> body_event list) res"
  te_rewind :: faults
  te_error_check :: "unit res"
  te_restart :: faults
  te_save :: "save_event \<times> nat"
  te_wait :: "nat \<Rightarrow> unit res"
  te_random :: "nat option"
  te_publish :: "faults \<times> unit res"

datatype try_outcome = Fail failure | Publish | Retry nat

definition cancelled_by :: "bytes \<Rightarrow> int \<Rightarrow> failure" where
  "cancelled_by e attempt = failure_new ''cancelled'' e attempt"

definition restart_unless_resumable :: "try_env \<Rightarrow> dl_options \<Rightarrow> int \<Rightarrow> nat \<Rightarrow> bool \<Rightarrow> part_file \<Rightarrow> try_outcome \<times> part_file" where
  "restart_unless_resumable env o1 attempt delay needed x =
     (if needed \<and> (\<not> do_resume o1 \<or> ps_validator (pf_state x) = []) then
        (case restart (te_restart env) x of
           (Inl e, y) \<Rightarrow> (Fail (failure_new ''storage_error'' e attempt), y)
         | (Inr _, y) \<Rightarrow> (Retry delay, y))
      else (Retry delay, x))"

definition connection_failed :: "try_env \<Rightarrow> dl_options \<Rightarrow> int \<Rightarrow> nat \<Rightarrow> bytes \<Rightarrow> part_file \<Rightarrow> try_outcome \<times> part_file" where
  "connection_failed env o1 attempt delay e x =
     (case te_error_check env of
        Inl c \<Rightarrow> (Fail (cancelled_by c attempt), x)
      | Inr _ \<Rightarrow>
          if attempt = max_attempts (do_policy o1) then (Fail (failure_new ''transient_network'' e attempt), x)
          else restart_unless_resumable env o1 attempt delay (0 < ps_bytes (pf_state x)) x)"

definition body_failed :: "part_codec \<Rightarrow> try_env \<Rightarrow> dl_options \<Rightarrow> int \<Rightarrow> nat \<Rightarrow> bytes \<Rightarrow> part_file \<Rightarrow> try_outcome \<times> part_file" where
  "body_failed J env o1 attempt delay e x0 =
     (let x = checkpoint_part J True 0 (fst (te_save env)) (snd (te_save env)) x0
      in case te_error_check env of
           Inl c \<Rightarrow> (Fail (cancelled_by c attempt), x)
         | Inr _ \<Rightarrow>
             if attempt = max_attempts (do_policy o1) then
               (Fail (failure_new ''transient_network'' (''failed to read response: '' @ e) attempt), x)
             else restart_unless_resumable env o1 attempt delay True x)"

definition body_result :: "body_outcome \<Rightarrow> part_state \<Rightarrow> unit res" where
  "body_result out k =
     (case out of
        BodyError e \<Rightarrow> Inl e
      | _ \<Rightarrow> if 0 < ps_total k \<and> int (ps_bytes k) \<noteq> ps_total k then Inl ''unexpected EOF'' else Inr ())"

definition receive_response :: "host \<Rightarrow> part_codec \<Rightarrow> try_env \<Rightarrow> dl_options \<Rightarrow> bool \<Rightarrow> int \<Rightarrow> nat \<Rightarrow> nat \<Rightarrow> response \<Rightarrow>
    body_event list \<Rightarrow> part_file \<Rightarrow> try_outcome \<times> part_file" where
  "receive_response h J env o1 caller attempt delay range_from r es x1 =
     (let v = validator (h_tables h) r;
          k = (pf_state x1)\<lparr>ps_validator := (if v \<noteq> [] then v else ps_validator (pf_state x1)),
                            ps_total := announced_total caller range_from r\<rparr>;
          (out, x) = receive_body J True es (x1\<lparr>pf_state := k\<rparr>)
      in case out of
           DiskError e \<Rightarrow> (Fail (failure_new ''storage_error'' (''failed to write staged file: '' @ e) attempt), x)
         | _ \<Rightarrow>
             (case body_result out (pf_state x) of
                Inl e \<Rightarrow> body_failed J env o1 attempt delay e x
              | Inr _ \<Rightarrow>
                  if ps_bytes (pf_state x) = 0 then
                    (Fail (failure_new ''integrity_failed'' ''download response was empty'' attempt), x)
                  else (Publish, x)))"

definition try_download :: "host \<Rightarrow> (bytes \<Rightarrow> bytes) \<Rightarrow> part_codec \<Rightarrow> dl_options \<Rightarrow> bool \<Rightarrow> try_env \<Rightarrow> int \<Rightarrow> nat \<Rightarrow> part_file \<Rightarrow>
    try_outcome \<times> part_file" where
  "try_download h debug J o1 caller env attempt delay x =
     (case te_check env of
        Inl e \<Rightarrow> (Fail (cancelled_by e attempt), x)
      | Inr _ \<Rightarrow>
     (let v = ps_validator (pf_state x);
          range_from = (if do_resume o1 \<and> v \<noteq> [] then ps_bytes (pf_state x) else 0)
      in case te_serve env (request_headers (do_headers o1) range_from v) of
           Inl e \<Rightarrow> connection_failed env o1 attempt delay e x
         | Inr (r, es) \<Rightarrow>
             if \<not> (200 \<le> r_status r \<and> r_status r < 300) then
               (let f = status_failure h r (do_policy o1) attempt
                in if \<not> retryable (r_status r) \<or> attempt = max_attempts (do_policy o1) then (Fail f, x)
                   else (Retry (retry_delay f delay), x))
             else
               (case resume_failure h debug r range_from v attempt of
                  Some f \<Rightarrow> (Fail f, x)
                | None \<Rightarrow>
                    if 0 < range_from \<and> r_status r = 200 then
                      (case rewind (te_rewind env) 0 x of
                         (Inl e, y) \<Rightarrow> (Fail (failure_new ''storage_error'' e attempt), y)
                       | (Inr _, y) \<Rightarrow> receive_response h J env o1 caller attempt delay 0 r es y)
                    else receive_response h J env o1 caller attempt delay range_from r es x)))"

section \<open>The attempts and the call\<close>

fun download_from :: "host \<Rightarrow> (bytes \<Rightarrow> bytes) \<Rightarrow> part_codec \<Rightarrow> dl_options \<Rightarrow> bool \<Rightarrow> (int \<Rightarrow> try_env) \<Rightarrow> nat \<Rightarrow> int \<Rightarrow> nat \<Rightarrow>
    part_file \<Rightarrow> (failure + nat \<times> int) option \<times> part_file" where
  "download_from h debug J o1 caller env 0 attempt delay x = (None, x)"
| "download_from h debug J o1 caller env (Suc left) attempt delay x =
     (case try_download h debug J o1 caller (env attempt) attempt delay x of
        (Fail f, y) \<Rightarrow> (Some (Inl f), y)
      | (Publish, y) \<Rightarrow>
          (case publish_part (fst (te_publish (env attempt))) (snd (te_publish (env attempt))) y of
             (Inl e, z) \<Rightarrow> (Some (Inl (failure_new ''storage_error'' (''failed to publish file: '' @ e) 0)), z)
           | (Inr _, z) \<Rightarrow> (Some (Inr (ps_bytes (pf_state z), attempt)), z))
      | (Retry w, y) \<Rightarrow>
          (case te_wait (env attempt) w of
             Inl e \<Rightarrow> (Some (Inl (cancelled_by e attempt)), y)
           | Inr _ \<Rightarrow> download_from h debug J o1 caller env left (attempt + 1)
               (next_delay (te_random (env attempt)) delay (do_policy o1)) y))"

text \<open>
  The whole call: the fingerprint of the URL is an argument, empty when the URL cannot be parsed;
  the staged file is dropped at the end of every path after its opening.
\<close>

record call_env =
  ce_open :: faults
  ce_publish :: "faults \<times> unit res"
  ce_drop :: faults

definition plain_download :: "host \<Rightarrow> (bytes \<Rightarrow> bytes) \<Rightarrow> part_codec \<Rightarrow> dl_options \<Rightarrow> bytes \<Rightarrow> call_env \<Rightarrow> (int \<Rightarrow> try_env) \<Rightarrow>
    disk \<Rightarrow> (failure + nat \<times> int) option \<times> disk" where
  "plain_download h debug J o0 fp ce env d =
     (let o1 = effective_options o0
      in case open_part J (ce_open ce) fp (do_resume o1 \<and> do_persistent o1 \<and> fp \<noteq> []) d of
           (Inl e, d1) \<Rightarrow>
             (Some (Inl (failure_new ''storage_error'' (''failed to create staged file: '' @ e) 0)), d1)
         | (Inr x, _) \<Rightarrow>
             if pf_restored x \<and> 0 < ps_bytes (pf_state x) \<and> 0 < ps_total (pf_state x) \<and>
                int (ps_bytes (pf_state x)) = ps_total (pf_state x) then
               (case publish_part (fst (ce_publish ce)) (snd (ce_publish ce)) x of
                  (Inl e, y) \<Rightarrow>
                    (Some (Inl (failure_new ''storage_error'' (''failed to publish restored download: '' @ e) 0)),
                     drop_part (ce_drop ce) y)
                | (Inr _, y) \<Rightarrow> (Some (Inr (ps_bytes (pf_state y), 0)), drop_part (ce_drop ce) y))
             else
               (let (r, y) = download_from h debug J o1 (caller_range o0) env (nat (max_attempts (do_policy o1))) 1
                      (millis (initial_retry_delay_ms (do_policy o1))) x
                in (r, drop_part (ce_drop ce) y)))"

section \<open>What is assumed of the server\<close>

text \<open>
  \<open>V\<close> holds the resources the server may send, \<open>content v\<close> the one with the validator \<open>v\<close>.  A server
  either sends a validator with every full response (\<open>tagged\<close>) or with none.  It answers a resumed
  request with 200 or 206, if it succeeds.  The body is a start of the resource, from the requested
  position; unless a total length is announced, which must be right, a body that ends is complete.
\<close>

definition honest_response :: "host \<Rightarrow> bytes set \<Rightarrow> (bytes \<Rightarrow> bytes) \<Rightarrow> bool \<Rightarrow> bool \<Rightarrow> nat \<Rightarrow> bytes \<Rightarrow> response \<Rightarrow>
    body_event list \<Rightarrow> bool" where
  "honest_response h V content tagged caller k v r es \<longleftrightarrow>
     (let part = (0 < k \<and> r_status r = 206); from = (if part then k else 0); v' = validator (h_tables h) r;
          total = announced_total caller from r
      in (0 < k \<longrightarrow> r_status r = 200 \<or> r_status r = 206) \<and>
         (\<not> part \<longrightarrow> (v' \<noteq> []) = tagged) \<and>
         (\<exists>c \<in> V. (if part then c = content v else v' \<noteq> [] \<longrightarrow> c = content v') \<and>
            prefix (body_data es) (drop from c) \<and>
            (if 0 < total then total = int (length c) else body_ends es \<longrightarrow> body_data es = drop from c)))"

definition honest_server :: "host \<Rightarrow> bytes set \<Rightarrow> (bytes \<Rightarrow> bytes) \<Rightarrow> bool \<Rightarrow> dl_options \<Rightarrow> (int \<Rightarrow> try_env) \<Rightarrow> bool" where
  "honest_server h V content tagged o1 env \<longleftrightarrow>
     (\<forall>i k v r es. te_serve (env i) (request_headers (do_headers o1) k v) = Inr (r, es) \<longrightarrow>
        200 \<le> r_status r \<longrightarrow> r_status r < 300 \<longrightarrow> honest_response h V content tagged (caller_range o1) k v r es)"

text \<open>The state between two attempts.\<close>

definition between :: "part_codec \<Rightarrow> bytes set \<Rightarrow> (bytes \<Rightarrow> bytes) \<Rightarrow> bytes \<Rightarrow> bool \<Rightarrow> bool \<Rightarrow> part_file \<Rightarrow> bool" where
  "between J V content fp tagged resume x \<longleftrightarrow>
     part_ok J V content fp x \<and> (pf_file x \<noteq> [] \<longrightarrow> resume \<and> ps_validator (pf_state x) \<noteq> []) \<and>
     (\<not> tagged \<longrightarrow> ps_validator (pf_state x) = [])"

text \<open>After an attempt: the file is complete, or good for another attempt, or at least a start.\<close>

definition after_try :: "part_codec \<Rightarrow> bytes set \<Rightarrow> (bytes \<Rightarrow> bytes) \<Rightarrow> bytes \<Rightarrow> bool \<Rightarrow> bool \<Rightarrow> part_file \<Rightarrow> try_outcome \<Rightarrow> part_file \<Rightarrow> bool" where
  "after_try J V content fp tagged resume x out y \<longleftrightarrow>
     left_ok J V content fp y \<and> d_target (pf_disk y) = d_target (pf_disk x) \<and>
     (case out of
        Fail f \<Rightarrow> True
      | Publish \<Rightarrow> pf_file y \<in> V \<and> whole y
      | Retry w \<Rightarrow> between J V content fp tagged resume y)"

lemma between_left: "between J V content fp tagged resume x \<Longrightarrow> left_ok J V content fp x"
  by (simp add: between_def part_left)

lemma restart_unless_ok:
  assumes "part_ok J V content fp x" "\<not> tagged \<longrightarrow> ps_validator (pf_state x) = []"
    and "\<not> needed \<Longrightarrow> pf_file x = []"
    and "restart_unless_resumable env o1 attempt delay needed x = (out, y)"
  shows "after_try J V content fp tagged (do_resume o1) x out y"
proof (cases "needed \<and> (\<not> do_resume o1 \<or> ps_validator (pf_state x) = [])")
  case True
  obtain r z where z: "restart (te_restart env) x = (r, z)" by (cases "restart (te_restart env) x")
  from restart_left [OF part_left [OF assms(1)] z] show ?thesis
    using assms(4) True z left_empty [of J V content fp z]
    by (auto simp: restart_unless_resumable_def after_try_def between_def split: sum.splits)
next
  case False
  then show ?thesis using assms part_left [OF assms(1)]
    by (auto simp: restart_unless_resumable_def after_try_def between_def)
qed

lemma connection_failed_ok:
  assumes "between J V content fp tagged (do_resume o1) x"
    and "connection_failed env o1 attempt delay e x = (out, y)"
  shows "after_try J V content fp tagged (do_resume o1) x out y"
proof -
  have x: "part_ok J V content fp x" "\<not> tagged \<longrightarrow> ps_validator (pf_state x) = []" "left_ok J V content fp x"
    "ps_bytes (pf_state x) = length (pf_file x)"
    using assms(1) by (auto simp: between_def part_ok_def whole_def intro: between_left)
  have "(\<exists>f. out = Fail f \<and> y = x) \<or>
      restart_unless_resumable env o1 attempt delay (0 < ps_bytes (pf_state x)) x = (out, y)"
    using assms(2) by (auto simp: connection_failed_def split: sum.splits if_splits)
  then show ?thesis
  proof
    assume "restart_unless_resumable env o1 attempt delay (0 < ps_bytes (pf_state x)) x = (out, y)"
    then show ?thesis by (rule restart_unless_ok [OF x(1,2), rotated]) (simp add: x(4))
  qed (use x(3) in \<open>auto simp: after_try_def\<close>)
qed

lemma body_failed_ok:
  assumes "part_codec_ok J" "receiving J V content fp c x" "prefix (pf_file x) c" "whole x"
    and "\<not> tagged \<longrightarrow> ps_validator (pf_state x) = []"
    and "body_failed J env o1 attempt delay e x = (out, y)"
  shows "after_try J V content fp tagged (do_resume o1) x out y"
proof -
  define z where "z = checkpoint_part J True 0 (fst (te_save env)) (snd (te_save env)) x"
  have z: "receiving J V content fp c z" "prefix (pf_file z) c" "whole z" "d_target (pf_disk z) = d_target (pf_disk x)"
    "\<not> tagged \<longrightarrow> ps_validator (pf_state z) = []"
    using receiving_checkpoint [OF assms(1,2)] assms(3-5) by (simp_all add: z_def whole_def)
  have "part_ok J V content fp z" "left_ok J V content fp z"
    using receiving_part receiving_left z by blast+
  moreover have "(\<exists>f. out = Fail f \<and> y = z) \<or> restart_unless_resumable env o1 attempt delay True z = (out, y)"
    using assms(6) unfolding body_failed_def z_def [symmetric] Let_def by (auto split: sum.splits if_splits)
  moreover have "after_try J V content fp tagged (do_resume o1) z out y"
    if "restart_unless_resumable env o1 attempt delay True z = (out, y)"
    using that by (rule restart_unless_ok [OF \<open>part_ok J V content fp z\<close> z(5), rotated]) simp
  ultimately show ?thesis using z(4) by (auto simp: after_try_def)
qed

lemma receive_response_ok:
  assumes "part_codec_ok J" "left_ok J V content fp x" "whole x" "\<not> tagged \<longrightarrow> ps_validator (pf_state x) = []"
    and "from = length (pf_file x)" "0 < from \<Longrightarrow> r_status r = 206 \<and> prefix (pf_file x) (content v) \<and>
      ps_validator (pf_state x) = v \<and> v \<noteq> [] \<and> validator (h_tables h) r \<in> {[], v}"
    and "0 < k \<Longrightarrow> 0 < from \<or> r_status r = 200" "0 < from \<Longrightarrow> k = from"
    and "honest_response h V content tagged caller k v r es"
    and "receive_response h J env o1 caller attempt delay from r es x = (out, y)"
  shows "after_try J V content fp tagged (do_resume o1) x out y"
proof -
  define v' where "v' = validator (h_tables h) r"
  define total where "total = announced_total caller from r"
  define x1 where "x1 = x\<lparr>pf_state := (pf_state x)\<lparr>ps_validator := (if v' \<noteq> [] then v' else ps_validator (pf_state x)),
      ps_total := total\<rparr>\<rparr>"
  have part: "(0 < k \<and> r_status r = 206) = (0 < from)" using assms(6-8) by auto
  have fk: "(if 0 < from then k else 0) = from" using assms(8) by simp
  obtain c where c: "c \<in> V" "if 0 < from then c = content v else v' \<noteq> [] \<longrightarrow> c = content v'"
      "prefix (body_data es) (drop from c)"
      "if 0 < total then total = int (length c) else body_ends es \<longrightarrow> body_data es = drop from c"
    and tag: "\<not> 0 < from \<Longrightarrow> (v' \<noteq> []) = tagged"
    using assms(9) unfolding honest_response_def part fk Let_def v'_def total_def by blast
  have f: "prefix (pf_file x) c"
    using c(2) assms(5,6) by (cases "0 < from") auto
  then have fc: "prefix (pf_file x @ body_data es) c"
    using c(3) assms(5) by (metis append_eq_conv_conj prefix_def same_prefix_prefix)
  have tagged: "\<not> tagged \<longrightarrow> ps_validator (pf_state x1) = []"
    using assms(4,6) tag by (cases "0 < from") (auto simp: x1_def v'_def)
  have valid: "ps_validator (pf_state x1) \<noteq> [] \<Longrightarrow> c = content (ps_validator (pf_state x1))"
    using c(2) assms(4,6) tag by (cases "0 < from") (auto simp: x1_def v'_def)
  have rx: "receiving J V content fp c x1"
    using assms(2) c(1,4) valid by (auto simp: receiving_def left_ok_def x1_def split: if_splits)
  have wx: "whole x1" "pf_file x1 = pf_file x" using assms(3) by (simp_all add: x1_def whole_def)
  obtain body z where z: "receive_body J True es x1 = (body, z)" by (cases "receive_body J True es x1")
  from receive_body_ok [OF assms(1) rx wx(1) _ z] fc wx(2)
  have zp: "receiving J V content fp c z" "prefix (pf_file z) c" "d_target (pf_disk z) = d_target (pf_disk x)"
      "ps_validator (pf_state z) = ps_validator (pf_state x1)" "ps_total (pf_state z) = total"
      "(\<forall>e. body \<noteq> DiskError e) \<longrightarrow> whole z"
      "body = BodyEnded \<longrightarrow> body_ends es \<and> pf_file z = pf_file x @ body_data es"
    by (auto simp: x1_def)
  have left: "left_ok J V content fp z" using zp(1,2) by (rule receiving_left)
  have out: "(out, y) = (case body of
           DiskError e \<Rightarrow> (Fail (failure_new ''storage_error'' (''failed to write staged file: '' @ e) attempt), z)
         | _ \<Rightarrow> (case body_result body (pf_state z) of
                Inl e \<Rightarrow> body_failed J env o1 attempt delay e z
              | Inr _ \<Rightarrow> if ps_bytes (pf_state z) = 0 then
                    (Fail (failure_new ''integrity_failed'' ''download response was empty'' attempt), z)
                  else (Publish, z)))"
    using assms(10) z unfolding receive_response_def Let_def x1_def v'_def total_def by simp
  show ?thesis
  proof (cases "\<exists>e. body = DiskError e")
    case True
    then show ?thesis using out left zp(3) by (auto simp: after_try_def)
  next
    case False
    then have wz: "whole z" using zp(6) by blast
    show ?thesis
    proof (cases "body_result body (pf_state z)")
      case (Inl e)
      then have "body_failed J env o1 attempt delay e z = (out, y)"
        using False out by (cases body) simp_all
      from body_failed_ok [OF assms(1) zp(1,2) wz _ this, of tagged] tagged zp(3,4)
      show ?thesis by (simp add: after_try_def)
    next
      case (Inr u)
      have "pf_file z = c" if "body = BodyEnded"
      proof (cases "0 < total")
        case True
        have "int (ps_bytes (pf_state z)) = total"
          using Inr that True unfolding body_result_def zp(5) by (auto split: if_splits)
        then have "length (pf_file z) = length c" using c(4) True wz by (simp add: whole_def)
        then show ?thesis using zp(2) by (auto simp: prefix_def)
      next
        case False
        then have "pf_file z = pf_file x @ drop (length (pf_file x)) c" using that c(4) zp(7) assms(5) by simp
        then show ?thesis using f by (auto simp: prefix_def)
      qed
      moreover have "body = BodyEnded" using Inr False by (cases body) (auto simp: body_result_def)
      ultimately show ?thesis using Inr out left zp(3) wz c(1) by (auto simp: after_try_def split: if_splits)
    qed
  qed
qed


lemma try_download_ok:
  assumes "part_codec_ok J" "between J V content fp tagged (do_resume o1) x"
    and "\<And>k v r es. te_serve env (request_headers (do_headers o1) k v) = Inr (r, es) \<Longrightarrow>
        200 \<le> r_status r \<Longrightarrow> r_status r < 300 \<Longrightarrow> honest_response h V content tagged caller k v r es"
    and "try_download h debug J o1 caller env attempt delay x = (out, y)"
  shows "after_try J V content fp tagged (do_resume o1) x out y"
proof -
  define v where "v = ps_validator (pf_state x)"
  define k where "k = (if do_resume o1 \<and> v \<noteq> [] then ps_bytes (pf_state x) else 0)"
  have left: "left_ok J V content fp x" using assms(2) by (rule between_left)
  have x: "whole x" "\<not> tagged \<longrightarrow> ps_validator (pf_state x) = []"
    "pf_file x \<noteq> [] \<Longrightarrow> do_resume o1 \<and> v \<noteq> [] \<and> good_part V content (pf_state x) (pf_file x)"
    using assms(2) by (auto simp: between_def part_ok_def v_def)
  have k: "k = length (pf_file x)" using x(1,3) by (cases "pf_file x = []") (auto simp: k_def whole_def)
  have stay: "after_try J V content fp tagged (do_resume o1) x (Fail f) x" "after_try J V content fp tagged (do_resume o1) x (Retry w) x" for f w
    using left assms(2) by (simp_all add: after_try_def)
  show ?thesis
  proof (cases "te_check env")
    case (Inl e)
    then show ?thesis using assms(4) stay by (auto simp: try_download_def)
  next
    case ok: (Inr u)
    show ?thesis
    proof (cases "te_serve env (request_headers (do_headers o1) k v)")
      case (Inl e)
      then have "connection_failed env o1 attempt delay e x = (out, y)"
        using assms(4) ok unfolding try_download_def Let_def v_def [symmetric] k_def [symmetric] by simp
      then show ?thesis by (rule connection_failed_ok [OF assms(2)])
    next
      case (Inr re)
      obtain r es where r: "te_serve env (request_headers (do_headers o1) k v) = Inr (r, es)" using Inr by (cases re) simp
      show ?thesis
      proof (cases "200 \<le> r_status r \<and> r_status r < 300")
        case False
        then have "(\<exists>f. out = Fail f) \<and> y = x \<or> (\<exists>w. out = Retry w) \<and> y = x"
          using assms(4) ok r unfolding try_download_def Let_def v_def [symmetric] k_def [symmetric]
          by (auto split: if_splits)
        then show ?thesis using stay by blast
      next
        case True
        then have hon: "honest_response h V content tagged caller k v r es" using assms(3) r by blast
        have td: "(out, y) = (case resume_failure h debug r k v attempt of
                  Some f \<Rightarrow> (Fail f, x)
                | None \<Rightarrow>
                    if 0 < k \<and> r_status r = 200 then
                      (case rewind (te_rewind env) 0 x of
                         (Inl e, y) \<Rightarrow> (Fail (failure_new ''storage_error'' e attempt), y)
                       | (Inr _, y) \<Rightarrow> receive_response h J env o1 caller attempt delay 0 r es y)
                    else receive_response h J env o1 caller attempt delay k r es x)"
          using assms(4) ok r True unfolding try_download_def Let_def v_def [symmetric] k_def [symmetric] by simp
        show ?thesis
        proof (cases "resume_failure h debug r k v attempt")
          case (Some f)
          then show ?thesis using td stay by simp
        next
          case None
          have st: "0 < k \<Longrightarrow> r_status r = 200 \<or> r_status r = 206" using hon by (simp add: honest_response_def Let_def)
          show ?thesis
          proof (cases "0 < k \<and> r_status r = 200")
            case True
            obtain rr z where z: "rewind (te_rewind env) 0 x = (rr, z)" by (cases "rewind (te_rewind env) 0 x")
            from rewind_left [OF left _ z]
            have zp: "left_ok J V content fp z" "d_target (pf_disk z) = d_target (pf_disk x)"
              "rr = Inr () \<longrightarrow> whole z \<and> pf_file z = [] \<and> pf_state z = (pf_state x)\<lparr>ps_bytes := 0\<rparr>" by auto
            show ?thesis
            proof (cases rr)
              case (Inl e)
              then show ?thesis using td None True z zp by (simp add: after_try_def)
            next
              case (Inr u)
              then have "receive_response h J env o1 caller attempt delay 0 r es z = (out, y)"
                using td None True z by simp
              then have "after_try J V content fp tagged (do_resume o1) z out y"
                by (rule receive_response_ok [OF assms(1) zp(1), rotated -1])
                  (use zp(3) Inr x(2) hon True in \<open>auto simp: v_def\<close>)
              then show ?thesis using zp(2) by (simp add: after_try_def)
            qed
          next
            case False
            then have "receive_response h J env o1 caller attempt delay k r es x = (out, y)"
              using td unfolding None option.case if_not_P [OF False] by simp
            moreover have "0 < k \<Longrightarrow> r_status r = 206 \<and> prefix (pf_file x) (content v) \<and>
                ps_validator (pf_state x) = v \<and> v \<noteq> [] \<and> validator (h_tables h) r \<in> {[], v}"
              using None False st x(3) k by (auto simp: resume_failure_def Let_def good_part_def v_def split: if_splits)
            ultimately show ?thesis
              by (intro receive_response_ok [OF assms(1) left x(1,2) k _ _ _ hon]) auto
          qed
        qed
      qed
    qed
  qed
qed

text \<open>The last attempt does not ask for another one.\<close>

lemma last_try:
  assumes "try_download h debug J o1 caller env attempt delay x = (out, y)" "attempt = max_attempts (do_policy o1)"
  shows "out \<noteq> Retry w"
proof -
  have c: "fst (connection_failed env o1 attempt delay e x) \<noteq> Retry w" for e x
    using assms(2) by (auto simp: connection_failed_def split: sum.splits)
  have b: "fst (body_failed J env o1 attempt delay e x) \<noteq> Retry w" for e x
    using assms(2) by (auto simp: body_failed_def Let_def split: sum.splits)
  have r: "fst (receive_response h J env o1 caller attempt delay k r es x) \<noteq> Retry w" for k r es x
    using b by (auto simp: receive_response_def Let_def split: prod.splits body_outcome.splits sum.splits)
  have "fst (try_download h debug J o1 caller env attempt delay x) \<noteq> Retry w"
    using c r assms(2) by (auto simp: try_download_def Let_def split: sum.splits prod.splits option.splits)
  then show ?thesis using assms(1) by auto
qed

text \<open>The result of a run of attempts.\<close>

definition run_ok :: "part_codec \<Rightarrow> bytes set \<Rightarrow> (bytes \<Rightarrow> bytes) \<Rightarrow> bytes \<Rightarrow> part_file \<Rightarrow> (failure + nat \<times> int) option \<Rightarrow> part_file \<Rightarrow> bool" where
  "run_ok J V content fp x r y \<longleftrightarrow>
     r \<noteq> None \<and>
     (\<forall>f. r = Some (Inl f) \<longrightarrow> left_ok J V content fp y \<and> d_target (pf_disk y) = d_target (pf_disk x)) \<and>
     (\<forall>n a. r = Some (Inr (n, a)) \<longrightarrow> pf_promoted y \<and> d_staged (pf_disk y) = Absent \<and> saved_total_ok J V content fp (pf_disk y) \<and>
        (\<exists>c \<in> V. d_target (pf_disk y) = Regular c \<and> n = length c))"

lemma publish_run:
  assumes "publish_part fault check x = (r, y)" "left_ok J V content fp x" "pf_file x \<in> V" "whole x"
  shows "run_ok J V content fp x (Some (case r of Inl e \<Rightarrow> Inl f | Inr _ \<Rightarrow> Inr (ps_bytes (pf_state y), a))) y"
proof -
  have "\<not> pf_promoted x" using assms(2) by (simp add: left_ok_def)
  from publish_part_ok [OF assms(1) this, of J V content fp] show ?thesis
    using assms(2-4) by (cases r) (auto simp: run_ok_def left_ok_def whole_def)
qed

lemma download_from_ok:
  assumes "part_codec_ok J" "between J V content fp tagged (do_resume o1) x"
    and "\<And>i k v r es. te_serve (env i) (request_headers (do_headers o1) k v) = Inr (r, es) \<Longrightarrow>
        200 \<le> r_status r \<Longrightarrow> r_status r < 300 \<Longrightarrow> honest_response h V content tagged caller k v r es"
    and "download_from h debug J o1 caller env left attempt delay x = (r, y)"
    and "attempt + int left = max_attempts (do_policy o1) + 1" "0 < left"
  shows "run_ok J V content fp x r y"
  using assms(2,4-6)
proof (induction left arbitrary: attempt delay x)
  case (Suc left)
  obtain out z where z: "try_download h debug J o1 caller (env attempt) attempt delay x = (out, z)"
    by (cases "try_download h debug J o1 caller (env attempt) attempt delay x")
  have a: "after_try J V content fp tagged (do_resume o1) x out z"
    by (rule try_download_ok [OF assms(1) Suc.prems(1) _ z]) (rule assms(3))
  show ?case
  proof (cases out)
    case (Fail f)
    then show ?thesis using Suc.prems(2) z a by (auto simp: run_ok_def after_try_def)
  next
    case Publish
    obtain pr u where u: "publish_part (fst (te_publish (env attempt))) (snd (te_publish (env attempt))) z = (pr, u)"
      by (cases "publish_part (fst (te_publish (env attempt))) (snd (te_publish (env attempt))) z")
    have "left_ok J V content fp z" "pf_file z \<in> V" "whole z" "d_target (pf_disk z) = d_target (pf_disk x)"
      using a Publish by (simp_all add: after_try_def)
    then show ?thesis using Suc.prems(2) z Publish u publish_run [OF u, of J V content fp _ attempt]
      by (cases pr) (auto simp: run_ok_def)
  next
    case (Retry w)
    then have b: "between J V content fp tagged (do_resume o1) z" "d_target (pf_disk z) = d_target (pf_disk x)"
      using a by (simp_all add: after_try_def)
    show ?thesis
    proof (cases "te_wait (env attempt) w")
      case (Inl e)
      then show ?thesis using Suc.prems(2) z Retry b(2) between_left [OF b(1)] by (auto simp: run_ok_def)
    next
      case (Inr u)
      have "left \<noteq> 0"
      proof
        assume "left = 0"
        then have "attempt = max_attempts (do_policy o1)" using Suc.prems(3) by simp
        then show False using z Retry last_try by blast
      qed
      then have "run_ok J V content fp z r y"
        using Suc.prems(2,3) z Retry Inr by (intro Suc.IH [OF b(1), of "attempt + 1"]) simp_all
      then show ?thesis using b(2) by (simp add: run_ok_def)
    qed
  qed
qed simp


section \<open>The call\<close>

lemma effective_simps [simp]:
  "do_headers (effective_options o1) = do_headers o1" "do_policy (effective_options o1) = do_policy o1"
  by (simp_all add: effective_options_def)

lemma drop_part_target [simp]: "d_target (drop_part fault x) = d_target (pf_disk x)"
  by (simp add: drop_part_def Let_def)

text \<open>
  C4. A plain download publishes the whole resource or nothing.  Whatever the network, the file
  system and the cancellation do, however many attempts are resumed or restarted and whatever a
  former call left on the disk: the call returns; if it succeeds, the target is one of the
  resources the server sends, complete, and never a mixture of two; if it fails, the target is what
  it was; and while the resource does not change, what the call leaves can be resumed by the next.
\<close>

theorem plain_download_is_whole:
  assumes "1 \<le> max_attempts (do_policy o1)" "part_codec_ok J" "part_disk_ok J V content fp d"
    and "tagged \<or> d_checkpoint d = Absent"
    and "honest_server h V content tagged o1 env"
    and "plain_download h debug J o1 fp ce env d = (r, d')"
  shows "r \<noteq> None \<and> (\<forall>f. r = Some (Inl f) \<longrightarrow> d_target d' = d_target d) \<and>
      (\<forall>n a. r = Some (Inr (n, a)) \<longrightarrow> (\<exists>c \<in> V. d_target d' = Regular c \<and> n = length c)) \<and>
      (\<forall>c. V = {c} \<longrightarrow> (\<forall>v. content v = c) \<longrightarrow> part_disk_ok J V content fp d')"
proof -
  let ?o = "effective_options o1"
  define keep where "keep = (do_resume ?o \<and> do_persistent ?o \<and> fp \<noteq> [])"
  obtain xr d1 where open1: "open_part J (ce_open ce) fp keep d = (xr, d1)" by (cases "open_part J (ce_open ce) fp keep d")
  note opened = open_part_ok [OF assms(3) open1]
  show ?thesis
  proof (cases xr)
    case (Inl e)
    then show ?thesis using assms(6) open1 opened
      by (auto simp: plain_download_def Let_def keep_def)
  next
    case (Inr x)
    have x: "part_ok J V content fp x" "d_target (pf_disk x) = d_target d" "tagged \<or> ps_validator (pf_state x) = []"
      "pf_restored x \<or> pf_file x \<noteq> [] \<Longrightarrow> keep \<and> ps_validator (pf_state x) \<noteq> []"
      using opened Inr assms(4) by auto
    define whole_already where "whole_already = (pf_restored x \<and> 0 < ps_bytes (pf_state x) \<and> 0 < ps_total (pf_state x) \<and>
        int (ps_bytes (pf_state x)) = ps_total (pf_state x))"
    have "\<exists>y. run_ok J V content fp x r y \<and> d' = drop_part (ce_drop ce) y"
    proof (cases whole_already)
      case True
      obtain pr y where y: "publish_part (fst (ce_publish ce)) (snd (ce_publish ce)) x = (pr, y)"
        by (cases "publish_part (fst (ce_publish ce)) (snd (ce_publish ce)) x")
      have w: "whole x" "length (pf_file x) > 0" using x(1) True by (auto simp: part_ok_def whole_already_def whole_def)
      obtain c where "c \<in> V" "prefix (pf_file x) c" "ps_total (pf_state x) = int (length c)"
        using x(1) w(2) True by (auto simp: part_ok_def good_part_def whole_already_def)
      then have "pf_file x = c" using True w(1) by (auto simp: whole_already_def whole_def prefix_def)
      then have fV: "pf_file x \<in> V" using \<open>c \<in> V\<close> by simp
      have "(r, d') = (Some (case pr of Inl e \<Rightarrow> Inl (failure_new ''storage_error''
            (''failed to publish restored download: '' @ (case pr of Inl e \<Rightarrow> e | Inr _ \<Rightarrow> [])) 0)
          | Inr _ \<Rightarrow> Inr (ps_bytes (pf_state y), 0)), drop_part (ce_drop ce) y)"
        using assms(6) open1 Inr True y unfolding plain_download_def Let_def keep_def whole_already_def
        by (cases pr) simp_all
      then show ?thesis using publish_run [OF y part_left [OF x(1)] fV w(1)] by blast
    next
      case False
      obtain r2 y where y: "download_from h debug J ?o (caller_range o1) env (nat (max_attempts (do_policy o1))) 1
          (millis (initial_retry_delay_ms (do_policy o1))) x = (r2, y)" by (metis surj_pair)
      then have e: "(r, d') = (r2, drop_part (ce_drop ce) y)"
        using assms(6) open1 Inr False unfolding plain_download_def Let_def keep_def whole_already_def by simp
      have b: "between J V content fp tagged (do_resume ?o) x"
        using x(1,3,4) by (auto simp: between_def keep_def)
      have "run_ok J V content fp x r2 y"
        by (rule download_from_ok [OF assms(2) b _ y])
          (use assms(1,5) in \<open>simp_all add: honest_server_def\<close>)
      then show ?thesis using e by blast
    qed
    then obtain y where y: "run_ok J V content fp x r y" "d' = drop_part (ce_drop ce) y" by blast
    have "part_disk_ok J V content fp d'" if "V = {c}" "\<forall>v. content v = c" for c
    proof -
      have "left_ok J V content fp y \<or> pf_promoted y \<and> d_staged (pf_disk y) = Absent \<and> saved_total_ok J V content fp (pf_disk y)"
      proof -
        have "(\<exists>f. r = Some (Inl f)) \<or> (\<exists>n a. r = Some (Inr (n, a)))"
          using y(1) unfolding run_ok_def by (metis option.exhaust sum.exhaust surj_pair)
        then show ?thesis using y(1) unfolding run_ok_def by blast
      qed
      then show ?thesis using drop_part_ok [of J c content fp y "ce_drop ce"] that y(2) by simp
    qed
    then show ?thesis using y x(2) by (auto simp: run_ok_def)
  qed
qed

section \<open>A sample call\<close>

lemma show_nat_inj: "show_nat m = show_nat n \<Longrightarrow> m = n"
  using parse_show_nat [of m "int (m + n)" 0] parse_show_nat [of n "int (m + n)" 0] by simp

text \<open>
  The first response breaks off after two of four bytes; the second one resumes.  \<open>other\<close> is the
  status of the second response.
\<close>

definition plain_codec :: part_codec where
  "plain_codec = \<lparr>put_state = (\<lambda>k. put_nat (nat (ps_version k)) @ put_nat (nat (- ps_version k)) @
       put_nat (nat (ps_total k)) @ put_nat (nat (- ps_total k)) @ put_nat (ps_bytes k) @ put_nat (ps_updated_at k) @
       put_nat (length (ps_fingerprint k)) @ ps_fingerprint k @ ps_validator k),
     get_state = (\<lambda>s. let (v, s1) = take_nat s; (v', s2) = take_nat s1; (t, s3) = take_nat s2; (t', s4) = take_nat s3;
         (b, s5) = take_nat s4; (u, s6) = take_nat s5; (n, s7) = take_nat s6
       in Some \<lparr>ps_version = int v - int v', ps_fingerprint = take n s7, ps_validator = drop n s7, ps_bytes = b,
            ps_total = int t - int t', ps_updated_at = u\<rparr>)\<rparr>"

lemma plain_codec_ok: "part_codec_ok plain_codec"
  by (simp add: part_codec_ok_def plain_codec_def take_put)

definition first_response :: response where
  "first_response = \<lparr>r_status = 200, r_headers = [(''Etag'', [''v1''])]\<rparr>"

definition second_response :: response where
  "second_response = \<lparr>r_status = 206, r_headers = [(''Content-Range'', [''bytes 2-3/4''])]\<rparr>"

definition serve_twice :: "int \<Rightarrow> (bytes \<times> bytes) list \<Rightarrow> (response \<times> body_event list) res" where
  "serve_twice i hs =
     (if i = 1 then Inr (first_response, [Chunk ''ab'' 0 Saved 0, BodyFails ''reset''])
      else if hs = request_headers [] 2 ''v1'' then Inr (second_response, [Chunk ''cd'' 0 Saved 0])
      else Inl ''refused'')"

definition plain_env :: "int \<Rightarrow> try_env" where
  "plain_env i = \<lparr>te_check = Inr (), te_serve = serve_twice i, te_rewind = (\<lambda>_. None), te_error_check = Inr (),
     te_restart = (\<lambda>_. None), te_save = (Saved, 0), te_wait = (\<lambda>_. Inr ()), te_random = None,
     te_publish = (\<lambda>_. None, Inr ())\<rparr>"

definition plain_options :: dl_options where
  "plain_options = \<lparr>do_headers = [], do_resume = True, do_persistent = True, do_policy = sample_policy\<rparr>"

definition no_faults :: call_env where
  "no_faults = \<lparr>ce_open = (\<lambda>_. None), ce_publish = (\<lambda>_. None, Inr ()), ce_drop = (\<lambda>_. None)\<rparr>"

lemma resumed_headers: "request_headers [] k v = request_headers [] 2 ''v1'' \<Longrightarrow> k = 2 \<and> v = ''v1''"
  by (auto simp: request_headers_def set_header_def eq_ignore_ascii_case_def ascii_lower_def dest: show_nat_inj split: if_splits)

lemma etag_v1: "trim ''v1'' = ''v1''" "\<not> starts_with (str_upper T ''v1'') ''W/''"
  by (simp_all add: trim_ascii str_upper_ascii ascii_str_def trim_list_def is_white_def starts_with_def ascii_upper_def)

lemma empty_number: "\<exists>e. parse_i64 [] = Inl e"
proof -
  have "isl (parse_i64 [])" by code_simp
  then show ?thesis by (auto simp: isl_def)
qed

lemma four: "parse_i64 ''4'' = Inr 4"
proof -
  have "show_nat 4 = ''4''" by code_simp
  then show ?thesis using parse_show_nat_i64 [of 4] by (simp add: i64_max_def)
qed

lemma first_values:
  "validator (h_tables sample_host) first_response = ''v1''" "announced_total c k first_response = - 1"
  using etag_v1 empty_number
  by (auto simp: validator_def header_def first_response_def Let_def announced_total_def content_length_def unwrap_or_def)

lemma second_values:
  "validator (h_tables sample_host) second_response = []" "announced_total False k second_response = 4"
  using four
  by (auto simp: validator_def header_def second_response_def Let_def announced_total_def after_slash_def)

lemma response_fields:
  "r_status first_response = 200" "r_status second_response = 206" "header second_response ''Content-Range'' = ''bytes 2-3/4''"
  by (simp_all add: first_response_def second_response_def header_def)

lemma two: "show_nat (Suc (Suc 0)) = ''2''" "show_nat 2 = ''2''"
  by code_simp+

lemma plain_honest: "honest_server sample_host {''abcd''} (\<lambda>_. ''abcd'') True plain_options plain_env"
proof -
  have "honest_response sample_host {''abcd''} (\<lambda>_. ''abcd'') True False k v first_response [Chunk ''ab'' 0 Saved 0, BodyFails ''reset'']" for k v
    by (simp add: honest_response_def first_values Let_def) (simp add: first_response_def prefix_def)
  moreover have "honest_response sample_host {''abcd''} (\<lambda>_. ''abcd'') True False 2 v second_response [Chunk ''cd'' 0 Saved 0]" for v
    by (simp add: honest_response_def second_values Let_def) (simp add: second_response_def prefix_def)
  ultimately show ?thesis
    by (auto simp: honest_server_def plain_env_def plain_options_def caller_range_def serve_twice_def split: if_splits
        dest!: resumed_headers)
qed

lemma plain_run:
  "\<exists>r d'. plain_download sample_host id plain_codec plain_options ''fp'' no_faults plain_env sample_disk = (r, d') \<and> r = Some (Inr (4, 2))"
proof -
  have m: "nat (max_attempts sample_policy) = Suc (Suc 6)" by (simp add: sample_policy_fields)
  have e: "(8::nat) = Suc (Suc 6)" by simp
  show ?thesis
    unfolding plain_download_def
    apply (simp add: m plain_options_def effective_options_def caller_range_def no_faults_def open_part_def try_io_def
      sample_disk_def not_regular_def load_part_def open_part_file_def staged_content_def default_state_def set_len_def Let_def
      del: download_from.simps)
    unfolding e download_from.simps(2)
    by (simp add: try_download_def plain_env_def serve_twice_def resume_failure_def first_values second_values Let_def receive_response_def
     request_headers_def set_header_def eq_ignore_ascii_case_def write_part_def write_at_def set_len_def checkpoint_part_def
     body_result_def body_failed_def restart_unless_resumable_def save_part_def publish_part_def sample_policy_fields
     response_fields two starts_with_def)
qed

theorem plain_download_is_whole_witness:
  "\<exists>d'. plain_download sample_host id plain_codec plain_options ''fp'' no_faults plain_env sample_disk = (Some (Inr (4, 2)), d') \<and>
     d_target d' = Regular ''abcd''"
proof -
  obtain d' where d: "plain_download sample_host id plain_codec plain_options ''fp'' no_faults plain_env sample_disk = (Some (Inr (4, 2)), d')"
    using plain_run by blast
  have "part_disk_ok plain_codec {''abcd''} (\<lambda>_. ''abcd'') ''fp'' sample_disk"
    by (simp add: part_disk_ok_def sample_disk_def)
  from plain_download_is_whole [OF _ plain_codec_ok this _ plain_honest d] show ?thesis
    using d by (simp add: plain_options_def sample_policy_fields)
qed

text \<open>
  The assumption on the status of a resumed response is needed: another successful status is taken
  for the rest of the file although its body is the whole one, which is appended.
\<close>

definition third_response :: response where
  "third_response = \<lparr>r_status = 203, r_headers = []\<rparr>"

definition serve_other :: "int \<Rightarrow> (bytes \<times> bytes) list \<Rightarrow> (response \<times> body_event list) res" where
  "serve_other i hs =
     (if i = 1 then Inr (first_response, [Chunk ''ab'' 0 Saved 0, BodyFails ''reset''])
      else Inr (third_response, [Chunk ''abcd'' 0 Saved 0]))"

definition other_env :: "int \<Rightarrow> try_env" where
  "other_env i = (plain_env i)\<lparr>te_serve := serve_other i\<rparr>"

lemma third_values:
  "r_status third_response = 203" "validator (h_tables sample_host) third_response = []" "announced_total c k third_response = - 1"
  using empty_number
  by (auto simp: validator_def header_def third_response_def Let_def announced_total_def content_length_def unwrap_or_def)

lemma other_success_appends:
  "\<exists>r d'. plain_download sample_host id plain_codec plain_options ''fp'' no_faults other_env sample_disk = (r, d') \<and> r = Some (Inr (6, 2)) \<and>
     d_target d' = Regular ''ababcd''"
proof -
  have m: "nat (max_attempts sample_policy) = Suc (Suc 6)" by (simp add: sample_policy_fields)
  have e: "(8::nat) = Suc (Suc 6)" by simp
  show ?thesis
    unfolding plain_download_def
    apply (simp add: m plain_options_def effective_options_def caller_range_def no_faults_def open_part_def try_io_def
      sample_disk_def not_regular_def load_part_def open_part_file_def staged_content_def default_state_def set_len_def Let_def
      del: download_from.simps)
    unfolding e download_from.simps(2)
    by (simp add: try_download_def other_env_def plain_env_def serve_other_def resume_failure_def first_values second_values Let_def receive_response_def
     request_headers_def set_header_def eq_ignore_ascii_case_def write_part_def write_at_def set_len_def checkpoint_part_def
     body_result_def body_failed_def restart_unless_resumable_def save_part_def publish_part_def sample_policy_fields
     response_fields two starts_with_def third_values plain_codec_def drop_part_def)
qed

end
