(* ===== verification/Chunked.thy ===== *)
theory Chunked
  imports PlainDownload
begin

text \<open>
  The chunked download (rust\_backend/crates/extensions/src/download/chunked.rs): a probe asks for
  the first two bytes, then the resource is fetched range by range, each range with its own retries.
  The attempts of a call are numbered through, so that the surroundings are indexed by that number.
\<close>

section \<open>Requests\<close>








section \<open>The probe\<close>



section \<open>One attempt at a chunk\<close>








section \<open>All chunks\<close>






section \<open>What is assumed of the server\<close>
















section \<open>The chunks put together\<close>










section \<open>A sample call\<close>













end
