(* ===== verification/Percent.thy ===== *)
theory Percent
  imports Strings
begin

text \<open>
  Splitting of strings at a byte and percent-encoding, shared by the query and URL code of
  rust\_backend/crates/network/src.
\<close>

section \<open>Splitting\<close>

text \<open>\<^verbatim>\<open>str::split\<close>, \<^verbatim>\<open>split_once\<close>, \<^verbatim>\<open>rsplit_once\<close> with an ASCII character, \<^verbatim>\<open>ends_with\<close> and \<^verbatim>\<open>strip_prefix\<close>.\<close>

fun split_on :: "byte \<Rightarrow> bytes \<Rightarrow> bytes list" where
  "split_on c [] = [[]]"
| "split_on c (b # bs) =
     (if b = c then [] # split_on c bs
      else case split_on c bs of [] \<Rightarrow> [[b]] | p # ps \<Rightarrow> (b # p) # ps)"

definition split_once :: "byte \<Rightarrow> bytes \<Rightarrow> (bytes \<times> bytes) option" where
  "split_once c s =
     (case position (\<lambda>b. b = c) s of None \<Rightarrow> None | Some i \<Rightarrow> Some (take i s, drop (i + 1) s))"

definition rposition :: "(byte \<Rightarrow> bool) \<Rightarrow> bytes \<Rightarrow> nat option" where
  "rposition p s = map_option (\<lambda>i. length s - 1 - i) (position p (rev s))"

definition rsplit_once :: "byte \<Rightarrow> bytes \<Rightarrow> (bytes \<times> bytes) option" where
  "rsplit_once c s =
     (case rposition (\<lambda>b. b = c) s of None \<Rightarrow> None | Some i \<Rightarrow> Some (take i s, drop (i + 1) s))"

definition ends_with :: "bytes \<Rightarrow> bytes \<Rightarrow> bool" where
  "ends_with s t \<longleftrightarrow> length t \<le> length s \<and> drop (length s - length t) s = t"

definition strip_prefix :: "bytes \<Rightarrow> bytes \<Rightarrow> bytes option" where
  "strip_prefix p s = (if starts_with s p then Some (drop (length p) s) else None)"

lemma split_on_ne [simp]: "split_on c s \<noteq> []"
  by (induction s) (auto split: list.splits)

lemma split_on_none: "c \<notin> set s \<Longrightarrow> split_on c s = [s]"
  by (induction s) auto

lemma split_on_append: "c \<notin> set s \<Longrightarrow> split_on c (s @ c # r) = s # split_on c r"
  by (induction s) auto

lemma split_on_parts: "p \<in> set (split_on c s) \<Longrightarrow> c \<notin> set p \<and> set p \<subseteq> set s"
proof (induction s arbitrary: p)
  case Nil
  then show ?case by simp
next
  case (Cons b s)
  show ?case
  proof (cases "b = c")
    case True
    then show ?thesis using Cons by auto
  next
    case False
    obtain q ps where q: "split_on c s = q # ps" by (cases "split_on c s") auto
    then have "p = b # q \<or> p \<in> set ps" using Cons.prems False by simp
    then show ?thesis using Cons.IH [of q] Cons.IH [of p] q False by auto
  qed
qed

lemma split_on_join: "ps \<noteq> [] \<Longrightarrow> (\<forall>p \<in> set ps. c \<notin> set p) \<Longrightarrow> split_on c (join [c] ps) = ps"
  by (induction "[c]" ps rule: join.induct) (simp_all add: split_on_none split_on_append)

lemma join_split_on: "join [c] (split_on c s) = s"
proof (induction s)
  case Nil
  then show ?case by simp
next
  case (Cons b s)
  obtain q ps where q: "split_on c s = q # ps" by (cases "split_on c s") auto
  then show ?case using Cons by (cases ps) auto
qed

lemma split_once_None: "split_once c s = None \<longleftrightarrow> c \<notin> set s"
  using position_None [of "\<lambda>b. b = c" s] by (cases "position (\<lambda>b. b = c) s") (auto simp: split_once_def)

lemma split_once_Some: "split_once c s = Some (a, b) \<longleftrightarrow> s = a @ c # b \<and> c \<notin> set a"
proof
  assume l: "split_once c s = Some (a, b)"
  then obtain i where i: "position (\<lambda>x. x = c) s = Some i" "a = take i s" "b = drop (i + 1) s"
    by (auto simp: split_once_def split: option.splits)
  note p = position_Some [OF i(1)]
  have "s = take i s @ s ! i # drop (Suc i) s" using p id_take_nth_drop by blast
  moreover have "c \<notin> set (take i s)" using p by (auto simp: in_set_conv_nth)
  ultimately show "s = a @ c # b \<and> c \<notin> set a" using i p by simp
next
  assume "s = a @ c # b \<and> c \<notin> set a"
  moreover from this have "position (\<lambda>x. x = c) s = Some (length a)"
    using position_append [of a "\<lambda>x. x = c" c b] by auto
  ultimately show "split_once c s = Some (a, b)" by (simp add: split_once_def)
qed

lemma rposition_None: "rposition p s = None \<longleftrightarrow> (\<forall>b \<in> set s. \<not> p b)"
  by (simp add: rposition_def position_None)

lemma rposition_last: "(\<forall>b \<in> set r. \<not> p b) \<Longrightarrow> p c \<Longrightarrow> rposition p (a @ c # r) = Some (length a)"
  using position_append [of "rev r" p c "rev a"] by (simp add: rposition_def)

lemma rsplit_once_None: "rsplit_once c s = None \<longleftrightarrow> c \<notin> set s"
  using rposition_None [of "\<lambda>b. b = c" s] by (cases "rposition (\<lambda>b. b = c) s") (auto simp: rsplit_once_def)

lemma split_last: "c \<in> set s \<Longrightarrow> \<exists>a r. s = a @ c # r \<and> c \<notin> set r"
  by (rule split_list_last)

lemma rsplit_once_Some: "rsplit_once c s = Some (a, b) \<longleftrightarrow> s = a @ c # b \<and> c \<notin> set b"
proof -
  have *: "rsplit_once c (a @ c # b) = Some (a, b)" if "c \<notin> set b" for a b
  proof -
    have "rposition (\<lambda>x. x = c) (a @ c # b) = Some (length a)" by (rule rposition_last) (use that in auto)
    then show ?thesis by (simp add: rsplit_once_def)
  qed
  show ?thesis
  proof
    assume l: "rsplit_once c s = Some (a, b)"
    then have "c \<in> set s" using rsplit_once_None [of c s] by auto
    then obtain a' b' where "s = a' @ c # b'" "c \<notin> set b'" using split_last by metis
    then show "s = a @ c # b \<and> c \<notin> set b" using * [of b' a'] l by auto
  qed (use * in auto)
qed

lemma ends_with_iff: "ends_with s t \<longleftrightarrow> (\<exists>p. s = p @ t)"
proof
  assume "ends_with s t"
  then have "s = take (length s - length t) s @ t"
    unfolding ends_with_def by (metis append_take_drop_id)
  then show "\<exists>p. s = p @ t" by blast
qed (auto simp: ends_with_def)

lemma strip_prefix_Some: "strip_prefix p s = Some r \<longleftrightarrow> s = p @ r"
  by (auto simp: strip_prefix_def starts_with_def) (metis append_take_drop_id)

section \<open>Percent-encoding\<close>

definition is_alnum :: "byte \<Rightarrow> bool" where
  "is_alnum b \<longleftrightarrow> 48 \<le> u8 b \<and> u8 b \<le> 57 \<or> 65 \<le> u8 b \<and> u8 b \<le> 90 \<or> 97 \<le> u8 b \<and> u8 b \<le> 122"

definition hex_upper :: "nat \<Rightarrow> byte" where
  "hex_upper n = char_of (if n < 10 then 48 + n else 55 + n)"

text \<open>\<^verbatim>\<open>format!("%{byte:02X}")\<close>\<close>

definition percent :: "byte \<Rightarrow> bytes" where
  "percent b = [CHR ''%'', hex_upper (u8 b div 16), hex_upper (u8 b mod 16)]"

definition percent_encode :: "(byte \<Rightarrow> bool) \<Rightarrow> bytes \<Rightarrow> bytes" where
  "percent_encode ok s = concat (map (\<lambda>b. if ok b then [b] else percent b) s)"

lemma percent_encode_simps [simp]:
  "percent_encode ok [] = []"
  "percent_encode ok (b # s) = (if ok b then b # percent_encode ok s else percent b @ percent_encode ok s)"
  by (simp_all add: percent_encode_def)

lemma percent_encode_append [simp]: "percent_encode ok (a @ b) = percent_encode ok a @ percent_encode ok b"
  by (simp add: percent_encode_def)

lemma u8_hex_upper: "n < 16 \<Longrightarrow> u8 (hex_upper n) = (if n < 10 then 48 + n else 55 + n)"
  by (simp add: hex_upper_def)

lemma hex_upper_value [simp]: "n < 16 \<Longrightarrow> hex_value (hex_upper n) = Some n"
  by (simp add: hex_value_def u8_hex_upper)

lemma hex_upper_alnum [simp]: "n < 16 \<Longrightarrow> is_alnum (hex_upper n)"
  by (auto simp: is_alnum_def u8_hex_upper)

lemma nibbles: "u8 b div 16 < 16" "u8 b mod 16 < 16" "u8 b div 16 * 16 + u8 b mod 16 = u8 b"
  using u8_less [of b] by (simp_all add: less_mult_imp_div_less)

lemma percent_set: "c \<in> set (percent b) \<Longrightarrow> c = CHR ''%'' \<or> is_alnum c"
  using nibbles [of b] by (auto simp: percent_def)

lemma percent_encode_set: "c \<in> set (percent_encode ok s) \<Longrightarrow> ok c \<or> c = CHR ''%'' \<or> is_alnum c"
  using percent_set by (auto simp: percent_encode_def split: if_splits)

lemma percent_encode_id: "list_all ok s \<Longrightarrow> percent_encode ok s = s"
  by (induction s) simp_all

end
