(* ===== verification/Query.thy ===== *)
theory Query
  imports Percent BTree
begin

text \<open>
  Query strings (rust\_backend/crates/network/src/query.rs): an ordered map from keys to the values in
  their order, with the encoding of Go's \<^verbatim>\<open>net/url\<close>.
\<close>

section \<open>Decoding and encoding a component\<close>

fun decode_query :: "bytes \<Rightarrow> bytes option" where
  "decode_query [] = Some []"
| "decode_query (b # s) =
     (if b = CHR ''+'' then map_option (\<lambda>r. CHR '' '' # r) (decode_query s)
      else if b = CHR ''%'' then
        (case s of
           h # l # r \<Rightarrow>
             (case hex_value h of None \<Rightarrow> None | Some x \<Rightarrow>
             (case hex_value l of None \<Rightarrow> None | Some y \<Rightarrow>
                map_option (\<lambda>r. char_of (x * 16 + y) # r) (decode_query r)))
         | _ \<Rightarrow> None)
      else map_option (\<lambda>r. b # r) (decode_query s))"

definition query_plain :: "byte \<Rightarrow> bool" where
  "query_plain b \<longleftrightarrow> is_alnum b \<or> b \<in> set ''-_.~''"

definition escape_query :: "bytes \<Rightarrow> bytes" where
  "escape_query s =
     concat (map (\<lambda>b. if query_plain b then [b] else if b = CHR '' '' then ''+'' else percent b) s)"

section \<open>Queries\<close>

type_synonym query = "(bytes, bytes list) btree"

definition push_value :: "bytes \<Rightarrow> bytes \<Rightarrow> query \<Rightarrow> query" where
  "push_value k v q = bt_insert k ((case bt_get q k of None \<Rightarrow> [] | Some vs \<Rightarrow> vs) @ [v]) q"

definition parse_pair :: "bytes \<Rightarrow> query \<Rightarrow> query" where
  "parse_pair p q =
     (let (k, v) = (case split_once CHR ''='' p of Some kv \<Rightarrow> kv | None \<Rightarrow> (p, []))
      in case (decode_query k, decode_query v) of (Some k', Some v') \<Rightarrow> push_value k' v' q | _ \<Rightarrow> q)"

definition parse_query :: "bytes \<Rightarrow> query" where
  "parse_query s =
     fold parse_pair (filter (\<lambda>p. p \<noteq> [] \<and> CHR '';'' \<notin> set p) (split_on CHR ''&'' s)) []"

definition set_query :: "query \<Rightarrow> bytes \<Rightarrow> bytes \<Rightarrow> query" where
  "set_query q k v = bt_insert k [v] q"

definition encode_query :: "query \<Rightarrow> bytes" where
  "encode_query q =
     join ''&'' (concat (map (\<lambda>(k, vs). map (\<lambda>v. escape_query k @ CHR ''='' # escape_query v) vs) q))"

section \<open>Round trip\<close>

definition query_ok :: "query \<Rightarrow> bool" where
  "query_ok q \<longleftrightarrow> bt_ok q \<and> (\<forall>(k, vs) \<in> set q. vs \<noteq> [])"

lemma query_not_special: "\<not> query_plain CHR ''%''" "\<not> query_plain CHR ''+''" "\<not> query_plain CHR ''&''"
    "\<not> query_plain CHR ''=''" "\<not> query_plain CHR '';''"
  by (simp_all add: query_plain_def is_alnum_def)

lemma decode_escape: "decode_query (escape_query s @ r) = map_option (\<lambda>t. s @ t) (decode_query r)"
proof (induction s)
  case Nil
  then show ?case by (simp add: escape_query_def option.map_ident)
next
  case (Cons b s)
  note nb = nibbles [of b]
  have "decode_query (percent b @ u) = map_option (\<lambda>t. b # t) (decode_query u)" for u
    by (simp add: percent_def nb)
  then show ?case using Cons query_not_special
    by (auto simp: escape_query_def option.map_comp o_def)
qed

lemma escape_query_set: "c \<in> set (escape_query s) \<Longrightarrow> query_plain c \<or> c = CHR ''+'' \<or> c = CHR ''%''"
  using percent_set by (auto simp: escape_query_def query_plain_def split: if_splits)

lemma escape_query_free: "CHR ''&'' \<notin> set (escape_query s)" "CHR ''='' \<notin> set (escape_query s)" "CHR '';'' \<notin> set (escape_query s)"
  using escape_query_set query_not_special by fastforce+

lemma parse_pair_escaped: "parse_pair (escape_query k @ CHR ''='' # escape_query v) q = push_value k v q"
proof -
  have "split_once CHR ''='' (escape_query k @ CHR ''='' # escape_query v) = Some (escape_query k, escape_query v)"
    by (simp add: split_once_Some escape_query_free)
  then show ?thesis using decode_escape [of k "[]"] decode_escape [of v "[]"] by (simp add: parse_pair_def)
qed

lemma insert_last: "\<forall>(k', _) \<in> set m. k' < k \<Longrightarrow> bt_insert k v m = m @ [(k, v)]"
  by (induction m) (auto simp: not_less_iff_gr_or_eq)

lemma insert_replace: "\<forall>(k', _) \<in> set m. k' < k \<Longrightarrow> bt_insert k v (m @ [(k, w)]) = m @ [(k, v)]"
  by (induction m) (auto simp: not_less_iff_gr_or_eq)

lemma push_last:
  assumes "\<forall>(k', _) \<in> set m. k' < k"
  shows "push_value k v (m @ [(k, vs)]) = m @ [(k, vs @ [v])]" "push_value k v m = m @ [(k, [v])]"
proof -
  have "map_of m k = None" using assms by (auto simp: map_of_eq_None_iff)
  then show "push_value k v (m @ [(k, vs)]) = m @ [(k, vs @ [v])]" "push_value k v m = m @ [(k, [v])]"
    using insert_last [OF assms] insert_replace [OF assms] by (simp_all add: push_value_def map_add_def)
qed

lemma push_values:
  assumes "\<forall>(k', _) \<in> set m. k' < k"
  shows "fold (push_value k) vs (m @ [(k, us)]) = m @ [(k, us @ vs)]"
  by (induction vs arbitrary: us) (simp_all add: push_last [OF assms])

lemma push_query:
  assumes "query_ok q" "\<forall>(k', _) \<in> set m. \<forall>(k, _) \<in> set q. k' < k"
  shows "fold (\<lambda>(k, vs). fold (push_value k) vs) q m = m @ q"
  using assms
proof (induction q arbitrary: m)
  case Nil
  then show ?case by simp
next
  case (Cons kv q)
  obtain k v vs where kv: "kv = (k, v # vs)" using Cons.prems(1) by (cases kv; cases "snd kv") (auto simp: query_ok_def)
  have lt: "\<forall>(k', _) \<in> set m. k' < k" using Cons.prems(2) kv by fastforce
  have q: "query_ok q" "\<forall>(k', _) \<in> set q. k < k'" using Cons.prems(1) kv by (auto simp: query_ok_def bt_ok_Cons)
  have "fold (\<lambda>(k, vs). fold (push_value k) vs) q (m @ [(k, v # vs)]) = (m @ [(k, v # vs)]) @ q"
    by (rule Cons.IH [OF q(1)]) (use Cons.prems(2) kv q(2) in auto)
  then show ?case using push_values [OF lt, of vs "[v]"] push_last(2) [OF lt] kv by simp
qed

lemma parse_query_pairs:
  assumes "\<forall>p \<in> set ps. p \<noteq> [] \<and> CHR '';'' \<notin> set p \<and> CHR ''&'' \<notin> set p"
  shows "parse_query (join ''&'' ps) = fold parse_pair ps []"
proof (cases "ps = []")
  case False
  then show ?thesis using assms split_on_join [of ps "CHR ''&''"] by (auto simp: parse_query_def filter_id_conv)
qed (simp add: parse_query_def)

lemma parse_encoded:
  assumes "query_ok q"
  shows "parse_query (encode_query q) = q"
proof -
  let ?ps = "concat (map (\<lambda>(k, vs). map (\<lambda>v. escape_query k @ CHR ''='' # escape_query v) vs) q)"
  have "parse_query (encode_query q) = fold parse_pair ?ps []"
    unfolding encode_query_def by (rule parse_query_pairs) (auto simp: escape_query_free)
  also have "fold parse_pair ?ps m = fold (\<lambda>(k, vs). fold (push_value k) vs) q m" for m
  proof (induction q arbitrary: m)
    case (Cons kv q)
    have "(\<lambda>v. parse_pair (escape_query k @ CHR ''='' # escape_query v)) = push_value k" for k
      by (rule ext) (rule ext, rule parse_pair_escaped)
    then show ?case using Cons by (cases kv) (simp add: fold_map o_def)
  qed simp
  also have "\<dots> [] = q" using push_query [OF assms, of "[]"] by simp
  finally show ?thesis .
qed

lemma set_bt_insert: "x \<in> set (bt_insert k v m) \<Longrightarrow> x = (k, v) \<or> x \<in> set m"
  by (induction m) (auto split: if_splits)

lemma push_value_ok: "query_ok q \<Longrightarrow> query_ok (push_value k v q)"
  by (auto simp: query_ok_def push_value_def bt_ok_insert dest!: set_bt_insert)

lemma parse_query_ok: "query_ok (parse_query s)"
proof -
  have pair: "query_ok q \<Longrightarrow> query_ok (parse_pair p q)" for p q
    by (auto simp: parse_pair_def push_value_ok Let_def split: option.splits prod.splits)
  have "query_ok q \<Longrightarrow> query_ok (fold parse_pair ps q)" for ps q
    by (induction ps arbitrary: q) (simp_all add: pair)
  moreover have "query_ok []" by (simp add: query_ok_def)
  ultimately show ?thesis by (simp add: parse_query_def)
qed

text \<open>
  C38. What is parsed from any query string is a map with ordered keys and no key without value, every
  such map is read back from its encoding, and so encoding a parsed query is stable.
\<close>

theorem query_roundtrip:
  "query_ok (parse_query s) \<and> (query_ok q \<longrightarrow> parse_query (encode_query q) = q) \<and>
   parse_query (encode_query (parse_query s)) = parse_query s"
  using parse_query_ok parse_encoded by blast

lemma sample_query:
  "encode_query (parse_query ''z=one+two&x=%FF&x=%2f&bad=%Q0&semi=a;b&empty&~!=*'') = ''empty=&x=%FF&x=%2F&z=one+two&~%21=%2A''"
  by code_simp

theorem query_roundtrip_witness:
  "parse_query (encode_query [(''a'', [''1'', '' ''])]) = [(''a'', [''1'', '' ''])]"
proof -
  have "query_ok [(''a'', [''1'', '' ''])]" by (simp add: query_ok_def bt_ok_def)
  then show ?thesis using query_roundtrip by blast
qed

end
