(* ===== verification/Address.thy ===== *)
theory Address
  imports Percent
begin

text \<open>
  IP addresses: the standard library's parser of literals, and the addresses that
  rust\_backend/crates/network/src/policy.rs counts as private.
\<close>

section \<open>Addresses\<close>

datatype ip_addr = V4 "32 word" | V6 "128 word"

definition octet :: "nat \<Rightarrow> 32 word \<Rightarrow> nat" where
  "octet i w = unat w div 256 ^ (3 - i) mod 256"

definition segment :: "nat \<Rightarrow> 128 word \<Rightarrow> 16 word" where
  "segment i w = ucast (drop_bit (16 * (7 - i)) w)"

fun of_groups :: "nat list \<Rightarrow> nat" where
  "of_groups [] = 0"
| "of_groups (g # gs) = g * 65536 ^ length gs + of_groups gs"

section \<open>Parsing\<close>

text \<open>
  \<^verbatim>\<open>read_number\<close> of the standard library: digits of the radix, at most \<open>limit\<close> of them, a number of at
  most \<open>most\<close>; a leading zero only where it is allowed.
\<close>

definition digit_value :: "nat \<Rightarrow> byte \<Rightarrow> nat option" where
  "digit_value radix b = (case hex_value b of Some v \<Rightarrow> if v < radix then Some v else None | None \<Rightarrow> None)"

definition read_number :: "nat \<Rightarrow> nat \<Rightarrow> bool \<Rightarrow> nat \<Rightarrow> bytes \<Rightarrow> (nat \<times> bytes) option" where
  "read_number radix limit zeros most s =
     (let ds = takeWhile (\<lambda>b. digit_value radix b \<noteq> None) s;
          n = foldl (\<lambda>n b. n * radix + the (digit_value radix b)) 0 ds
      in if ds = [] \<or> limit < length ds \<or> \<not> zeros \<and> hd ds = CHR ''0'' \<and> 1 < length ds \<or> most < n then None
         else Some (n, drop (length ds) s))"

definition after_separator :: "byte \<Rightarrow> nat \<Rightarrow> bytes \<Rightarrow> bytes option" where
  "after_separator c i s = (if i = 0 then Some s else strip_prefix [c] s)"

fun read_octets :: "nat \<Rightarrow> nat \<Rightarrow> bytes \<Rightarrow> (nat list \<times> bytes) option" where
  "read_octets 0 i s = Some ([], s)"
| "read_octets (Suc n) i s =
     (case after_separator CHR ''.'' i s of None \<Rightarrow> None | Some t \<Rightarrow>
     (case read_number 10 3 False 255 t of None \<Rightarrow> None | Some (g, r) \<Rightarrow>
     (case read_octets n (i + 1) r of None \<Rightarrow> None | Some (gs, r') \<Rightarrow> Some (g # gs, r'))))"

definition read_ipv4 :: "bytes \<Rightarrow> (nat \<times> bytes) option" where
  "read_ipv4 s = map_option (\<lambda>(gs, r). (foldl (\<lambda>n g. n * 256 + g) 0 gs, r)) (read_octets 4 0 s)"

text \<open>
  Up to \<open>n\<close> more groups from the \<open>i\<close>-th on; the last two may be an IPv4 address, of which the flag
  tells.
\<close>

fun read_groups :: "nat \<Rightarrow> nat \<Rightarrow> bytes \<Rightarrow> nat list \<times> bool \<times> bytes" where
  "read_groups 0 i s = ([], False, s)"
| "read_groups (Suc n) i s =
     (case after_separator CHR '':'' i s of
        None \<Rightarrow> ([], False, s)
      | Some t \<Rightarrow>
          (case (if 0 < n then read_ipv4 t else None) of
             Some (ip, r) \<Rightarrow> ([ip div 65536, ip mod 65536], True, r)
           | None \<Rightarrow>
               (case read_number 16 4 True 65535 t of
                  None \<Rightarrow> ([], False, s)
                | Some (g, r) \<Rightarrow> (let (gs, v4, r') = read_groups n (i + 1) r in (g # gs, v4, r')))))"

definition read_ipv6 :: "bytes \<Rightarrow> (nat list \<times> bytes) option" where
  "read_ipv6 s =
     (let (front, v4, r) = read_groups 8 0 s
      in if length front = 8 then Some (front, r)
         else if v4 then None
         else case strip_prefix ''::'' r of
           None \<Rightarrow> None
         | Some r1 \<Rightarrow>
             (let (back, _, r2) = read_groups (7 - length front) 0 r1
              in Some (front @ replicate (8 - length front - length back) 0 @ back, r2)))"

definition parse_ipv6 :: "bytes \<Rightarrow> 128 word option" where
  "parse_ipv6 s = (case read_ipv6 s of Some (gs, []) \<Rightarrow> Some (of_nat (of_groups gs)) | _ \<Rightarrow> None)"

definition parse_ip :: "bytes \<Rightarrow> ip_addr option" where
  "parse_ip s =
     (case read_ipv4 s of
        Some (ip, r) \<Rightarrow> if r = [] then Some (V4 (of_nat ip)) else None
      | None \<Rightarrow> map_option V6 (parse_ipv6 s))"

section \<open>What a literal must contain\<close>

lemma after_separator_set: "after_separator c i s = Some t \<Longrightarrow> set t \<subseteq> set s"
  by (auto simp: after_separator_def strip_prefix_Some split: if_splits)

lemma read_number_set: "read_number radix limit zeros most s = Some (n, r) \<Longrightarrow> set r \<subseteq> set s"
  by (auto simp: read_number_def Let_def dest: in_set_dropD split: if_splits)

lemma read_octets_set: "read_octets n i s = Some (gs, r) \<Longrightarrow> set r \<subseteq> set s"
proof (induction n arbitrary: i s gs r)
  case (Suc n)
  then obtain t g u gs' where "after_separator CHR ''.'' i s = Some t" "read_number 10 3 False 255 t = Some (g, u)"
      "read_octets n (i + 1) u = Some (gs', r)"
    by (auto split: option.splits)
  then show ?case using Suc.IH after_separator_set read_number_set by blast
qed simp

lemma read_groups_Suc:
  assumes "read_groups (Suc n) i s = (gs, v, r)"
  shows "gs = [] \<and> \<not> v \<and> r = s \<or>
    (\<exists>t. after_separator CHR '':'' i s = Some t \<and>
       (length gs = 2 \<and> v \<and> set r \<subseteq> set t \<or>
        (\<exists>g u gs'. read_number 16 4 True 65535 t = Some (g, u) \<and> read_groups n (i + 1) u = (gs', v, r) \<and> gs = g # gs')))"
proof (cases "after_separator CHR '':'' i s")
  case (Some t)
  have v4: "set u \<subseteq> set t" if r4: "read_ipv4 t = Some (ip, u)" for ip u
  proof -
    obtain gs where "read_octets 4 0 t = Some (gs, u)" using r4 by (auto simp: read_ipv4_def)
    then show ?thesis by (rule read_octets_set)
  qed
  show ?thesis
  proof (cases "if 0 < n then read_ipv4 t else None")
    case None
    then show ?thesis using assms Some by (auto simp: Let_def split: option.splits prod.splits)
  next
    case (Some ipu)
    then show ?thesis using assms \<open>after_separator _ _ _ = Some t\<close> v4 by (cases ipu) (auto split: if_splits)
  qed
qed (use assms in simp)

lemma read_groups_set: "read_groups n i s = (gs, v, r) \<Longrightarrow> set r \<subseteq> set s"
proof (induction n arbitrary: i s gs r)
  case (Suc n)
  from read_groups_Suc [OF Suc.prems] show ?case
    using Suc.IH after_separator_set read_number_set by blast
qed simp

lemma read_groups_colon:
  assumes "read_groups n (Suc i) s = (g # gs, v, r)"
  shows "CHR '':'' \<in> set s"
proof (cases n)
  case (Suc m)
  obtain t where "after_separator CHR '':'' (Suc i) s = Some t"
    using read_groups_Suc [OF assms [unfolded Suc]] by blast
  then show ?thesis by (auto simp: after_separator_def strip_prefix_Some)
qed (use assms in simp)

lemma read_ipv6_colon:
  assumes "read_ipv6 s = Some (gs, r)"
  shows "CHR '':'' \<in> set s"
proof -
  obtain front v t where f: "read_groups 8 0 s = (front, v, t)" by (metis prod_cases3)
  have f': "read_groups (Suc 7) 0 s = (front, v, t)" using f by simp
  show ?thesis
  proof (cases "length front = 8")
    case True
    then obtain a b xs where fr: "front = a # b # xs" by (cases front; cases "tl front") auto
    have "length front \<noteq> 2" using True by simp
    then obtain u h w where u: "after_separator CHR '':'' 0 s = Some u" "read_number 16 4 True 65535 u = Some (h, w)"
        "read_groups 7 (Suc 0) w = (b # xs, v, t)"
      using read_groups_Suc [OF f'] fr by auto
    then have "CHR '':'' \<in> set w" using read_groups_colon by blast
    then show ?thesis using read_number_set [OF u(2)] after_separator_set [OF u(1)] by blast
  next
    case False
    then have "\<exists>u. t = ''::'' @ u" using assms f
      by (auto simp: read_ipv6_def strip_prefix_Some split: if_splits option.splits)
    then show ?thesis using read_groups_set [OF f] by auto
  qed
qed

lemma parse_ipv6_colon: "parse_ipv6 s = Some w \<Longrightarrow> CHR '':'' \<in> set s"
  by (auto simp: parse_ipv6_def dest: read_ipv6_colon split: option.splits list.splits)

section \<open>Private addresses\<close>

text \<open>The classes are those of \<^verbatim>\<open>std::net\<close>.\<close>

definition private_v4 :: "32 word \<Rightarrow> bool" where
  "private_v4 ip \<longleftrightarrow>
     octet 0 ip = 127 \<or>
     (octet 0 ip = 10 \<or> octet 0 ip = 172 \<and> 16 \<le> octet 1 ip \<and> octet 1 ip \<le> 31 \<or> octet 0 ip = 192 \<and> octet 1 ip = 168) \<or>
     octet 0 ip = 169 \<and> octet 1 ip = 254 \<or>
     224 \<le> octet 0 ip \<and> octet 0 ip \<le> 239 \<or>
     ip = 0 \<or> ip = 0xFFFFFFFF"

definition to_ipv4_mapped :: "128 word \<Rightarrow> 32 word option" where
  "to_ipv4_mapped ip = (if drop_bit 32 ip = 0xFFFF then Some (ucast ip) else None)"

fun is_private_ip :: "ip_addr \<Rightarrow> bool" where
  "is_private_ip (V4 ip) = private_v4 ip"
| "is_private_ip (V6 ip) =
     (case to_ipv4_mapped ip of
        Some v4 \<Rightarrow> private_v4 v4
      | None \<Rightarrow>
          ip = 1 \<or> segment 0 ip AND 0xFE00 = 0xFC00 \<or> segment 0 ip AND 0xFFC0 = 0xFE80 \<or>
          segment 0 ip AND 0xFF00 = 0xFF00 \<or> ip = 0)"

section \<open>The blocks\<close>

text \<open>A block of addresses: those that share their first \<open>len\<close> bits with \<open>base\<close>.\<close>

definition in_block :: "nat \<Rightarrow> nat \<times> nat \<Rightarrow> nat \<Rightarrow> bool" where
  "in_block width = (\<lambda>(base, len) n. n div 2 ^ (width - len) = base div 2 ^ (width - len))"

definition v4_of :: "nat \<Rightarrow> nat \<Rightarrow> nat \<Rightarrow> nat \<Rightarrow> nat" where
  "v4_of a b c d = ((a * 256 + b) * 256 + c) * 256 + d"

definition private_blocks4 :: "(nat \<times> nat) list" where
  "private_blocks4 =
     [(v4_of 0 0 0 0, 32), (v4_of 10 0 0 0, 8), (v4_of 127 0 0 0, 8), (v4_of 169 254 0 0, 16), (v4_of 172 16 0 0, 12),
      (v4_of 192 168 0 0, 16), (v4_of 224 0 0 0, 4), (v4_of 255 255 255 255, 32)]"

definition private_blocks6 :: "(nat \<times> nat) list" where
  "private_blocks6 = [(0, 128), (1, 128), (0xFC00 * 2 ^ 112, 7), (0xFE80 * 2 ^ 112, 10), (0xFF00 * 2 ^ 112, 8)]"

definition private_address :: "ip_addr \<Rightarrow> bool" where
  "private_address ip =
     (case ip of
        V4 w \<Rightarrow> list_ex (\<lambda>b. in_block 32 b (unat w)) private_blocks4
      | V6 w \<Rightarrow> list_ex (\<lambda>b. in_block 128 b (unat w)) private_blocks6 \<or>
          in_block 128 (0xFFFF * 2 ^ 32, 96) (unat w) \<and> list_ex (\<lambda>b. in_block 32 b (unat w mod 2 ^ 32)) private_blocks4)"

text \<open>The first two octets as one number.\<close>

lemma div_mod_pair:
  fixes m :: nat
  assumes "b < 256"
  shows "m div 256 = a \<and> m mod 256 = b \<longleftrightarrow> m = 256 * a + b"
proof
  assume "m div 256 = a \<and> m mod 256 = b"
  then show "m = 256 * a + b" using mult_div_mod_eq [of 256 m] by metis
qed (use assms in simp)

lemma octets_blocks:
  fixes m :: nat
  shows "m div 256 = 172 \<and> 16 \<le> m mod 256 \<and> m mod 256 \<le> 31 \<longleftrightarrow> m div 16 = 2753"
    and "m div 256 = 192 \<and> m mod 256 = 168 \<longleftrightarrow> m = 49320"
    and "m div 256 = 169 \<and> m mod 256 = 254 \<longleftrightarrow> m = 43518"
    and "224 \<le> m div 256 \<and> m div 256 \<le> 239 \<longleftrightarrow> m div 4096 = 14"
proof -
  define q r where "q = m div 16" and "r = m mod 16"
  define x y where "x = q div 16" and "y = q mod 16"
  define z u where "z = x div 16" and "u = x mod 16"
  have m: "m = 16 * q + r" "r < 16" "q = 16 * x + y" "y < 16" "x = 16 * z + u" "u < 16"
    by (simp_all add: q_def r_def x_def y_def z_def u_def)
  have "m = (16 * y + r) + 256 * x" using m by simp
  then have "m mod 256 = (16 * y + r) mod 256" by (simp only: mod_mult_self2)
  then have d: "m div 256 = x" "m mod 256 = 16 * y + r" "m div 4096 = z" "m div 16 = q"
    using m by simp_all
  show "m div 256 = 172 \<and> 16 \<le> m mod 256 \<and> m mod 256 \<le> 31 \<longleftrightarrow> m div 16 = 2753"
  proof -
    have "16 \<le> 16 * y + r \<and> 16 * y + r \<le> 31 \<longleftrightarrow> y = 1" using m(2) by auto
    moreover have "q = 2753 \<Longrightarrow> x = 172 \<and> y = 1" by (simp add: x_def y_def)
    moreover have "x = 172 \<Longrightarrow> y = 1 \<Longrightarrow> q = 2753" using m(3) by simp
    ultimately show ?thesis unfolding d by blast
  qed
  show "m div 256 = 192 \<and> m mod 256 = 168 \<longleftrightarrow> m = 49320"
    "m div 256 = 169 \<and> m mod 256 = 254 \<longleftrightarrow> m = 43518"
    using div_mod_pair [of 168 m 192] div_mod_pair [of 254 m 169] by simp_all
  show "224 \<le> m div 256 \<and> m div 256 \<le> 239 \<longleftrightarrow> m div 4096 = 14"
    unfolding d using m(5,6) by auto
qed

lemma private_v4_blocks: "private_v4 w \<longleftrightarrow> list_ex (\<lambda>b. in_block 32 b (unat w)) private_blocks4"
proof -
  define m where "m = unat w div 65536"
  have n: "unat w < 4294967296" using unsigned_less [of w] by simp
  have m: "m < 65536" using n by (simp add: m_def less_mult_imp_div_less)
  have e: "w = 0 \<longleftrightarrow> unat w = 0" "w = 0xFFFFFFFF \<longleftrightarrow> unat w = 4294967295"
    by (simp_all add: word_unat_eq_iff)
  have d: "unat w div 16777216 = m div 256" "unat w div 1048576 = m div 16" "unat w div 268435456 = m div 4096"
    by (simp_all add: m_def flip: div_mult2_eq)
  have "octet 0 w = m div 256" using m by (simp add: octet_def d less_mult_imp_div_less)
  moreover have "octet 1 w = m mod 256" by (simp add: octet_def m_def)
  ultimately have "private_v4 w \<longleftrightarrow> m div 256 = 127 \<or> (m div 256 = 10 \<or> m div 16 = 2753 \<or> m = 49320) \<or> m = 43518 \<or>
      m div 4096 = 14 \<or> unat w = 0 \<or> unat w = 4294967295"
    unfolding private_v4_def e by (simp only: octets_blocks)
  then show ?thesis by (auto simp: private_blocks4_def in_block_def v4_of_def d m_def [symmetric])
qed

lemma unat_drop: "unat (drop_bit k w) = unat w div 2 ^ k"
  unfolding unat_drop_bit_eq by (rule drop_bit_eq_div)

lemma unat_low: "unat (ucast w :: 'b::len word) = unat w mod 2 ^ LENGTH('b)"
  by (simp add: unsigned_ucast_eq take_bit_eq_mod)

lemma mask_block:
  fixes s v :: "16 word"
  shows "s AND NOT (mask k) = v AND NOT (mask k) \<longleftrightarrow> unat s div 2 ^ k = unat v div 2 ^ k"
proof -
  have "s AND NOT (mask k) = v AND NOT (mask k) \<longleftrightarrow> drop_bit k s = drop_bit k v"
  proof
    assume l: "s AND NOT (mask k) = v AND NOT (mask k)"
    have "drop_bit k x = drop_bit k (x AND NOT (mask k))" for x :: "16 word"
    proof (rule bit_word_eqI)
      fix n
      show "bit (drop_bit k x) n = bit (drop_bit k (x AND NOT (mask k))) n"
        using bit_imp_le_length [of x "k + n"] by (auto simp: bit_simps)
    qed
    then show "drop_bit k s = drop_bit k v" using l by metis
  next
    assume l: "drop_bit k s = drop_bit k v"
    have "x AND NOT (mask k) = push_bit k (drop_bit k x)" for x :: "16 word"
    proof (rule bit_word_eqI)
      fix n
      assume "n < LENGTH(16)"
      then show "bit (x AND NOT (mask k)) n = bit (push_bit k (drop_bit k x)) n"
        by (cases "k \<le> n") (simp_all add: bit_simps)
    qed
    then show "s AND NOT (mask k) = v AND NOT (mask k)" using l by metis
  qed
  then show ?thesis by (simp only: word_unat_eq_iff unat_drop)
qed

lemma segment_0: "unat (segment 0 w) = unat w div 2 ^ 112"
proof -
  have "unat w < 2 ^ 128" using unsigned_less [of w] by simp
  then have "unat w div 2 ^ 112 < 2 ^ 16" by (simp add: less_mult_imp_div_less)
  then show ?thesis by (simp add: segment_def unat_low unat_drop)
qed

lemma segment_block:
  "segment 0 w AND 0xFE00 = 0xFC00 \<longleftrightarrow> unat w div 2 ^ 121 = 0x7E"
  "segment 0 w AND 0xFFC0 = 0xFE80 \<longleftrightarrow> unat w div 2 ^ 118 = 0x3FA"
  "segment 0 w AND 0xFF00 = 0xFF00 \<longleftrightarrow> unat w div 2 ^ 120 = 0xFF"
proof -
  have m: "NOT (mask 9) = (0xFE00 :: 16 word)" "NOT (mask 6) = (0xFFC0 :: 16 word)" "NOT (mask 8) = (0xFF00 :: 16 word)"
    by (simp_all add: mask_eq_exp_minus_1)
  have d: "unat w div 2 ^ 112 div 2 ^ k = unat w div 2 ^ (112 + k)" for k
    by (simp add: power_add flip: div_mult2_eq)
  show "segment 0 w AND 0xFE00 = 0xFC00 \<longleftrightarrow> unat w div 2 ^ 121 = 0x7E"
    using mask_block [of "segment 0 w" 9 "0xFC00"] d [of 9] unfolding m segment_0 by simp
  show "segment 0 w AND 0xFFC0 = 0xFE80 \<longleftrightarrow> unat w div 2 ^ 118 = 0x3FA"
    using mask_block [of "segment 0 w" 6 "0xFE80"] d [of 6] unfolding m segment_0 by simp
  show "segment 0 w AND 0xFF00 = 0xFF00 \<longleftrightarrow> unat w div 2 ^ 120 = 0xFF"
    using mask_block [of "segment 0 w" 8 "0xFF00"] d [of 8] unfolding m segment_0 by simp
qed

lemma mapped_not_private:
  fixes n :: nat
  assumes "n div 4294967296 = 65535"
  shows "n \<noteq> 0 \<and> n \<noteq> 1 \<and> n div 2 ^ 121 = 0 \<and> n div 2 ^ 118 = 0 \<and> n div 2 ^ 120 = 0"
proof -
  have "n < 65536 * 4294967296" by (rule dividend_less_div_times [of 4294967296 n, THEN less_le_trans]) (use assms in simp_all)
  moreover have "n \<noteq> 0" "n \<noteq> 1" using assms by auto
  ultimately show ?thesis by (simp add: div_less)
qed

text \<open>
  C37. The masks and comparisons single out exactly the private, link-local, loopback, multicast,
  broadcast and unspecified blocks of both address families, and their IPv4-mapped forms.
\<close>

theorem private_addresses_exact: "is_private_ip ip \<longleftrightarrow> private_address ip"
proof (cases ip)
  case (V4 w)
  then show ?thesis by (simp add: private_address_def private_v4_blocks)
next
  case (V6 w)
  have e: "w = 0 \<longleftrightarrow> unat w = 0" "w = 1 \<longleftrightarrow> unat w = 1" by (simp_all add: word_unat_eq_iff)
  have mapped: "drop_bit 32 w = 0xFFFF \<longleftrightarrow> in_block 128 (0xFFFF * 2 ^ 32, 96) (unat w)"
    by (simp only: word_unat_eq_iff unat_drop) (simp add: in_block_def)
  have low: "unat (ucast w :: 32 word) = unat w mod 2 ^ 32" by (simp add: unat_low)
  have v6: "w = 1 \<or> segment 0 w AND 0xFE00 = 0xFC00 \<or> segment 0 w AND 0xFFC0 = 0xFE80 \<or>
      segment 0 w AND 0xFF00 = 0xFF00 \<or> w = 0 \<longleftrightarrow> list_ex (\<lambda>b. in_block 128 b (unat w)) private_blocks6"
    unfolding e segment_block by (auto simp: private_blocks6_def in_block_def)
  show ?thesis
  proof (cases "drop_bit 32 w = 0xFFFF")
    case True
    then have "unat w div 2 ^ 32 = 0xFFFF" using mapped by (simp add: in_block_def)
    then have "\<not> list_ex (\<lambda>b. in_block 128 b (unat w)) private_blocks6"
      using mapped_not_private by (simp add: private_blocks6_def in_block_def)
    then show ?thesis using True mapped V6 private_v4_blocks [of "ucast w"] low
      by (simp add: to_ipv4_mapped_def private_address_def)
  next
    case False
    then show ?thesis using v6 mapped V6 by (simp add: to_ipv4_mapped_def private_address_def)
  qed
qed

end
