(* ===== verification/Url.thy ===== *)
theory Url
  imports Address
begin

text \<open>
  URLs (rust\_backend/crates/network/src/url.rs): the parser of references, their serialisation, the
  resolution of relative references and the URI of a request.  The case tables of the standard
  library are parameters, and so are the crates \<^verbatim>\<open>url\<close> (for the IDNA form of a host name) and \<^verbatim>\<open>http\<close>.
\<close>

section \<open>Percent-decoding\<close>

datatype escape_mode = PathMode | HostMode | ZoneMode

definition is_alpha :: "byte \<Rightarrow> bool" where
  "is_alpha b \<longleftrightarrow> 65 \<le> u8 b \<and> u8 b \<le> 90 \<or> 97 \<le> u8 b \<and> u8 b \<le> 122"

text \<open>\<^verbatim>\<open>!$&'()*+,;=\<close>, the sub-delimiters of a URL.\<close>

definition sub_delims :: "byte list" where
  "sub_delims = CHR 0x27 # ''!$&()*+,;=''"

definition valid_host_byte :: "byte \<Rightarrow> bool" where
  "valid_host_byte b \<longleftrightarrow> 128 \<le> u8 b \<or> is_alnum b \<or> b \<in> set (''-._~:[]<>'' @ CHR 0x22 # sub_delims)"

fun decode_url :: "escape_mode \<Rightarrow> bytes \<Rightarrow> bytes option" where
  "decode_url mode [] = Some []"
| "decode_url mode (b # s) =
     (if b = CHR ''%'' then
        (case s of
           h # l # r \<Rightarrow>
             (case hex_value h of None \<Rightarrow> None | Some x \<Rightarrow>
             (case hex_value l of None \<Rightarrow> None | Some y \<Rightarrow>
               (let v = x * 16 + y
                in if mode = HostMode \<and> v < 128 \<and> v \<noteq> 37 then None
                   else if mode = ZoneMode \<and> v \<noteq> 37 \<and> v \<noteq> 32 \<and> \<not> valid_host_byte (char_of v) then None
                   else map_option (\<lambda>r. char_of v # r) (decode_url mode r))))
         | _ \<Rightarrow> None)
      else if mode \<noteq> PathMode \<and> \<not> valid_host_byte b then None
      else map_option (\<lambda>r. b # r) (decode_url mode s))"

definition escape_component :: "bytes \<Rightarrow> bytes \<Rightarrow> bytes" where
  "escape_component reserved s = percent_encode (\<lambda>b. is_alnum b \<or> b \<in> set ''-._~'' \<or> b \<in> set reserved) s"

definition escape_ok :: "bool \<Rightarrow> byte \<Rightarrow> bool" where
  "escape_ok host b \<longleftrightarrow> is_alnum b \<or> b \<in> set (''-._~:[]'' @ sub_delims) \<or> \<not> host \<and> b \<in> set ''/%@?''"

definition escape_url :: "bytes \<Rightarrow> bool \<Rightarrow> bytes" where
  "escape_url s host = percent_encode (escape_ok host) s"

section \<open>Hosts\<close>

definition valid_port :: "bytes \<Rightarrow> bool" where
  "valid_port p \<longleftrightarrow> p = [] \<or> (case strip_prefix '':'' p of None \<Rightarrow> False | Some d \<Rightarrow> list_all is_digit d)"

text \<open>\<^verbatim>\<open>split_once\<close> with a string.\<close>

fun split_once_str :: "bytes \<Rightarrow> bytes \<Rightarrow> (bytes \<times> bytes) option" where
  "split_once_str p [] = (if p = [] then Some ([], []) else None)"
| "split_once_str p (b # s) =
     (if starts_with (b # s) p then Some ([], drop (length p) (b # s))
      else map_option (\<lambda>(a, r). (b # a, r)) (split_once_str p s))"

definition parse_bracketed :: "bytes \<Rightarrow> bytes option" where
  "parse_bracketed raw =
     (let decoded = (case split_once_str ''%25'' raw of
            Some (address, zone) \<Rightarrow>
              Option.bind (decode_url HostMode address) (\<lambda>a. map_option (\<lambda>z. a @ z) (decode_url ZoneMode (''%25'' @ zone)))
          | None \<Rightarrow> decode_url HostMode raw)
      in case decoded of None \<Rightarrow> None | Some d \<Rightarrow>
        (let hostname = from_utf8_lossy d
         in case split_once CHR ''%'' hostname of
              Some (address, zone) \<Rightarrow>
                if zone \<noteq> [] \<and> parse_ipv6 address \<noteq> None then Some hostname else None
            | None \<Rightarrow> if parse_ipv6 hostname \<noteq> None then Some hostname else None))"

definition parse_host :: "bytes \<Rightarrow> bytes \<Rightarrow> bytes option" where
  "parse_host host scheme =
     (case rposition (\<lambda>b. b = CHR ''['') host of
        Some open \<Rightarrow>
          if open \<noteq> 0 then None
          else (case rposition (\<lambda>b. b = CHR '']'') host of
            None \<Rightarrow> None
          | Some close \<Rightarrow>
              if \<not> valid_port (drop (close + 1) host) then None
              else parse_bracketed (drop 1 (take close host)))
      | None \<Rightarrow>
          (let name = (case position (\<lambda>b. b = CHR '':'') host of
                 None \<Rightarrow> Some host
               | Some first \<Rightarrow>
                   (let colon = (if eq_ignore_ascii_case scheme ''http'' \<or> eq_ignore_ascii_case scheme ''https'' then Some first
                                 else rposition (\<lambda>b. b = CHR '':'') host)
                    in case colon of
                         None \<Rightarrow> None
                       | Some i \<Rightarrow> if valid_port (drop i host) then Some (take i host) else None))
           in case name of None \<Rightarrow> None | Some n \<Rightarrow> map_option from_utf8_lossy (decode_url HostMode n)))"

section \<open>The parser\<close>

record url_parts =
  u_scheme :: bytes
  u_hostname :: bytes
  u_path :: bytes
  u_raw_path :: bytes
  u_raw_query :: bytes
  u_force_query :: bool
  u_fragment :: bytes
  u_port :: "bytes option"
  u_has_credentials :: bool
  u_host :: bytes
  u_username :: bytes
  u_password :: "bytes option"
  u_opaque :: bytes
  u_omit_host :: bool

text \<open>What is read from an authority.\<close>

record authority_parts =
  a_hostname :: bytes
  a_port :: "bytes option"
  a_has_credentials :: bool
  a_host :: bytes
  a_username :: bytes
  a_password :: "bytes option"

definition no_authority :: authority_parts where
  "no_authority = \<lparr>a_hostname = [], a_port = None, a_has_credentials = False, a_host = [], a_username = [], a_password = None\<rparr>"

definition valid_user_byte :: "byte \<Rightarrow> bool" where
  "valid_user_byte b \<longleftrightarrow> is_alnum b \<or> b \<in> set (''-._~:%@'' @ sub_delims)"

definition parse_credentials :: "bytes \<Rightarrow> (bytes \<times> bytes option) option" where
  "parse_credentials user =
     (if \<not> list_all valid_user_byte user then None
      else case decode_url PathMode user of None \<Rightarrow> None | Some _ \<Rightarrow>
        (let (name, secret) = (case split_once CHR '':'' user of None \<Rightarrow> (user, None) | Some (n, s) \<Rightarrow> (n, Some s))
         in case decode_url PathMode name of None \<Rightarrow> None | Some n \<Rightarrow>
           (case secret of
              None \<Rightarrow> Some (n, None)
            | Some s \<Rightarrow> map_option (\<lambda>p. (n, Some p)) (decode_url PathMode s))))"

definition port_part :: "bytes \<Rightarrow> bytes option" where
  "port_part host =
     (if starts_with host ''['' then
        map_option (\<lambda>i. drop (i + 1) host) (rposition (\<lambda>b. b = CHR '']'') host)
      else Some (case rposition (\<lambda>b. b = CHR '':'') host of None \<Rightarrow> [] | Some i \<Rightarrow> drop i host))"

definition parse_authority :: "bytes \<Rightarrow> bytes \<Rightarrow> authority_parts option" where
  "parse_authority scheme authority =
     (let (credentials, host) = (case rsplit_once CHR ''@'' authority of
            Some (user, h) \<Rightarrow> (map_option Some (parse_credentials user), h)
          | None \<Rightarrow> (Some None, authority))
      in case credentials of None \<Rightarrow> None | Some c \<Rightarrow>
        (case parse_host host scheme of None \<Rightarrow> None | Some hostname \<Rightarrow>
        (case decode_url PathMode host of None \<Rightarrow> None | Some raw \<Rightarrow>
        (case port_part host of None \<Rightarrow> None | Some p \<Rightarrow>
           Some \<lparr>a_hostname = hostname, a_port = strip_prefix '':'' p, a_has_credentials = (c \<noteq> None), a_host = raw,
                 a_username = (case c of None \<Rightarrow> [] | Some (n, _) \<Rightarrow> n), a_password = Option.bind c snd\<rparr>))))"

fun scan_scheme :: "nat \<Rightarrow> bytes \<Rightarrow> unit + nat option" where
  "scan_scheme i [] = Inr None"
| "scan_scheme i (b # s) =
     (if b = CHR '':'' then (if i = 0 then Inl () else Inr (Some i))
      else if \<not> is_alpha b \<and> \<not> (0 < i \<and> (is_digit b \<or> b \<in> set ''+-.'')) then Inr None
      else scan_scheme (i + 1) s)"

definition split_or_all :: "byte \<Rightarrow> bytes \<Rightarrow> bytes \<times> bytes" where
  "split_or_all c s = (case split_once c s of None \<Rightarrow> (s, []) | Some p \<Rightarrow> p)"

definition parse_rest :: "bytes \<Rightarrow> bytes \<Rightarrow> bytes \<Rightarrow> bytes \<Rightarrow> bool \<Rightarrow> bytes \<Rightarrow> url_parts option" where
  "parse_rest scheme_text scheme rest query force fragment =
     (let with_authority = starts_with rest ''//'' \<and> (scheme_text \<noteq> [] \<or> \<not> starts_with rest ''///'');
          after = drop 2 rest;
          cut = (case position (\<lambda>b. b = CHR ''/'') after of None \<Rightarrow> length after | Some i \<Rightarrow> i);
          (authority, path) = (if with_authority then (parse_authority scheme_text (take cut after), drop cut after)
                               else (Some no_authority, rest))
      in case authority of None \<Rightarrow> None | Some a \<Rightarrow>
        (case (if path = [] then Some ''/'' else decode_url PathMode path) of None \<Rightarrow> None | Some decoded \<Rightarrow>
           Some \<lparr>u_scheme = scheme, u_hostname = a_hostname a, u_path = decoded, u_raw_path = path, u_raw_query = query,
                 u_force_query = force, u_fragment = fragment, u_port = a_port a, u_has_credentials = a_has_credentials a,
                 u_host = a_host a, u_username = a_username a, u_password = a_password a, u_opaque = [],
                 u_omit_host = (scheme_text \<noteq> [] \<and> starts_with rest ''/'' \<and> \<not> starts_with rest ''//'')\<rparr>))"

definition parse_url :: "case_tables \<Rightarrow> (nat list \<Rightarrow> nat \<Rightarrow> bool) \<Rightarrow> bytes \<Rightarrow> url_parts option" where
  "parse_url T sigma whole_input =
     (let (input, fragment) = split_or_all CHR ''#'' whole_input
      in if decode_url PathMode fragment = None \<or> list_ex (\<lambda>b. u8 b < 32 \<or> u8 b = 127) input then None
         else case scan_scheme 0 input of
           Inl _ \<Rightarrow> None
         | Inr found \<Rightarrow>
             (let scheme_text = (case found of None \<Rightarrow> [] | Some i \<Rightarrow> take i input);
                  rest0 = (case found of None \<Rightarrow> input | Some i \<Rightarrow> drop (i + 1) input);
                  (rest, query) = split_or_all CHR ''?'' rest0;
                  force = (ends_with rest0 ''?'' \<and> query = []);
                  scheme = str_lower T sigma scheme_text
              in if \<not> starts_with rest ''/'' \<and> scheme_text \<noteq> [] then
                   Some \<lparr>u_scheme = scheme, u_hostname = [], u_path = [], u_raw_path = rest, u_raw_query = query,
                         u_force_query = force, u_fragment = fragment, u_port = None, u_has_credentials = False, u_host = [],
                         u_username = [], u_password = None, u_opaque = rest, u_omit_host = False\<rparr>
                 else if \<not> starts_with rest ''/'' \<and> CHR '':'' \<in> set (hd (split_on CHR ''/'' rest)) then None
                 else parse_rest scheme_text scheme rest query force fragment))"

section \<open>Serialisation\<close>

definition path_ok :: "byte \<Rightarrow> bool" where
  "path_ok b \<longleftrightarrow> is_alnum b \<or> b \<in> set (''-._~:[]/%@'' @ sub_delims)"

definition escaped_path :: "url_parts \<Rightarrow> bytes" where
  "escaped_path u =
     (if list_all path_ok (u_raw_path u) then u_raw_path u
      else percent_encode (\<lambda>b. is_alnum b \<or> b \<in> set ''-._~$&+,/:;=@'')
        (case decode_url PathMode (u_raw_path u) of None \<Rightarrow> [] | Some d \<Rightarrow> d))"

definition fragment_text :: "url_parts \<Rightarrow> bytes" where
  "fragment_text u =
     (if list_all (\<lambda>b. is_alnum b \<or> b \<in> set (''-._~:[]/%@?'' @ sub_delims)) (u_fragment u) then u_fragment u
      else escape_component ''!$&()*+,/:;=?@'' (case decode_url PathMode (u_fragment u) of None \<Rightarrow> [] | Some d \<Rightarrow> d))"

definition query_text :: "url_parts \<Rightarrow> bytes" where
  "query_text u = (if u_force_query u \<or> u_raw_query u \<noteq> [] then CHR ''?'' # u_raw_query u else [])"

definition authority_text :: "url_parts \<Rightarrow> bytes" where
  "authority_text u =
     (if (u_scheme u \<noteq> [] \<or> u_host u \<noteq> [] \<or> u_has_credentials u) \<and>
         \<not> (u_omit_host u \<and> u_host u = [] \<and> \<not> u_has_credentials u)
      then (if u_host u \<noteq> [] \<or> u_raw_path u \<noteq> [] \<or> u_has_credentials u then ''//'' else []) @
           (if u_has_credentials u then
              escape_component ''$&+,;='' (u_username u) @
              (case u_password u of None \<Rightarrow> [] | Some p \<Rightarrow> CHR '':'' # escape_component ''$&+,;='' p) @ ''@''
            else []) @
           escape_component (CHR 0x22 # '':[]<>'' @ sub_delims) (u_host u)
      else [])"

definition reference_string :: "url_parts \<Rightarrow> bytes" where
  "reference_string u =
     (let scheme = (if u_scheme u \<noteq> [] then u_scheme u @ '':'' else []);
          main = (if u_opaque u \<noteq> [] then scheme @ u_opaque u
            else let start = scheme @ authority_text u; path = escaped_path u;
                     start1 = start @ (if path \<noteq> [] \<and> \<not> starts_with path ''/'' \<and> u_host u \<noteq> [] then ''/'' else []);
                     start2 = start1 @ (if start1 = [] \<and> CHR '':'' \<in> set (hd (split_on CHR ''/'' path)) then ''./'' else [])
                 in start2 @ path)
      in main @ query_text u @ (if u_fragment u \<noteq> [] then CHR ''#'' # fragment_text u else []))"

definition authority_of :: "url_parts \<Rightarrow> bytes" where
  "authority_of u =
     (let host = (if CHR '':'' \<in> set (u_hostname u) then ''['' @ u_hostname u @ '']'' else u_hostname u)
      in case u_port u of Some p \<Rightarrow> if p \<noteq> [] then host @ CHR '':'' # p else host | None \<Rightarrow> host)"

definition display_url :: "url_parts \<Rightarrow> bytes" where
  "display_url u =
     u_scheme u @ ''://'' @ escape_url (authority_of u) True @ escaped_path u @ query_text u @
     (if u_fragment u \<noteq> [] then CHR ''#'' # escape_url (u_fragment u) False else [])"

section \<open>Resolution\<close>

text \<open>
  Dot segments are removed while the path is rebuilt; the flag says that nothing but the first slash
  has been written.
\<close>

definition resolve_step :: "bytes \<Rightarrow> bytes \<times> bool \<Rightarrow> bytes \<times> bool" where
  "resolve_step part state =
     (let (out, first) = state
      in if part = ''.'' then (out, False)
         else if part = ''..'' then
           (let out' = take (case rposition (\<lambda>b. b = CHR ''/'') (drop 1 out) of None \<Rightarrow> 1 | Some i \<Rightarrow> i + 1) out
            in (out', length out' = 1))
         else ((if first then out else out @ ''/'') @ part, False))"

definition full_path :: "bytes \<Rightarrow> bytes \<Rightarrow> bytes" where
  "full_path base reference =
     (if reference = [] then base
      else if starts_with reference ''/'' then reference
      else take (case rposition (\<lambda>b. b = CHR ''/'') base of None \<Rightarrow> 0 | Some i \<Rightarrow> i + 1) base @ reference)"

definition resolve_path :: "bytes \<Rightarrow> bytes \<Rightarrow> bytes" where
  "resolve_path base reference =
     (let full = full_path base reference
      in if full = [] then []
         else let parts = split_on CHR ''/'' full;
                  out = fst (fold resolve_step parts (''/'', True));
                  out1 = (if last parts = ''.'' \<or> last parts = ''..'' then out @ ''/'' else out)
              in if starts_with out1 ''//'' then drop 1 out1 else out1)"

definition inherit_query :: "url_parts \<Rightarrow> url_parts \<Rightarrow> url_parts" where
  "inherit_query base t =
     (if u_raw_path t = [] \<and> \<not> u_force_query t \<and> u_raw_query t = [] then
        t\<lparr>u_raw_query := u_raw_query base, u_fragment := (if u_fragment t = [] then u_fragment base else u_fragment t)\<rparr>
      else t)"

definition resolve_reference :: "case_tables \<Rightarrow> (nat list \<Rightarrow> nat \<Rightarrow> bool) \<Rightarrow> url_parts \<Rightarrow> bytes \<Rightarrow> url_parts option" where
  "resolve_reference T sigma base reference =
     (case parse_url T sigma reference of None \<Rightarrow> None | Some t0 \<Rightarrow>
       (let absolute = (u_scheme t0 \<noteq> [] \<or> u_host t0 \<noteq> [] \<or> u_has_credentials t0);
            t1 = (if u_scheme t0 = [] then t0\<lparr>u_scheme := u_scheme base\<rparr> else t0);
            t2 = (if absolute then
                    (if u_opaque t1 = [] then t1\<lparr>u_raw_path := resolve_path (escaped_path t1) []\<rparr> else t1)
                  else let t = inherit_query base t1
                       in if u_raw_path t = [] \<and> u_opaque base \<noteq> [] then t\<lparr>u_opaque := u_opaque base\<rparr>
                          else t\<lparr>u_host := u_host base, u_hostname := u_hostname base, u_port := u_port base,
                                 u_has_credentials := u_has_credentials base, u_username := u_username base,
                                 u_password := u_password base,
                                 u_raw_path := resolve_path (if u_opaque base = [] then escaped_path base else []) (escaped_path t)\<rparr>)
        in parse_url T sigma (reference_string t2)))"

definition resolve_url :: "case_tables \<Rightarrow> (nat list \<Rightarrow> nat \<Rightarrow> bool) \<Rightarrow> url_parts \<Rightarrow> bytes \<Rightarrow> url_parts option" where
  "resolve_url T sigma base location =
     (case parse_url T sigma location of None \<Rightarrow> None | Some t0 \<Rightarrow>
       (let absolute = (u_scheme t0 \<noteq> [] \<or> u_hostname t0 \<noteq> [] \<or> u_has_credentials t0);
            t1 = (if u_scheme t0 = [] then t0\<lparr>u_scheme := u_scheme base\<rparr> else t0);
            t2 = (if absolute then t1\<lparr>u_raw_path := resolve_path (escaped_path t1) []\<rparr>
                  else let t = inherit_query base t1
                       in t\<lparr>u_hostname := u_hostname base, u_port := u_port base, u_has_credentials := u_has_credentials base,
                            u_raw_path := resolve_path (escaped_path base) (escaped_path t)\<rparr>)
        in map_option (\<lambda>p. t2\<lparr>u_path := p\<rparr>) (decode_url PathMode (u_raw_path t2))))"

section \<open>The URI of a request\<close>

text \<open>
  \<open>ul_domain\<close> is \<^verbatim>\<open>url::Host::parse\<close> with the text of its result, \<open>ul_build\<close> the builder of the crate
  \<^verbatim>\<open>http\<close> for a scheme, an authority and a path with its query, \<open>ul_host\<close> the host of what it built.
\<close>

record 'u uri_lib =
  ul_domain :: "bytes \<Rightarrow> bytes res"
  ul_build :: "bytes \<Rightarrow> bytes \<Rightarrow> bytes \<Rightarrow> 'u res"
  ul_host :: "'u \<Rightarrow> bytes option"

definition given_port :: "url_parts \<Rightarrow> bytes option" where
  "given_port u = (case u_port u of Some p \<Rightarrow> if p \<noteq> [] then Some p else None | None \<Rightarrow> None)"

definition request_host :: "'u uri_lib \<Rightarrow> url_parts \<Rightarrow> bytes res" where
  "request_host L u =
     (if CHR '':'' \<in> set (u_hostname u) then Inr (''['' @ u_hostname u @ '']'') else ul_domain L (u_hostname u))"

definition request_uri :: "'u uri_lib \<Rightarrow> url_parts \<Rightarrow> 'u res" where
  "request_uri L u =
     (if (case given_port u of None \<Rightarrow> False | Some p \<Rightarrow> case parse_int 0 65535 p of Inl _ \<Rightarrow> True | Inr _ \<Rightarrow> False)
      then Inl ''invalid URL port''
      else bind_res (request_host L u) (\<lambda>host. ul_build L (u_scheme u)
           (case given_port u of Some p \<Rightarrow> host @ CHR '':'' # p | None \<Rightarrow> host)
           ((if u_raw_path u = [] then ''/'' else escaped_path u) @ query_text u)))"

section \<open>What parsing guarantees\<close>

definition escape_allowed :: "escape_mode \<Rightarrow> nat \<Rightarrow> bool" where
  "escape_allowed mode v \<longleftrightarrow> \<not> (mode = HostMode \<and> v < 128 \<and> v \<noteq> 37) \<and>
     \<not> (mode = ZoneMode \<and> v \<noteq> 37 \<and> v \<noteq> 32 \<and> \<not> valid_host_byte (char_of v))"

lemma decode_escape_Some:
  "decode_url mode (CHR ''%'' # s) = Some q \<longleftrightarrow>
     (\<exists>h l t x y r. s = h # l # t \<and> hex_value h = Some x \<and> hex_value l = Some y \<and> escape_allowed mode (x * 16 + y) \<and>
        decode_url mode t = Some r \<and> q = char_of (x * 16 + y) # r)"
  by (simp add: escape_allowed_def Let_def split: list.splits option.splits) blast

lemma decode_plain_Some:
  "b \<noteq> CHR ''%'' \<Longrightarrow> decode_url mode (b # s) = Some q \<longleftrightarrow>
     (mode = PathMode \<or> valid_host_byte b) \<and> (\<exists>r. decode_url mode s = Some r \<and> q = b # r)"
  by auto

text \<open>The stricter modes only refuse more, and pieces can be decoded one by one.\<close>

lemma decode_PathMode: "decode_url mode s = Some r \<Longrightarrow> decode_url PathMode s = Some r"
proof (induction s arbitrary: r rule: length_induct)
  case (1 s)
  show ?case
  proof (cases s)
    case (Cons b t)
    have IH: "decode_url mode u = Some q \<Longrightarrow> length u \<le> length t \<Longrightarrow> decode_url PathMode u = Some q" for u q
      using 1 Cons by simp
    show ?thesis
    proof (cases "b = CHR ''%''")
      case True
      then obtain h l u x y q where "t = h # l # u" "hex_value h = Some x" "hex_value l = Some y"
          "decode_url mode u = Some q" "r = char_of (x * 16 + y) # q"
        using 1(2) Cons by (auto simp only: decode_escape_Some)
      then show ?thesis using IH [of u q] Cons True by (auto simp: decode_escape_Some escape_allowed_def)
    next
      case False
      obtain q where "decode_url mode t = Some q" "r = b # q"
        using 1(2) decode_plain_Some [OF False, of mode t r] unfolding Cons by metis
      then show ?thesis using Cons IH [of t q] decode_plain_Some [OF False, of PathMode t] by simp
    qed
  qed (use 1 in simp)
qed

lemma decode_append:
  "decode_url PathMode s = Some a \<Longrightarrow> decode_url PathMode t = Some c \<Longrightarrow> decode_url PathMode (s @ t) = Some (a @ c)"
proof (induction s arbitrary: a rule: length_induct)
  case (1 s)
  show ?case
  proof (cases s)
    case (Cons b u)
    have IH: "decode_url PathMode v = Some q \<Longrightarrow> length v \<le> length u \<Longrightarrow> decode_url PathMode (v @ t) = Some (q @ c)" for v q
      using 1 Cons by simp
    show ?thesis
    proof (cases "b = CHR ''%''")
      case True
      then obtain h l v x y q where "u = h # l # v" "hex_value h = Some x" "hex_value l = Some y"
          "decode_url PathMode v = Some q" "a = char_of (x * 16 + y) # q"
        using 1(2) Cons by (auto simp only: decode_escape_Some)
      then show ?thesis using IH [of v q] Cons True by (auto simp: decode_escape_Some escape_allowed_def)
    next
      case False
      note plain = decode_plain_Some [OF False, of PathMode]
      obtain q where "decode_url PathMode u = Some q" "a = b # q" using 1(2) Cons plain by blast
      then show ?thesis using Cons IH [of u q] plain [of "u @ t"] by simp
    qed
  qed (use 1 in simp)
qed

lemma decode_percent: "decode_url PathMode (percent b @ s) = map_option (\<lambda>r. b # r) (decode_url PathMode s)"
  using nibbles [of b] by (simp add: percent_def)

lemma decode_encoded:
  "\<not> ok CHR ''%'' \<Longrightarrow> decode_url PathMode (percent_encode ok s @ t) = map_option (\<lambda>r. s @ r) (decode_url PathMode t)"
proof (induction s)
  case Nil
  then show ?case by (simp add: option.map_ident)
next
  case (Cons b s)
  then show ?case by (cases "b = CHR ''%''") (auto simp: decode_percent option.map_comp o_def)
qed

lemma escape_ok_special: "\<not> escape_ok True CHR ''%''" "\<not> escape_ok True CHR ''/''" "\<not> escape_ok True CHR ''?''"
    "\<not> escape_ok True CHR ''#''" "\<not> escape_ok True CHR ''@''" "escape_ok True CHR '':''" "escape_ok True CHR ''[''" "escape_ok True CHR '']''"
  by (simp_all add: escape_ok_def sub_delims_def is_alnum_def)

lemma decode_escaped: "decode_url PathMode (escape_url s True) = Some s"
  using decode_encoded [of "escape_ok True" s "[]"] escape_ok_special by (simp add: escape_url_def)

lemma escape_set: "c \<in> set (escape_url s True) \<Longrightarrow> c \<notin> set s \<Longrightarrow> c = CHR ''%'' \<or> is_alnum c"
  using percent_set by (auto simp: escape_url_def percent_encode_def split: if_splits)

lemma escape_free:
  "c \<in> {CHR ''/'', CHR ''?'', CHR ''#'', CHR ''@''} \<Longrightarrow> c \<notin> set (escape_url s True)"
  using percent_encode_set [of c "escape_ok True" s] escape_ok_special by (auto simp: escape_url_def is_alnum_def)

lemma escape_append: "escape_url (a @ b) True = escape_url a True @ escape_url b True"
  by (simp add: escape_url_def)

lemma escape_keeps: "list_all is_digit p \<Longrightarrow> escape_url p True = p"
  unfolding escape_url_def by (rule percent_encode_id) (auto simp: list_all_iff escape_ok_def is_alnum_def is_digit_def)

lemma escape_bracket: "escape_url ''['' True = ''[''" "escape_url '']'' True = '']''" "escape_url '':'' True = '':''"
  using escape_ok_special by (simp_all add: escape_url_def)

lemma split_once_str_Some: "split_once_str p s = Some (a, r) \<Longrightarrow> s = a @ p @ r"
proof (induction p s arbitrary: a r rule: split_once_str.induct)
  case (1 p)
  then show ?case by (simp split: if_splits)
next
  case (2 p b s)
  then show ?case by (auto simp: starts_with_def split: if_splits) (metis append_take_drop_id)
qed

text \<open>A host name is the decoded form of a part of the host.\<close>

lemma decoded_bracket:
  assumes "(case split_once_str ''%25'' raw of
            Some (address, zone) \<Rightarrow>
              Option.bind (decode_url HostMode address) (\<lambda>a. map_option (\<lambda>z. a @ z) (decode_url ZoneMode (''%25'' @ zone)))
          | None \<Rightarrow> decode_url HostMode raw) = Some d"
  shows "decode_url PathMode raw = Some d"
proof (cases "split_once_str ''%25'' raw")
  case None
  then show ?thesis using assms decode_PathMode by simp
next
  case (Some az)
  obtain address zone where az: "az = (address, zone)" by (cases az)
  obtain a z where d: "decode_url HostMode address = Some a" "decode_url ZoneMode (''%25'' @ zone) = Some z" "d = a @ z"
    using assms Some az by (auto simp: bind_eq_Some_conv)
  have "raw = address @ ''%25'' @ zone" using Some az split_once_str_Some by blast
  then show ?thesis using decode_append [OF d(1,2) [THEN decode_PathMode]] d(3) by simp
qed

lemma parse_bracketed_decoded:
  assumes "parse_bracketed raw = Some hn"
  shows "\<exists>d. decode_url PathMode raw = Some d \<and> hn = from_utf8_lossy d"
proof -
  obtain d where "(case split_once_str ''%25'' raw of
            Some (address, zone) \<Rightarrow>
              Option.bind (decode_url HostMode address) (\<lambda>a. map_option (\<lambda>z. a @ z) (decode_url ZoneMode (''%25'' @ zone)))
          | None \<Rightarrow> decode_url HostMode raw) = Some d" "hn = from_utf8_lossy d"
    using assms unfolding parse_bracketed_def Let_def by (auto split: option.splits if_splits)
  then show ?thesis using decoded_bracket by blast
qed

lemma decode_host_set:
  "decode_url HostMode s = Some d \<Longrightarrow> c \<in> set d \<Longrightarrow> u8 c < 128 \<Longrightarrow> c \<noteq> CHR ''%'' \<Longrightarrow> c \<in> set s"
proof (induction s arbitrary: d rule: length_induct)
  case (1 s)
  show ?case
  proof (cases s)
    case (Cons b t)
    have IH: "decode_url HostMode u = Some q \<Longrightarrow> length u \<le> length t \<Longrightarrow> c \<in> set q \<Longrightarrow> c \<in> set u" for u q
      using 1 Cons by simp
    show ?thesis
    proof (cases "b = CHR ''%''")
      case True
      then obtain h l u x y q where s: "t = h # l # u" "escape_allowed HostMode (x * 16 + y)"
          "decode_url HostMode u = Some q" "d = char_of (x * 16 + y) # q" "hex_value h = Some x" "hex_value l = Some y"
        using 1(2) Cons by (auto simp only: decode_escape_Some)
      have "x < 16" "y < 16" using s(5,6) by (auto simp: hex_value_def split: if_splits)
      then have v: "u8 (char_of (x * 16 + y)) = x * 16 + y" by simp
      have "c \<noteq> char_of (x * 16 + y)"
      proof
        assume e: "c = char_of (x * 16 + y)"
        then have "x * 16 + y < 128" using 1(4) v by simp
        then have "x * 16 + y = 37" using s(2) by (auto simp: escape_allowed_def)
        moreover have "char_of (37::nat) = CHR ''%''" by code_simp
        ultimately show False using 1(5) e by simp
      qed
      then show ?thesis using 1(3) s Cons IH [of u q] by auto
    next
      case False
      obtain q where "decode_url HostMode t = Some q" "d = b # q"
        using 1(2) decode_plain_Some [OF False, of HostMode t d] unfolding Cons by metis
      then show ?thesis using Cons IH [of t q] 1(3) by auto
    qed
  qed (use 1 in simp)
qed

lemma parse_host_cases:
  assumes "parse_host host scheme = Some hn"
  shows "CHR ''['' \<notin> set host \<and> (\<exists>n r d. host = n @ r \<and> valid_port r \<and> (r = [] \<longrightarrow> CHR '':'' \<notin> set host) \<and> decode_url HostMode n = Some d \<and> hn = from_utf8_lossy d) \<or>
    (\<exists>raw after. host = CHR ''['' # raw @ CHR '']'' # after \<and> CHR '']'' \<notin> set after \<and> valid_port after \<and> parse_bracketed raw = Some hn)"
proof (cases "rposition (\<lambda>b. b = CHR ''['') host")
  case None
  then have "CHR ''['' \<notin> set host" by (auto simp: rposition_None)
  moreover obtain n r where n: "host = n @ r" "valid_port r" "r = [] \<longrightarrow> CHR '':'' \<notin> set host"
      "map_option from_utf8_lossy (decode_url HostMode n) = Some hn"
  proof (cases "position (\<lambda>b. b = CHR '':'') host")
    case p: None
    then have "CHR '':'' \<notin> set host" by (auto simp: position_None)
    then show ?thesis using that [of host "[]"] assms None p by (simp add: parse_host_def valid_port_def)
  next
    case (Some i)
    then obtain j where j: "valid_port (drop j host)" "map_option from_utf8_lossy (decode_url HostMode (take j host)) = Some hn"
        "j = i \<or> rposition (\<lambda>b. b = CHR '':'') host = Some j"
      using assms None by (auto simp: parse_host_def Let_def split: option.splits if_splits)
    have "j < length host"
    proof (cases "j = i")
      case True
      then show ?thesis using position_Some [OF Some] by simp
    next
      case False
      then show ?thesis using j(3) position_Some by (fastforce simp: rposition_def)
    qed
    then show ?thesis using that [of "take j host" "drop j host"] j by simp
  qed
  moreover from n(4) obtain d where "decode_url HostMode n = Some d" "hn = from_utf8_lossy d" by auto
  ultimately show ?thesis by blast
next
  case (Some i)
  then have i: "i = 0" "rposition (\<lambda>b. b = CHR '']'') host \<noteq> None" using assms
    by (auto simp: parse_host_def split: if_splits option.splits)
  have "CHR '']'' \<in> set host" using i(2) rposition_None [of "\<lambda>b. b = CHR '']''" host] by auto
  then obtain pre after where h: "host = pre @ CHR '']'' # after" "CHR '']'' \<notin> set after" by (metis split_last)
  have close: "rposition (\<lambda>b. b = CHR '']'') host = Some (length pre)"
    unfolding h(1) by (rule rposition_last) (use h(2) in auto)
  have "host \<noteq> []" using h by simp
  have "CHR ''['' \<in> set host" using Some rposition_None [of "\<lambda>b. b = CHR ''[''" host] by fastforce
  then obtain p q where pq: "host = p @ CHR ''['' # q" "CHR ''['' \<notin> set q" by (metis split_last)
  have "rposition (\<lambda>b. b = CHR ''['') host = Some (length p)"
    unfolding pq(1) by (rule rposition_last) (use pq(2) in auto)
  then have "p = []" using Some i by simp
  then have "hd host = CHR ''[''" using pq by simp
  then obtain raw where pre: "pre = CHR ''['' # raw" using h by (cases pre) auto
  then have "valid_port after \<and> parse_bracketed raw = Some hn"
    using assms Some i close h by (auto simp: parse_host_def split: if_splits)
  then show ?thesis using h pre by auto
qed

text \<open>What holds of every host name.\<close>

definition hostname_ok :: "bytes \<Rightarrow> bool" where
  "hostname_ok hn \<longleftrightarrow> is_utf8 hn \<and> (CHR ''['' \<in> set hn \<longrightarrow> CHR '':'' \<in> set hn)"

lemma repl_high: "c \<in> set repl \<Longrightarrow> 128 \<le> u8 c"
  by (auto simp: repl_def)

lemma parse_bracketed_ok:
  assumes "parse_bracketed raw = Some hn"
  shows "hostname_ok hn \<and> CHR '':'' \<in> set hn"
proof -
  have "is_utf8 hn" using parse_bracketed_decoded [OF assms] from_utf8_lossy_utf8 by blast
  moreover have "\<exists>a. set a \<subseteq> set hn \<and> parse_ipv6 a \<noteq> None"
  proof -
    obtain d where "(case split_once CHR ''%'' (from_utf8_lossy d) of
        Some (address, zone) \<Rightarrow> if zone \<noteq> [] \<and> parse_ipv6 address \<noteq> None then Some (from_utf8_lossy d) else None
      | None \<Rightarrow> if parse_ipv6 (from_utf8_lossy d) \<noteq> None then Some (from_utf8_lossy d) else None) = Some hn"
      using assms unfolding parse_bracketed_def Let_def by (split option.splits) auto
    note d = this
    show ?thesis
    proof (cases "split_once CHR ''%'' (from_utf8_lossy d)")
      case (Some az)
      obtain a z where az: "az = (a, z)" by (cases az)
      then have "from_utf8_lossy d = a @ CHR ''%'' # z" using Some by (simp add: split_once_Some)
      then have "set a \<subseteq> set (from_utf8_lossy d)" by auto
      moreover have "parse_ipv6 a \<noteq> None \<and> hn = from_utf8_lossy d" using d Some az by (auto split: if_splits)
      ultimately show ?thesis by blast
    qed (use d in \<open>auto split: if_splits\<close>)
  qed
  ultimately show ?thesis using parse_ipv6_colon by (auto simp: hostname_ok_def)
qed

lemma parse_host_ok:
  assumes "parse_host host scheme = Some hn"
  shows "hostname_ok hn"
  using parse_host_cases [OF assms]
proof (elim disjE exE conjE)
  fix n r d
  assume n: "CHR ''['' \<notin> set host" "decode_url HostMode n = Some d" "hn = from_utf8_lossy d" "host = n @ r"
  have "CHR ''['' \<notin> set hn"
  proof
    assume "CHR ''['' \<in> set hn"
    then have "CHR ''['' \<in> set d" using n(3) from_utf8_lossy_set repl_high by fastforce
    then show False using decode_host_set [OF n(2)] n(1,4) by simp
  qed
  then show ?thesis using n(3) by (simp add: hostname_ok_def from_utf8_lossy_utf8)
qed (use parse_bracketed_ok in blast)

definition scheme_byte :: "byte \<Rightarrow> bool" where
  "scheme_byte b \<longleftrightarrow> is_alpha b \<or> is_digit b \<or> b \<in> set ''+-.''"

lemma scheme_byte_facts:
  "\<not> scheme_byte CHR '':''" "scheme_byte b \<Longrightarrow> u8 b < 128" "scheme_byte b \<Longrightarrow> scheme_byte (ascii_lower b)"
  "is_alpha b \<Longrightarrow> scheme_byte b" "is_alpha b \<Longrightarrow> is_alpha (ascii_lower b)" "ascii_lower (ascii_lower b) = ascii_lower b"
  by (auto simp: scheme_byte_def is_alpha_def ascii_lower_def is_digit_def)

lemma scan_scheme_step:
  "scan_scheme i (b # s) =
     (if b = CHR '':'' then (if i = 0 then Inl () else Inr (Some i))
      else if is_alpha b \<or> 0 < i \<and> scheme_byte b then scan_scheme (i + 1) s else Inr None)"
  by (auto simp: scheme_byte_def)

definition scheme_ok :: "bytes \<Rightarrow> bool" where
  "scheme_ok s \<longleftrightarrow> (case s of [] \<Rightarrow> True | b # r \<Rightarrow> is_alpha b \<and> list_all scheme_byte r) \<and>
     map ascii_lower s = s"

definition url_ok :: "url_parts \<Rightarrow> bool" where
  "url_ok u \<longleftrightarrow> scheme_ok (u_scheme u) \<and> hostname_ok (u_hostname u) \<and>
     (\<forall>p. u_port u = Some p \<longrightarrow> list_all is_digit p) \<and> CHR ''#'' \<notin> set (u_raw_query u)"

lemma scan_scheme_found:
  "scan_scheme i s = Inr (Some j) \<Longrightarrow> i \<le> j \<and> j - i < length s \<and> 0 < j \<and> s ! (j - i) = CHR '':'' \<and>
     list_all scheme_byte (take (j - i) s) \<and> (i = 0 \<longrightarrow> is_alpha (hd s))"
proof (induction i s rule: scan_scheme.induct)
  case (2 i b s)
  show ?case
  proof (cases "b = CHR '':''")
    case True
    then show ?thesis using 2 by (auto split: if_splits)
  next
    case False
    then have st: "scan_scheme (i + 1) s = Inr (Some j)" "is_alpha b \<or> 0 < i \<and> scheme_byte b"
      using "2.prems" unfolding scan_scheme_step by (simp_all split: if_splits)
    have c: "\<not> (\<not> is_alpha b \<and> \<not> (0 < i \<and> (is_digit b \<or> b \<in> set ''+-.'')))"
      using st(2) by (auto simp: scheme_byte_def)
    have ih: "i + 1 \<le> j \<and> j - (i + 1) < length s \<and> 0 < j \<and> s ! (j - (i + 1)) = CHR '':'' \<and>
       list_all scheme_byte (take (j - (i + 1)) s)"
      using "2.IH" [OF False c st(1)] by simp
    moreover have "j - i = Suc (j - (i + 1))" using ih by arith
    ultimately show ?thesis using st(2) scheme_byte_facts(4) [of b] by auto
  qed
qed simp

lemma scan_scheme_text:
  "list_all scheme_byte s \<Longrightarrow> i = 0 \<longrightarrow> s \<noteq> [] \<and> is_alpha (hd s) \<Longrightarrow>
     scan_scheme i (s @ CHR '':'' # r) = Inr (Some (i + length s))"
proof (induction s arbitrary: i)
  case (Cons b s)
  then have "b \<noteq> CHR '':''" "is_alpha b \<or> 0 < i \<and> scheme_byte b" "list_all scheme_byte s" using scheme_byte_facts(1) by auto
  then show ?case using Cons.IH [of "i + 1"] unfolding append_Cons scan_scheme_step by simp
qed simp

lemma scheme_lower:
  assumes "scan_scheme 0 s = Inr (Some j)"
  shows "scheme_ok (str_lower T sigma (take j s)) \<and> take j s \<noteq> []"
proof -
  note f = scan_scheme_found [OF assms]
  let ?t = "take j s"
  have a: "ascii_str ?t" using f scheme_byte_facts(2) by (auto simp: ascii_str_def list_all_iff)
  have ne: "?t \<noteq> []" "hd ?t = hd s" using f by (auto simp: hd_take)
  have "list_all scheme_byte (map ascii_lower ?t)"
    using f scheme_byte_facts(3) by (auto simp: list_all_iff)
  moreover have "is_alpha (hd (map ascii_lower ?t))" using f ne by (simp add: hd_map scheme_byte_facts)
  ultimately have "scheme_ok (map ascii_lower ?t)"
    using ne by (cases "map ascii_lower ?t") (auto simp: scheme_ok_def scheme_byte_facts)
  then show ?thesis using ne str_lower_ascii [OF a] by simp
qed

lemma valid_port_Some: "valid_port (CHR '':'' # d) \<longleftrightarrow> list_all is_digit d"
  by (simp add: valid_port_def strip_prefix_def starts_with_def)

lemma valid_port_cases: "valid_port r \<longleftrightarrow> r = [] \<or> (\<exists>d. r = CHR '':'' # d \<and> list_all is_digit d)"
proof (cases r)
  case (Cons c d)
  then show ?thesis
    using valid_port_Some [of d] by (cases "c = CHR '':''") (auto simp: valid_port_def strip_prefix_def starts_with_def)
qed (simp add: valid_port_def)

lemma digits_free: "list_all is_digit d \<Longrightarrow> c \<in> {CHR '':'', CHR '']'', CHR ''['', CHR ''/''} \<Longrightarrow> c \<notin> set d"
  by (auto simp: list_all_iff is_digit_def)

text \<open>The port is what follows the name.\<close>

lemma port_part_plain:
  assumes "CHR ''['' \<notin> set (n @ r)" "valid_port r" "r = [] \<longrightarrow> CHR '':'' \<notin> set n"
  shows "port_part (n @ r) = Some r"
proof -
  have "\<not> starts_with (n @ r) ''[''" using assms(1) by (cases "n @ r") (auto simp: starts_with_def)
  moreover have "(case rposition (\<lambda>b. b = CHR '':'') (n @ r) of None \<Rightarrow> [] | Some i \<Rightarrow> drop i (n @ r)) = r"
  proof (cases r)
    case Nil
    then have "rposition (\<lambda>b. b = CHR '':'') (n @ r) = None" using assms(3) by (auto simp: rposition_None)
    then show ?thesis using Nil by simp
  next
    case (Cons c d)
    then have d: "c = CHR '':''" "list_all is_digit d" using assms(2) by (auto simp: valid_port_cases)
    then have "\<forall>b \<in> set d. b \<noteq> CHR '':''" using digits_free by blast
    then have "rposition (\<lambda>b. b = CHR '':'') (n @ CHR '':'' # d) = Some (length n)" by (rule rposition_last) simp
    then show ?thesis using Cons d by simp
  qed
  ultimately show ?thesis by (simp add: port_part_def)
qed

lemma port_part_bracket:
  assumes "CHR '']'' \<notin> set r"
  shows "port_part (CHR ''['' # raw @ CHR '']'' # r) = Some r"
proof -
  have "rposition (\<lambda>b. b = CHR '']'') ((CHR ''['' # raw) @ CHR '']'' # r) = Some (length (CHR ''['' # raw))"
    by (rule rposition_last) (use assms in auto)
  then show ?thesis by (simp add: port_part_def starts_with_def)
qed

lemma parse_host_port:
  assumes "parse_host host scheme = Some hn" "port_part host = Some p"
  shows "valid_port p"
  using parse_host_cases [OF assms(1)]
proof (elim disjE exE conjE)
  fix n r d
  assume "CHR ''['' \<notin> set host" "host = n @ r" "valid_port r" "r = [] \<longrightarrow> CHR '':'' \<notin> set host"
  then show ?thesis using port_part_plain [of n r] assms(2) by auto
next
  fix raw after
  assume "host = CHR ''['' # raw @ CHR '']'' # after" "CHR '']'' \<notin> set after" "valid_port after"
  then show ?thesis using port_part_bracket [of after raw] assms(2) by simp
qed

lemma parse_authority_ok:
  assumes "parse_authority scheme authority = Some a"
  shows "hostname_ok (a_hostname a) \<and> (\<forall>p. a_port a = Some p \<longrightarrow> list_all is_digit p)"
proof -
  obtain host p where h: "parse_host host scheme = Some (a_hostname a)" "port_part host = Some p" "a_port a = strip_prefix '':'' p"
    using assms unfolding parse_authority_def Let_def by (auto split: option.splits prod.splits)
  have "list_all is_digit d" if "strip_prefix '':'' p = Some d" for d
    using parse_host_port [OF h(1,2)] that by (auto simp: strip_prefix_Some valid_port_Some)
  then show ?thesis using h parse_host_ok by auto
qed

lemma split_or_all_set: "split_or_all c s = (a, b) \<Longrightarrow> c \<notin> set a \<and> set a \<subseteq> set s \<and> set b \<subseteq> set s"
  by (auto simp: split_or_all_def split_once_None split_once_Some split: option.splits)

lemma parse_rest_ok:
  assumes "parse_rest scheme_text scheme rest query force fragment = Some u" "scheme_ok scheme" "CHR ''#'' \<notin> set query"
  shows "url_ok u"
proof -
  have no: "hostname_ok (a_hostname no_authority)" "a_port no_authority = None"
    by (simp_all add: no_authority_def hostname_ok_def)
  have "hostname_ok (u_hostname u) \<and> (\<forall>p. u_port u = Some p \<longrightarrow> list_all is_digit p) \<and> u_scheme u = scheme \<and> u_raw_query u = query"
    using assms(1) unfolding parse_rest_def Let_def
    by (auto simp: no dest!: parse_authority_ok split: option.splits if_splits)
  then show ?thesis using assms(2,3) by (auto simp: url_ok_def)
qed

lemma parse_url_ok:
  assumes "parse_url T sigma s = Some u"
  shows "url_ok u"
proof -
  obtain input fragment where i: "split_or_all CHR ''#'' s = (input, fragment)" by (metis surj_pair)
  have "CHR ''#'' \<notin> set input" using split_or_all_set [OF i] by simp
  obtain found where f: "scan_scheme 0 input = Inr found" using assms i
    by (auto simp: parse_url_def split: sum.splits if_splits)
  define rest0 where "rest0 = (case found of None \<Rightarrow> input | Some i \<Rightarrow> drop (i + 1) input)"
  define stext where "stext = (case found of None \<Rightarrow> [] | Some i \<Rightarrow> take i input)"
  obtain rest query where q: "split_or_all CHR ''?'' rest0 = (rest, query)" by (metis surj_pair)
  have "set rest0 \<subseteq> set input" by (auto simp: rest0_def dest: in_set_dropD split: option.splits)
  then have nq: "CHR ''#'' \<notin> set query" using split_or_all_set [OF q] \<open>CHR ''#'' \<notin> set input\<close> by blast
  have sc: "scheme_ok (str_lower T sigma stext)"
    using scheme_lower f by (auto simp: stext_def str_lower_ascii ascii_str_def scheme_ok_def split: option.splits)
  have "(\<exists>force. parse_rest stext (str_lower T sigma stext) rest query force fragment = Some u) \<or>
      u_scheme u = str_lower T sigma stext \<and> u_hostname u = [] \<and> u_port u = None \<and> u_raw_query u = query"
    using assms i f q unfolding parse_url_def rest0_def stext_def
    by (auto simp: Let_def split: if_splits)
  then show ?thesis using parse_rest_ok [OF _ sc nq] sc nq by (auto simp: url_ok_def hostname_ok_def)
qed

section \<open>The displayed URL names the same host\<close>

lemma escaped_path_set: "c \<in> set (escaped_path u) \<Longrightarrow> c \<noteq> CHR ''?'' \<and> c \<noteq> CHR ''#''"
proof -
  assume c: "c \<in> set (escaped_path u)"
  show ?thesis
  proof (cases "list_all path_ok (u_raw_path u)")
    case True
    then have "path_ok c" using c by (simp add: escaped_path_def list_all_iff)
    then show ?thesis by (auto simp: path_ok_def sub_delims_def is_alnum_def)
  next
    case False
    then show ?thesis using c by (auto simp: escaped_path_def is_alnum_def dest!: percent_encode_set)
  qed
qed

lemma escaped_path_start:
  assumes "u_raw_path u = [] \<or> starts_with (u_raw_path u) ''/''"
  shows "escaped_path u = [] \<or> (\<exists>r. escaped_path u = CHR ''/'' # r)"
proof (cases "list_all path_ok (u_raw_path u)")
  case True
  then show ?thesis using assms by (auto simp: escaped_path_def starts_with_split)
next
  case False
  then obtain r where r: "u_raw_path u = CHR ''/'' # r" using assms by (auto simp: starts_with_split)
  have d: "decode_url PathMode (u_raw_path u) = map_option (\<lambda>x. CHR ''/'' # x) (decode_url PathMode r)"
    unfolding r by simp
  let ?ok = "\<lambda>b. is_alnum b \<or> b \<in> set ''-._~$&+,/:;=@''"
  have e: "escaped_path u = percent_encode ?ok (case decode_url PathMode (u_raw_path u) of None \<Rightarrow> [] | Some d \<Rightarrow> d)"
    unfolding escaped_path_def by (rule if_not_P [OF False])
  show ?thesis
  proof (cases "decode_url PathMode r")
    case None
    then show ?thesis using e d by simp
  next
    case (Some x)
    then have "escaped_path u = percent_encode ?ok (CHR ''/'' # x)" using e d by simp
    then show ?thesis by simp
  qed
qed

lemma host_back:
  assumes "hostname_ok h" "valid_port r"
    and "parse_host (if CHR '':'' \<in> set h then CHR ''['' # escape_url h True @ CHR '']'' # r else escape_url h True @ r) scheme = Some hn"
      (is "parse_host ?e _ = _")
  shows "hn = h \<and> port_part ?e = Some r"
proof -
  have r: "CHR '']'' \<notin> set r" "CHR ''['' \<notin> set r"
    using assms(2) by (auto simp: valid_port_cases list_all_iff is_digit_def dest: bspec)
  have lossy: "from_utf8_lossy h = h" using assms(1) by (simp add: hostname_ok_def from_utf8_lossy_valid)
  show ?thesis
  proof (cases "CHR '':'' \<in> set h")
    case True
    then obtain raw after where a: "?e = CHR ''['' # raw @ CHR '']'' # after" "CHR '']'' \<notin> set after" "parse_bracketed raw = Some hn"
      using parse_host_cases [OF assms(3)] by auto
    have "rsplit_once CHR '']'' ?e = Some (CHR ''['' # raw, after)" unfolding a(1) using a(2)
      by (simp add: rsplit_once_Some)
    moreover have "rsplit_once CHR '']'' ?e = Some (CHR ''['' # escape_url h True, r)" using True r
      by (simp add: rsplit_once_Some)
    ultimately have "raw = escape_url h True" by simp
    then have "hn = h" using parse_bracketed_decoded [OF a(3)] decode_escaped lossy by auto
    then show ?thesis using True port_part_bracket r by simp
  next
    case False
    then have "CHR ''['' \<notin> set h" using assms(1) by (auto simp: hostname_ok_def)
    then have esc: "CHR ''['' \<notin> set (escape_url h True)" "CHR '':'' \<notin> set (escape_url h True)"
      using False escape_set by (fastforce simp: is_alnum_def)+
    then have nb: "CHR ''['' \<notin> set (escape_url h True @ r)" using r by simp
    obtain n r' d where n: "escape_url h True @ r = n @ r'" "valid_port r'" "r' = [] \<longrightarrow> CHR '':'' \<notin> set (escape_url h True @ r)"
        "decode_url HostMode n = Some d" "hn = from_utf8_lossy d"
    proof -
      have ph: "parse_host (escape_url h True @ r) scheme = Some hn" using assms(3) False by simp
      have "escape_url h True @ r \<noteq> CHR ''['' # w" for w using nb by (metis list.set_intros(1))
      then show thesis using parse_host_cases [OF ph] that by blast
    qed
    have p: "port_part (escape_url h True @ r) = Some r"
      by (rule port_part_plain) (use nb esc assms(2) in auto)
    moreover have "port_part (n @ r') = Some r'"
      by (rule port_part_plain) (use nb n in auto)
    ultimately have "r' = r" using n(1) by simp
    then have "n = escape_url h True" using n(1) by simp
    then have "d = h" using decode_PathMode [OF n(4)] decode_escaped by simp
    then show ?thesis using False p n(5) lossy by simp
  qed
qed

lemma authority_text_of:
  assumes "\<forall>p. u_port u = Some p \<longrightarrow> list_all is_digit p"
  defines "r \<equiv> (case given_port u of Some p \<Rightarrow> CHR '':'' # p | None \<Rightarrow> [])"
  shows "escape_url (authority_of u) True =
      (if CHR '':'' \<in> set (u_hostname u) then CHR ''['' # escape_url (u_hostname u) True @ CHR '']'' # r
       else escape_url (u_hostname u) True @ r)" "valid_port r"
proof -
  have p: "escape_url (CHR '':'' # p) True = CHR '':'' # p" if "u_port u = Some p" for p
    using escape_append [of "'':''" p] escape_keeps [of p] escape_bracket(3) assms(1) that by simp
  have b: "escape_url (CHR ''['' # a @ CHR '']'' # q) True = CHR ''['' # escape_url a True @ CHR '']'' # escape_url q True" for a q
    using escape_append [of "''[''" "a @ CHR '']'' # q"] escape_append [of a "'']'' @ q"] escape_append [of "'']''" q]
      escape_bracket by simp
  have e: "escape_url [] True = []" by (simp add: escape_url_def)
  show "escape_url (authority_of u) True =
      (if CHR '':'' \<in> set (u_hostname u) then CHR ''['' # escape_url (u_hostname u) True @ CHR '']'' # r
       else escape_url (u_hostname u) True @ r)"
    using p b e by (auto simp: authority_of_def r_def given_port_def escape_append split: option.splits)
  show "valid_port r"
    using assms(1) by (auto simp: r_def given_port_def valid_port_cases split: option.splits if_splits)
qed

lemma split_or_all_free: "c \<notin> set s \<Longrightarrow> split_or_all c s = (s, [])"
  by (simp add: split_or_all_def split_once_None [THEN iffD2])

lemma split_or_all_at: "c \<notin> set s \<Longrightarrow> split_or_all c (s @ c # r) = (s, r)"
  using split_once_Some [of c "s @ c # r" s r] by (simp add: split_or_all_def)

lemma scheme_text_facts:
  assumes "scheme_ok s" "s \<noteq> []"
  shows "list_all scheme_byte s" "is_alpha (hd s)" "str_lower T sigma s = s"
    "CHR ''#'' \<notin> set s" "CHR ''?'' \<notin> set s"
proof -
  obtain b r where s: "s = b # r" using assms(2) by (cases s) auto
  show a: "list_all scheme_byte s" "is_alpha (hd s)"
    using assms s scheme_byte_facts(4) by (auto simp: scheme_ok_def)
  then have "ascii_str s" using scheme_byte_facts(2) by (auto simp: ascii_str_def list_all_iff)
  then show "str_lower T sigma s = s" using assms(1) by (simp add: str_lower_ascii scheme_ok_def)
  have "\<not> scheme_byte CHR ''#''" "\<not> scheme_byte CHR ''?''" by (simp_all add: scheme_byte_def is_alpha_def is_digit_def)
  then show "CHR ''#'' \<notin> set s" "CHR ''?'' \<notin> set s" using a(1) by (auto simp: list_all_iff)
qed

text \<open>Parsing a URL with an authority, piece by piece.\<close>

lemma parse_url_pieces:
  assumes s: "scheme_ok s" "s \<noteq> []" and e: "\<forall>c \<in> {CHR ''/'', CHR ''?'', CHR ''#'', CHR ''@''}. c \<notin> set e"
    and p: "CHR ''?'' \<notin> set p" "CHR ''#'' \<notin> set p" "p = [] \<or> (\<exists>r. p = CHR ''/'' # r)"
    and q: "q = [] \<or> (\<exists>x. q = CHR ''?'' # x)" "CHR ''#'' \<notin> set q" and f: "f = [] \<or> (\<exists>x. f = CHR ''#'' # x)"
    and u: "parse_url T sigma (s @ ''://'' @ e @ p @ q @ f) = Some u"
  shows "u_scheme u = s \<and> \<not> u_has_credentials u \<and> parse_host e s = Some (u_hostname u) \<and>
    (\<exists>t. port_part e = Some t \<and> u_port u = strip_prefix '':'' t)"
proof -
  note sf = scheme_text_facts [OF s]
  let ?rest = "CHR ''/'' # CHR ''/'' # e @ p" let ?input = "s @ CHR '':'' # ?rest @ q"
  have "CHR ''#'' \<notin> set ?input" using sf(4) e p(2) q(2) by auto
  then have i: "\<exists>fr. split_or_all CHR ''#'' (s @ ''://'' @ e @ p @ q @ f) = (?input, fr)"
    using f split_or_all_free [of "CHR ''#''" ?input] split_or_all_at [of "CHR ''#''" ?input] by auto
  have sc: "scan_scheme 0 ?input = Inr (Some (length s))"
    using scan_scheme_text [of s 0] sf(1,2) s(2) by simp
  have nq: "CHR ''?'' \<notin> set ?rest" using e p(1) by auto
  then obtain qr where r: "split_or_all CHR ''?'' (?rest @ q) = (?rest, qr)"
    using q(1) split_or_all_free [OF nq] split_or_all_at [OF nq] by auto
  have cut: "(case position (\<lambda>b. b = CHR ''/'') (e @ p) of None \<Rightarrow> length (e @ p) | Some i \<Rightarrow> i) = length e"
  proof -
    have ne: "\<forall>b \<in> set e. b \<noteq> CHR ''/''" using e by auto
    show ?thesis
    proof (cases p)
      case Nil
      then have "position (\<lambda>b. b = CHR ''/'') (e @ p) = None" using ne by (simp add: position_None)
      then show ?thesis using Nil by simp
    next
      case (Cons c r)
      then have "c = CHR ''/''" using p(3) by simp
      then have "position (\<lambda>b. b = CHR ''/'') (e @ p) = Some (length e)"
        using position_append [OF ne, of "CHR ''/''" r] Cons by simp
      then show ?thesis by simp
    qed
  qed
  obtain fr force where pr: "parse_rest s s ?rest qr force fr = Some u"
    using u i sc r sf(3) by (auto simp: parse_url_def Let_def starts_with_def split: if_splits)
  have w: "starts_with ?rest ''//'' \<and> (s \<noteq> [] \<or> \<not> starts_with ?rest ''///'')" using s(2) by (simp add: starts_with_def)
  obtain a where a: "parse_authority s e = Some a"
      "u_scheme u = s" "u_hostname u = a_hostname a" "u_port u = a_port a" "u_has_credentials u = a_has_credentials a"
    using pr w cut unfolding parse_rest_def Let_def
    by (auto split: option.splits if_splits)
  have no_at: "rsplit_once CHR ''@'' e = None" using e by (simp add: rsplit_once_None)
  then show ?thesis using a unfolding parse_authority_def Let_def
    by (auto split: option.splits)
qed

lemma display_back:
  assumes "url_ok u" "u_scheme u \<noteq> []" "u_raw_path u = [] \<or> starts_with (u_raw_path u) ''/''"
    and "parse_url T sigma (display_url u) = Some u'"
  shows "u_scheme u' = u_scheme u \<and> \<not> u_has_credentials u' \<and> u_hostname u' = u_hostname u \<and> given_port u' = given_port u"
proof -
  let ?e = "escape_url (authority_of u) True"
  let ?r = "(case given_port u of Some p \<Rightarrow> CHR '':'' # p | None \<Rightarrow> [])"
  let ?f = "if u_fragment u \<noteq> [] then CHR ''#'' # escape_url (u_fragment u) False else []"
  have u: "scheme_ok (u_scheme u)" "hostname_ok (u_hostname u)" "\<forall>p. u_port u = Some p \<longrightarrow> list_all is_digit p" "CHR ''#'' \<notin> set (u_raw_query u)"
    using assms(1) by (simp_all add: url_ok_def)
  note auth = authority_text_of [OF u(3)]
  have "u_scheme u' = u_scheme u \<and> \<not> u_has_credentials u' \<and> parse_host ?e (u_scheme u) = Some (u_hostname u') \<and>
      (\<exists>t. port_part ?e = Some t \<and> u_port u' = strip_prefix '':'' t)"
  proof (rule parse_url_pieces [OF u(1) assms(2)])
    show "\<forall>c\<in>{CHR ''/'', CHR ''?'', CHR ''#'', CHR ''@''}. c \<notin> set ?e" using escape_free by blast
    show "CHR ''?'' \<notin> set (escaped_path u)" "CHR ''#'' \<notin> set (escaped_path u)" using escaped_path_set by blast+
    show "escaped_path u = [] \<or> (\<exists>r. escaped_path u = CHR ''/'' # r)" by (rule escaped_path_start [OF assms(3)])
    show "query_text u = [] \<or> (\<exists>x. query_text u = CHR ''?'' # x)" "CHR ''#'' \<notin> set (query_text u)"
      using u(4) by (simp_all add: query_text_def)
    show "?f = [] \<or> (\<exists>x. ?f = CHR ''#'' # x)" by simp
    show "parse_url T sigma (u_scheme u @ ''://'' @ ?e @ escaped_path u @ query_text u @ ?f) = Some u'"
      using assms(4) by (simp add: display_url_def)
  qed
  then obtain t where t: "u_scheme u' = u_scheme u" "\<not> u_has_credentials u'" "parse_host ?e (u_scheme u) = Some (u_hostname u')"
      "port_part ?e = Some t" "u_port u' = strip_prefix '':'' t" by blast
  have "u_hostname u' = u_hostname u \<and> port_part ?e = Some ?r"
    using host_back [OF u(2) auth(2)] t(3) unfolding auth(1) by blast
  then have "u_hostname u' = u_hostname u" "t = ?r" using t(4) by simp_all
  moreover have "given_port u' = given_port u"
    using t(5) \<open>t = ?r\<close> by (auto simp: given_port_def strip_prefix_def starts_with_def split: option.splits if_splits)
  ultimately show ?thesis using t by simp
qed

section \<open>Resolved paths\<close>

text \<open>No segment of a rebuilt path is a dot segment.\<close>

definition no_dots :: "bytes \<Rightarrow> bool" where
  "no_dots p \<longleftrightarrow> (\<forall>s \<in> set (split_on CHR ''/'' p). s \<noteq> ''.'' \<and> s \<noteq> ''..'')"

lemma split_on_snoc_sep: "split_on c (s @ [c]) = split_on c s @ [[]]"
  by (induction s) (auto split: list.splits)

lemma split_on_sep_append: "split_on c (s @ c # r) = split_on c s @ split_on c r"
proof (induction s)
  case (Cons b s)
  obtain p ps where "split_on c s = p # ps" by (cases "split_on c s") auto
  then show ?case using Cons by simp
qed simp

lemma no_dots_append: "no_dots (s @ CHR ''/'' # r) \<longleftrightarrow> no_dots s \<and> no_dots r"
  by (auto simp: no_dots_def split_on_sep_append)

lemma no_dots_part: "CHR ''/'' \<notin> set p \<Longrightarrow> no_dots p \<longleftrightarrow> p \<noteq> ''.'' \<and> p \<noteq> ''..''"
  by (simp add: no_dots_def split_on_none)

lemma no_dots_Nil [simp]: "no_dots []"
  by (simp add: no_dots_def)

text \<open>While the path is rebuilt it starts with a slash and, after one that is the first, holds nothing else.\<close>

definition rebuilt :: "bytes \<times> bool \<Rightarrow> bool" where
  "rebuilt st \<longleftrightarrow> (\<exists>r. fst st = CHR ''/'' # r) \<and> no_dots (fst st) \<and> (snd st \<longrightarrow> fst st = ''/'')"

lemma resolve_step_rebuilt:
  assumes "rebuilt st" "CHR ''/'' \<notin> set part"
  shows "rebuilt (resolve_step part st)"
proof -
  obtain out first where st: "st = (out, first)" by (cases st)
  obtain r where r: "out = CHR ''/'' # r" using assms(1) st by (auto simp: rebuilt_def)
  have nd: "no_dots r" "first \<longrightarrow> r = []"
    using assms(1) st r no_dots_append [of "[]" r] by (auto simp: rebuilt_def)
  have cons: "no_dots (CHR ''/'' # x) \<longleftrightarrow> no_dots x" for x using no_dots_append [of "[]" x] by simp
  consider "part = ''.''" | "part = ''..''" | "part \<noteq> ''.''" "part \<noteq> ''..''" by blast
  then show ?thesis
  proof cases
    case 1
    then show ?thesis using st r nd cons by (simp add: resolve_step_def rebuilt_def)
  next
    case 2
    show ?thesis
    proof (cases "rposition (\<lambda>b. b = CHR ''/'') r")
      case None
      then show ?thesis using 2 st r cons by (simp add: resolve_step_def rebuilt_def)
    next
      case (Some i)
      then have "CHR ''/'' \<in> set r" using rposition_None [of "\<lambda>b. b = CHR ''/''" r] by auto
      then obtain a b where ab: "r = a @ CHR ''/'' # b" "CHR ''/'' \<notin> set b" by (metis split_last)
      have "rposition (\<lambda>b. b = CHR ''/'') r = Some (length a)"
        unfolding ab(1) by (rule rposition_last) (use ab(2) in auto)
      then have t: "take i r = a" using Some ab by simp
      have "no_dots a" using nd(1) ab(1) no_dots_append by simp
      then show ?thesis using 2 st r Some t cons by (auto simp: resolve_step_def rebuilt_def min_def split: if_splits)
    qed
  next
    case 3
    then have np: "no_dots part" using assms(2) by (simp add: no_dots_part)
    show ?thesis
    proof (cases first)
      case True
      then show ?thesis using 3 st r nd np cons by (simp add: resolve_step_def rebuilt_def)
    next
      case False
      then show ?thesis using 3 st r nd np cons no_dots_append [of r part] by (simp add: resolve_step_def rebuilt_def)
    qed
  qed
qed

lemma resolve_fold_rebuilt:
  "rebuilt st \<Longrightarrow> \<forall>p \<in> set parts. CHR ''/'' \<notin> set p \<Longrightarrow> rebuilt (fold resolve_step parts st)"
  by (induction parts arbitrary: st) (simp_all add: resolve_step_rebuilt)

lemma resolve_path_ok:
  "resolve_path base reference = [] \<or> (\<exists>r. resolve_path base reference = CHR ''/'' # r \<and> no_dots r)"
proof -
  let ?parts = "split_on CHR ''/'' (full_path base reference)"
  obtain out first where f: "fold resolve_step ?parts (''/'', True) = (out, first)" by (metis surj_pair)
  have "rebuilt (''/'', True)" using no_dots_append [of "[]" "[]"] by (simp add: rebuilt_def)
  then have "rebuilt (out, first)"
    unfolding f [symmetric] by (rule resolve_fold_rebuilt) (use split_on_parts in blast)
  then obtain r where r: "out = CHR ''/'' # r" "no_dots r" using no_dots_append [of "[]"]
    by (auto simp: rebuilt_def)
  define out1 where "out1 = (if last ?parts = ''.'' \<or> last ?parts = ''..'' then out @ ''/'' else out)"
  obtain r1 where r1: "out1 = CHR ''/'' # r1" "no_dots r1"
    using r no_dots_append [of r "[]"] by (cases "last ?parts = ''.'' \<or> last ?parts = ''..''") (simp_all add: out1_def)
  have res: "resolve_path base reference = (if full_path base reference = [] then []
      else if starts_with out1 ''//'' then drop 1 out1 else out1)"
    by (simp add: resolve_path_def Let_def f out1_def)
  show ?thesis
  proof (cases "starts_with out1 ''//''")
    case True
    then obtain r2 where r2: "r1 = CHR ''/'' # r2" using r1 by (auto simp: starts_with_split)
    then have "no_dots r2" using r1(2) no_dots_append [of "[]" r2] by simp
    then show ?thesis using res True r1 r2 by auto
  next
    case False
    then show ?thesis using res r1 by auto
  qed
qed

text \<open>
  The path of a resolved reference is empty or absolute and has no dot segment left, whatever the
  base and the reference are.
\<close>

theorem resolved_path_has_no_dots:
  "no_dots (resolve_path base reference) \<and>
   (resolve_path base reference = [] \<or> starts_with (resolve_path base reference) ''/'')"
  using resolve_path_ok [of base reference]
proof
  assume "\<exists>r. resolve_path base reference = CHR ''/'' # r \<and> no_dots r"
  then obtain r where "resolve_path base reference = CHR ''/'' # r" "no_dots r" by blast
  then show ?thesis using no_dots_append [of "[]" r] by (simp add: starts_with_def)
qed simp

section \<open>Resolved URLs\<close>

lemma inherit_query_fields [simp]:
  "u_scheme (inherit_query b t) = u_scheme t" "u_hostname (inherit_query b t) = u_hostname t" "u_port (inherit_query b t) = u_port t"
  "u_has_credentials (inherit_query b t) = u_has_credentials t"
  by (simp_all add: inherit_query_def)

lemma resolve_url_ok:
  assumes "url_ok base" "u_scheme base \<noteq> []" "resolve_url T sigma base location = Some u"
  shows "url_ok u \<and> u_scheme u \<noteq> [] \<and> (u_raw_path u = [] \<or> starts_with (u_raw_path u) ''/'')"
proof -
  obtain t0 where t0: "parse_url T sigma location = Some t0" using assms(3) by (auto simp: resolve_url_def split: option.splits)
  define t1 where "t1 = (if u_scheme t0 = [] then t0\<lparr>u_scheme := u_scheme base\<rparr> else t0)"
  have ok: "url_ok t0" by (rule parse_url_ok [OF t0])
  then have ok1: "url_ok t1" "u_scheme t1 \<noteq> []" using assms(1,2) by (simp_all add: t1_def url_ok_def)
  have q: "CHR ''#'' \<notin> set (u_raw_query (inherit_query base t1))"
    using assms(1) ok1(1) by (simp add: inherit_query_def url_ok_def)
  have path: "resolve_path b r = [] \<or> starts_with (resolve_path b r) ''/''" for b r
    using resolve_path_ok [of b r] by (auto simp: starts_with_def)
  obtain t2 p where u: "u = t2\<lparr>u_path := p\<rparr>" and t2: "t2 = t1\<lparr>u_raw_path := resolve_path (escaped_path t1) []\<rparr> \<or>
      t2 = (inherit_query base t1)\<lparr>u_hostname := u_hostname base, u_port := u_port base, u_has_credentials := u_has_credentials base,
         u_raw_path := resolve_path (escaped_path base) (escaped_path (inherit_query base t1))\<rparr>"
    using assms(3) t0 unfolding resolve_url_def t1_def [symmetric]
    by (auto simp: Let_def t1_def [symmetric] split: if_splits)
  from t2 show ?thesis
  proof
    assume "t2 = t1\<lparr>u_raw_path := resolve_path (escaped_path t1) []\<rparr>"
    then show ?thesis using u ok1 path by (auto simp: url_ok_def)
  next
    assume "t2 = (inherit_query base t1)\<lparr>u_hostname := u_hostname base, u_port := u_port base, u_has_credentials := u_has_credentials base,
         u_raw_path := resolve_path (escaped_path base) (escaped_path (inherit_query base t1))\<rparr>"
    then show ?thesis using u ok1 path q assms(1) by (auto simp: url_ok_def)
  qed
qed

end
