(* ===== verification/Policy.thy ===== *)
theory Policy
  imports Url
begin

text \<open>
  Permissions of an extension (rust\_backend/crates/network/src/policy.rs): the domains it may talk to,
  and the check of a URL before a request and after a redirect.
\<close>

record permissions =
  pm_domains :: "bytes list"
  pm_allow_http :: bool

text \<open>The character tables, the rule for the final sigma and the URL crates, which all checks share.\<close>

record 'u net_lib =
  nl_tables :: case_tables
  nl_sigma :: "nat list \<Rightarrow> nat \<Rightarrow> bool"
  nl_uris :: "'u uri_lib"

abbreviation lower_of :: "'u net_lib \<Rightarrow> bytes \<Rightarrow> bytes" where
  "lower_of N \<equiv> str_lower (nl_tables N) (nl_sigma N)"

definition allows_domain :: "'u net_lib \<Rightarrow> permissions \<Rightarrow> bytes \<Rightarrow> bool" where
  "allows_domain N P domain0 \<longleftrightarrow>
     (let domain = lower_of N (trim domain0)
      in list_ex (\<lambda>allowed0. let allowed = lower_of N (trim allowed0)
           in allowed = domain \<or>
              (case strip_prefix ''*.'' allowed of
                 None \<Rightarrow> False
               | Some suffix \<Rightarrow> length suffix + 1 < length domain \<and> ends_with domain (CHR ''.'' # suffix)))
         (pm_domains P))"

definition private_literal_or_local :: "'u net_lib \<Rightarrow> bytes \<Rightarrow> bool" where
  "private_literal_or_local N host0 \<longleftrightarrow>
     (let host = lower_of N (trim_end_bytes (\<lambda>b. b = CHR '']'') (dropWhile (\<lambda>b. b = CHR ''['') (trim host0)))
      in host = ''localhost'' \<or> ends_with host ''.local'' \<or>
         (case parse_ip (hd (split_on CHR ''%'' host)) of None \<Rightarrow> False | Some ip \<Rightarrow> is_private_ip ip))"

definition quoted :: "bytes \<Rightarrow> bytes" where
  "quoted s = CHR 0x27 # s @ [CHR 0x27]"

definition validate :: "'u net_lib \<Rightarrow> permissions \<Rightarrow> bytes \<Rightarrow> bool \<Rightarrow> bool \<Rightarrow> url_parts res" where
  "validate N P input allow_private redirect =
     (case parse_url (nl_tables N) (nl_sigma N) input of
        None \<Rightarrow> Inl ''invalid URL''
      | Some u \<Rightarrow>
          if u_scheme u = [] \<and> \<not> redirect then Inl ''invalid URL: scheme is required''
          else if u_scheme u \<noteq> ''https'' \<and> \<not> (pm_allow_http P \<and> u_scheme u = ''http'') then
            Inl (if redirect then ''redirect blocked: only https is allowed'' else ''network access denied: only https is allowed'')
          else if u_has_credentials u then Inl ''invalid URL: embedded credentials are not allowed''
          else if u_hostname u = [] then
            Inl (if redirect then ''redirect blocked: hostname is required'' else ''invalid URL: hostname is required'')
          else if \<not> redirect \<and> \<not> allow_private \<and> private_literal_or_local N (u_hostname u) then
            Inl (''network access denied: private/local network '' @ quoted (u_hostname u) @ '' not allowed'')
          else if \<not> allows_domain N P (u_hostname u) then
            Inl ((if redirect then ''redirect blocked'' else ''network access denied'') @
              '': domain '' @ quoted (u_hostname u) @ '' not in allowed list'')
          else if redirect \<and> \<not> allow_private \<and> private_literal_or_local N (u_hostname u) then
            Inl ''redirect blocked: private/local network access denied''
          else bind_res (request_uri (nl_uris N) u) (\<lambda>uri.
            if \<not> allow_private \<and> (case ul_host (nl_uris N) uri of None \<Rightarrow> False | Some h \<Rightarrow> private_literal_or_local N h) then
              Inl (''network access denied: private/local network '' @ quoted (u_hostname u) @ '' not allowed'')
            else Inr u))"

section \<open>What a validated URL is\<close>

definition safe_host :: "'u net_lib \<Rightarrow> permissions \<Rightarrow> bool \<Rightarrow> url_parts \<Rightarrow> bool" where
  "safe_host N P allow_private u \<longleftrightarrow>
     (u_scheme u = ''https'' \<or> pm_allow_http P \<and> u_scheme u = ''http'') \<and>
     \<not> u_has_credentials u \<and> u_hostname u \<noteq> [] \<and> allows_domain N P (u_hostname u) \<and>
     (\<not> allow_private \<longrightarrow> \<not> private_literal_or_local N (u_hostname u))"

definition public_uri :: "'u net_lib \<Rightarrow> bool \<Rightarrow> 'u \<Rightarrow> bool" where
  "public_uri N allow_private uri \<longleftrightarrow>
     (allow_private \<or> (\<forall>h. ul_host (nl_uris N) uri = Some h \<longrightarrow> \<not> private_literal_or_local N h))"

lemma validate_safe:
  assumes "validate N P input allow_private redirect = Inr u"
  shows "parse_url (nl_tables N) (nl_sigma N) input = Some u \<and> safe_host N P allow_private u \<and>
    (\<exists>uri. request_uri (nl_uris N) u = Inr uri \<and> public_uri N allow_private uri)"
proof -
  obtain v where v: "parse_url (nl_tables N) (nl_sigma N) input = Some v"
    using assms by (auto simp: validate_def split: option.splits)
  have "v = u \<and> safe_host N P allow_private v \<and> (\<exists>uri. request_uri (nl_uris N) v = Inr uri \<and> public_uri N allow_private uri)"
    using assms v unfolding validate_def safe_host_def public_uri_def
    by (auto simp: bind_res_Inr split: if_splits option.splits)
  then show ?thesis using v by blast
qed

end
