(* ===== verification/Cookies.thy ===== *)
theory Cookies
  imports Url BTree "HOL-Library.Product_Lexorder"
begin

text \<open>
  The cookie jar of a network session (rust\_backend/crates/network/src/cookies.rs).  The crate
  \<^verbatim>\<open>cookie\<close>, which reads the attributes of a header, is a parameter, like the forms of names and values
  that the crate \<^verbatim>\<open>http\<close> accepts; time is a number of nanoseconds.
\<close>

section \<open>The jar\<close>

type_synonym cookie_key = "bytes \<times> bytes \<times> bytes \<times> bytes"

record cookie_entry =
  ce_value :: bytes
  ce_host_only :: bool
  ce_secure :: bool
  ce_expires :: "int option"
  ce_sequence :: nat

record cookie_jar =
  cj_entries :: "(cookie_key, cookie_entry) btree"
  cj_sequence :: nat

definition empty_jar :: cookie_jar where
  "empty_jar = \<lparr>cj_entries = [], cj_sequence = 0\<rparr>"

text \<open>What the parser of a \<^verbatim>\<open>Set-Cookie\<close> header gives.\<close>

record parsed_cookie =
  pc_name :: bytes
  pc_path :: "bytes option"
  pc_secure :: "bool option"
  pc_expires :: "int option"

record cookie_lib =
  cl_parse :: "bytes \<Rightarrow> parsed_cookie option"
  cl_text :: "bytes \<Rightarrow> bytes option"
  cl_name_ok :: "bytes \<Rightarrow> bool"
  cl_checked_add :: "int \<Rightarrow> int \<Rightarrow> int option"
  cl_isize_bits :: nat

section \<open>Hosts and paths\<close>

definition canonical_host :: "'u uri_lib \<Rightarrow> url_parts \<Rightarrow> bytes" where
  "canonical_host L u =
     (let h = u_hostname u; host = (if ends_with h ''.'' then take (length h - 1) h else h)
      in case ul_domain L host of Inl _ \<Rightarrow> map ascii_lower host | Inr d \<Rightarrow> d)"

definition is_literal :: "bytes \<Rightarrow> bool" where
  "is_literal host \<longleftrightarrow> parse_ip host \<noteq> None \<or> CHR '':'' \<in> set host"

definition jar_key :: "bytes \<Rightarrow> bytes" where
  "jar_key host =
     (if is_literal host then host
      else case rposition (\<lambda>b. b = CHR ''.'') host of
        None \<Rightarrow> host
      | Some i \<Rightarrow>
          (case rposition (\<lambda>b. b = CHR ''.'') (take i host) of None \<Rightarrow> host | Some j \<Rightarrow> drop (j + 1) host))"

definition default_path :: "bytes \<Rightarrow> bytes" where
  "default_path path =
     (let stop = (case rposition (\<lambda>b. b = CHR ''/'') path of None \<Rightarrow> 0 | Some i \<Rightarrow> i)
      in if \<not> starts_with path ''/'' \<or> stop = 0 then ''/'' else take stop path)"

section \<open>Storing\<close>

text \<open>The attributes of a raw header with a name, the values trimmed.\<close>

definition attributes :: "bytes \<Rightarrow> bytes \<Rightarrow> bytes list" where
  "attributes raw name =
     List.map_filter (\<lambda>a. case split_once CHR ''='' (trim a) of
         None \<Rightarrow> None
       | Some (n, v) \<Rightarrow> if eq_ignore_ascii_case n name then Some (trim v) else None)
       (tl (split_on CHR '';'' raw))"

definition last_or :: "bytes \<Rightarrow> bytes list \<Rightarrow> bytes" where
  "last_or d xs = (if xs = [] then d else last xs)"

definition cookie_value :: "bytes \<Rightarrow> (bytes \<times> bool) option" where
  "cookie_value raw =
     (case split_once CHR ''='' (hd (split_on CHR '';'' raw)) of
        None \<Rightarrow> None
      | Some (_, v) \<Rightarrow>
          (let rv = trim v; q = CHR 0x22;
               quoted = (starts_with rv [q] \<and> ends_with rv [q] \<and> 2 \<le> length rv);
               value = (if quoted then take (length rv - 2) (drop 1 rv) else rv)
           in if list_all (\<lambda>b. 32 \<le> u8 b \<and> u8 b < 127 \<and> b \<notin> {q, CHR '';'', CHR 0x5C}) value
              then Some (value, quoted) else None))"

text \<open>The domain of a cookie that \<open>host\<close> sets, and whether it belongs to this host only.\<close>

definition cookie_domain :: "bytes \<Rightarrow> bytes \<Rightarrow> (bytes \<times> bool) option" where
  "cookie_domain host raw_domain =
     (if raw_domain = [] then Some (host, True)
      else if is_literal host then (if raw_domain \<noteq> host then None else Some (host, True))
      else let domain = map ascii_lower (if starts_with raw_domain ''.'' then drop 1 raw_domain else raw_domain)
        in if domain = [] \<or> \<not> ascii_str domain \<or> starts_with domain ''.'' \<or> ends_with domain ''.'' \<or>
              (host \<noteq> domain \<and> \<not> ends_with host (CHR ''.'' # domain)) then None
           else Some (domain, False))"

definition max_age :: "cookie_lib \<Rightarrow> bytes \<Rightarrow> int option" where
  "max_age C raw =
     (let bound = 2 ^ (cl_isize_bits C - 1);
          ages = List.map_filter (\<lambda>v. case parse_int (- bound) (bound - 1) v of
              Inl _ \<Rightarrow> None
            | Inr s \<Rightarrow> if s \<noteq> 0 \<and> starts_with v ''0'' then None else Some s) (attributes raw ''max-age'')
      in if ages = [] then None else Some (last ages))"

text \<open>An expired cookie deletes the one it replaces; a replaced cookie keeps its place in the order.\<close>

definition put_cookie :: "int \<Rightarrow> cookie_key \<Rightarrow> bytes \<Rightarrow> bool \<Rightarrow> bool \<Rightarrow> int option \<Rightarrow> cookie_jar \<Rightarrow> cookie_jar" where
  "put_cookie now key text host_only secure expires jar =
     (if (case expires of None \<Rightarrow> False | Some e \<Rightarrow> e \<le> now) then
        jar\<lparr>cj_entries := bt_remove key (cj_entries jar)\<rparr>
      else
        (let (n, next) = (case bt_get (cj_entries jar) key of
               Some e \<Rightarrow> (ce_sequence e, cj_sequence jar)
             | None \<Rightarrow> (cj_sequence jar, cj_sequence jar + 1))
         in jar\<lparr>cj_sequence := next,
              cj_entries := bt_insert key \<lparr>ce_value = text, ce_host_only = host_only, ce_secure = secure,
                ce_expires = expires, ce_sequence = n\<rparr> (cj_entries jar)\<rparr>))"

definition store_one :: "'u uri_lib \<Rightarrow> cookie_lib \<Rightarrow> int \<Rightarrow> url_parts \<Rightarrow> bytes \<Rightarrow> cookie_jar \<Rightarrow> cookie_jar" where
  "store_one L C now u header jar =
     (let host = canonical_host L u
      in case cl_text C header of None \<Rightarrow> jar | Some raw \<Rightarrow>
        (case cl_parse C raw of None \<Rightarrow> jar | Some c \<Rightarrow>
         if \<not> cl_name_ok C (pc_name c) then jar
         else case cookie_value raw of None \<Rightarrow> jar | Some (val, quoted) \<Rightarrow>
           (case cookie_domain host (last_or [] (attributes raw ''domain'')) of None \<Rightarrow> jar | Some (domain, host_only) \<Rightarrow>
             (let path = (case pc_path c of Some p \<Rightarrow> if starts_with p ''/'' then p else default_path (u_path u)
                          | None \<Rightarrow> default_path (u_path u));
                  expires = (case max_age C raw of
                     Some s \<Rightarrow> if s \<le> 0 then Some now else cl_checked_add C now s
                   | None \<Rightarrow> pc_expires c);
                  text = (if quoted \<or> CHR '' '' \<in> set val \<or> CHR '','' \<in> set val then CHR 0x22 # val @ [CHR 0x22] else val)
              in put_cookie now (jar_key host, domain, path, pc_name c) text host_only
                   (case pc_secure c of Some b \<Rightarrow> b | None \<Rightarrow> False) expires jar))))"

definition store_cookies :: "'u uri_lib \<Rightarrow> cookie_lib \<Rightarrow> int \<Rightarrow> url_parts \<Rightarrow> bytes list \<Rightarrow> cookie_jar \<Rightarrow> cookie_jar" where
  "store_cookies L C now u headers jar =
     (if 3000 < length headers then jar else fold (store_one L C now u) headers jar)"

section \<open>Sending\<close>

definition unexpired :: "int \<Rightarrow> cookie_entry \<Rightarrow> bool" where
  "unexpired now e = (case ce_expires e of None \<Rightarrow> True | Some t \<Rightarrow> now < t)"

definition cookie_matches :: "bytes \<Rightarrow> url_parts \<Rightarrow> cookie_key \<Rightarrow> cookie_entry \<Rightarrow> bool" where
  "cookie_matches host u = (\<lambda>(jar, domain, path, _) e.
     jar = jar_key host \<and> (\<not> ce_secure e \<or> u_scheme u = ''https'') \<and>
     (host = domain \<or> \<not> ce_host_only e \<and> ends_with host (CHR ''.'' # domain)) \<and>
     (u_path u = path \<or> starts_with (u_path u) path \<and>
       (ends_with path ''/'' \<or> length path < length (u_path u) \<and> u_path u ! length path = CHR ''/'')))"

text \<open>\<^verbatim>\<open>sort_by\<close> is stable; longer paths in the order of bytes come first, then older cookies.\<close>

definition cookie_before :: "cookie_key \<times> cookie_entry \<Rightarrow> cookie_key \<times> cookie_entry \<Rightarrow> bool" where
  "cookie_before = (\<lambda>((_, _, left, _), a) ((_, _, right, _), b). right < left \<or> left = right \<and> ce_sequence a \<le> ce_sequence b)"

fun insert_cookie :: "cookie_key \<times> cookie_entry \<Rightarrow> (cookie_key \<times> cookie_entry) list \<Rightarrow> (cookie_key \<times> cookie_entry) list" where
  "insert_cookie x [] = [x]"
| "insert_cookie x (y # ys) = (if cookie_before x y then x # y # ys else y # insert_cookie x ys)"

definition selected_cookies :: "'u uri_lib \<Rightarrow> int \<Rightarrow> url_parts \<Rightarrow> cookie_jar \<Rightarrow> (cookie_key \<times> cookie_entry) list" where
  "selected_cookies L now u jar =
     foldr insert_cookie (filter (\<lambda>(k, e). cookie_matches (canonical_host L u) u k e)
       (bt_retain (\<lambda>_ e. unexpired now e) (cj_entries jar))) []"

definition cookie_header :: "'u uri_lib \<Rightarrow> int \<Rightarrow> url_parts \<Rightarrow> cookie_jar \<Rightarrow> bytes \<times> cookie_jar" where
  "cookie_header L now u jar =
     (join ''; '' (map (\<lambda>((_, _, _, name), e). name @ CHR ''='' # ce_value e) (selected_cookies L now u jar)),
      jar\<lparr>cj_entries := bt_retain (\<lambda>_ e. unexpired now e) (cj_entries jar)\<rparr>)"

definition clear_jar :: "cookie_jar \<Rightarrow> cookie_jar" where
  "clear_jar jar = jar\<lparr>cj_entries := []\<rparr>"

section \<open>Whose cookies are sent\<close>

definition within :: "bytes \<Rightarrow> bytes \<Rightarrow> bool" where
  "within domain host \<longleftrightarrow> host = domain \<or> ends_with host (CHR ''.'' # domain)"

text \<open>
  The histories of a session: \<open>H\<close> holds the hosts whose responses were stored since the jar was last
  cleared.
\<close>

inductive jar_history :: "'u uri_lib \<Rightarrow> cookie_lib \<Rightarrow> bytes set \<Rightarrow> cookie_jar \<Rightarrow> bool" for L C where
  fresh: "jar_history L C {} empty_jar"
| stored: "jar_history L C H jar \<Longrightarrow> jar_history L C (insert (canonical_host L u) H) (store_cookies L C now u headers jar)"
| sent: "jar_history L C H jar \<Longrightarrow> jar_history L C H (snd (cookie_header L now u jar))"
| cleared: "jar_history L C H jar \<Longrightarrow> jar_history L C {} (clear_jar jar)"

text \<open>Every entry was set by a host that may set it.\<close>

definition rightful :: "bytes set \<Rightarrow> cookie_key \<times> cookie_entry \<Rightarrow> bool" where
  "rightful H = (\<lambda>((jar, domain, _, _), e). \<exists>setter \<in> H. jar = jar_key setter \<and> within domain setter \<and> (ce_host_only e \<longrightarrow> domain = setter))"

definition jar_ok :: "bytes set \<Rightarrow> cookie_jar \<Rightarrow> bool" where
  "jar_ok H jar \<longleftrightarrow> bt_ok (cj_entries jar) \<and> (\<forall>x \<in> set (cj_entries jar). rightful H x)"

lemma rightful_more: "rightful H x \<Longrightarrow> H \<subseteq> H' \<Longrightarrow> rightful H' x"
  by (auto simp: rightful_def)

lemma cookie_domain_within:
  "cookie_domain host raw = Some (domain, only) \<Longrightarrow> within domain host \<and> (only \<longrightarrow> domain = host)"
  by (auto simp: cookie_domain_def within_def Let_def split: if_splits)

lemma set_insert_entry: "x \<in> set (bt_insert k v m) \<Longrightarrow> x = (k, v) \<or> x \<in> set m"
  by (induction m) (auto split: if_splits)

lemma put_cookie_ok:
  assumes "jar_ok H jar" "setter \<in> H" "within domain setter" "only \<longrightarrow> domain = setter"
  shows "jar_ok H (put_cookie now (jar_key setter, domain, path, name) text only secure expires jar)"
proof -
  have "rightful H ((jar_key setter, domain, path, name), \<lparr>ce_value = text, ce_host_only = only, ce_secure = secure,
      ce_expires = expires, ce_sequence = n\<rparr>)" for n
    using assms by (auto simp: rightful_def)
  then show ?thesis using assms(1)
    by (auto simp: put_cookie_def jar_ok_def bt_ok_insert bt_ok_filter bt_remove_def Let_def
        dest!: set_insert_entry split: prod.splits)
qed

lemma store_one_ok:
  assumes "jar_ok H jar" "canonical_host L u \<in> H"
  shows "jar_ok H (store_one L C now u header jar)"
  unfolding store_one_def Let_def
  using assms cookie_domain_within
  by (auto intro!: put_cookie_ok split: option.split prod.split)

lemma store_cookies_ok:
  assumes "jar_ok H jar" "canonical_host L u \<in> H"
  shows "jar_ok H (store_cookies L C now u headers jar)"
proof -
  have "jar_ok H j \<Longrightarrow> jar_ok H (fold (store_one L C now u) headers j)" for j
    by (induction headers arbitrary: j) (simp_all add: store_one_ok assms(2))
  then show ?thesis using assms(1) by (simp add: store_cookies_def)
qed

lemma jar_history_ok: "jar_history L C H jar \<Longrightarrow> jar_ok H jar"
proof (induction rule: jar_history.induct)
  case (stored H jar u now headers)
  then have "jar_ok (insert (canonical_host L u) H) jar"
    by (auto simp: jar_ok_def intro: rightful_more)
  then show ?case by (rule store_cookies_ok) simp
next
  case (sent H jar now u)
  then show ?case by (auto simp: jar_ok_def cookie_header_def bt_retain_def bt_ok_filter)
qed (simp_all add: jar_ok_def empty_jar_def clear_jar_def)

lemma set_insert_cookie [simp]: "set (insert_cookie x ys) = insert x (set ys)"
  by (induction ys) auto

lemma set_sort_cookies: "set (foldr insert_cookie xs []) = set xs"
  by (induction xs) auto

text \<open>Longer paths first, then older cookies.\<close>

lemma cookie_before_total: "cookie_before x y \<or> cookie_before y x"
  by (cases x; cases y) (auto simp: cookie_before_def)

lemma cookie_before_trans: "cookie_before x y \<Longrightarrow> cookie_before y z \<Longrightarrow> cookie_before x z"
  by (cases x; cases y; cases z) (auto simp: cookie_before_def)

lemma sorted_insert_cookie: "sorted_wrt cookie_before ys \<Longrightarrow> sorted_wrt cookie_before (insert_cookie x ys)"
proof (induction ys)
  case (Cons y ys)
  then show ?case using cookie_before_total [of x y] cookie_before_trans [of x y] by auto
qed simp

lemma sorted_cookies: "sorted_wrt cookie_before (foldr insert_cookie xs [])"
  by (induction xs) (simp_all add: sorted_insert_cookie)

lemma selected_cookies_set:
  "x \<in> set (selected_cookies L now u jar) \<longleftrightarrow>
     x \<in> set (cj_entries jar) \<and> unexpired now (snd x) \<and> cookie_matches (canonical_host L u) u (fst x) (snd x)"
  by (auto simp: selected_cookies_def set_sort_cookies bt_retain_def)

text \<open>
  C11. In every history of a session a cookie that is sent is not expired, goes out over TLS if it is
  marked secure, was set since the jar was last cleared by a host of the same jar partition, and goes
  back to that very host or, if it named a domain, to a host within the domain, which contains the
  host that set it.  Cookies with longer paths come first, older ones before younger ones.
\<close>

theorem cookies_stay_home:
  assumes "jar_history L C H jar" "((part, domain, path, name), e) \<in> set (selected_cookies L now u jar)"
  shows "unexpired now e \<and> (ce_secure e \<longrightarrow> u_scheme u = ''https'') \<and>
    (\<exists>setter \<in> H. jar_key setter = jar_key (canonical_host L u) \<and>
       (if ce_host_only e then canonical_host L u = setter else within domain setter \<and> within domain (canonical_host L u))) \<and>
    sorted_wrt cookie_before (selected_cookies L now u jar)"
proof -
  have "rightful H ((part, domain, path, name), e)"
    using jar_history_ok [OF assms(1)] assms(2) by (auto simp: jar_ok_def selected_cookies_set)
  then show ?thesis
    using assms(2) sorted_cookies
    by (auto simp: selected_cookies_set cookie_matches_def rightful_def within_def) (auto simp: selected_cookies_def)
qed

section \<open>A sample session\<close>

definition sample_uris :: "bytes uri_lib" where
  "sample_uris = \<lparr>ul_domain = Inr, ul_build = (\<lambda>s a p. Inr a), ul_host = Some\<rparr>"

definition sample_cookie_lib :: cookie_lib where
  "sample_cookie_lib = \<lparr>cl_parse = (\<lambda>_. Some \<lparr>pc_name = ''a'', pc_path = None, pc_secure = Some True, pc_expires = None\<rparr>),
     cl_text = Some, cl_name_ok = (\<lambda>_. True), cl_checked_add = (\<lambda>n s. Some (n + s)), cl_isize_bits = 64\<rparr>"

definition sample_url :: url_parts where
  "sample_url = \<lparr>u_scheme = ''https'', u_hostname = ''h.x'', u_path = ''/'', u_raw_path = [], u_raw_query = [], u_force_query = False,
     u_fragment = [], u_port = None, u_has_credentials = False, u_host = ''h.x'', u_username = [], u_password = None, u_opaque = [],
     u_omit_host = False\<rparr>"

lemma sample_canonical: "canonical_host sample_uris sample_url = ''h.x''"
  by (simp add: canonical_host_def sample_uris_def sample_url_def ends_with_def Let_def)

definition sample_jar :: cookie_jar where
  "sample_jar = store_cookies sample_uris sample_cookie_lib 5 sample_url [''a=1''] empty_jar"

lemma sample_value: "cookie_value ''a=1'' = Some (''1'', False)"
  by (simp add: cookie_value_def split_once_def trim_ascii trim_list_def ascii_str_def is_white_def starts_with_def)

lemma sample_jar_entries:
  "cj_entries sample_jar = [((jar_key ''h.x'', ''h.x'', ''/'', ''a''),
     \<lparr>ce_value = ''1'', ce_host_only = True, ce_secure = True, ce_expires = None, ce_sequence = 0\<rparr>)]"
proof -
  have "attributes ''a=1'' n = []" for n by (simp add: attributes_def)
  moreover have "default_path (u_path sample_url) = ''/''"
    by (simp add: default_path_def sample_url_def rposition_def starts_with_def)
  ultimately show ?thesis
    unfolding sample_jar_def store_cookies_def store_one_def
    by (simp add: sample_canonical sample_value sample_cookie_lib_def cookie_domain_def last_or_def max_age_def
        put_cookie_def empty_jar_def Let_def)
qed

lemma sample_selected:
  "((jar_key ''h.x'', ''h.x'', ''/'', ''a''), \<lparr>ce_value = ''1'', ce_host_only = True, ce_secure = True, ce_expires = None, ce_sequence = 0\<rparr>)
     \<in> set (selected_cookies sample_uris 6 sample_url sample_jar)"
  by (simp add: selected_cookies_set sample_jar_entries unexpired_def cookie_matches_def sample_canonical)
    (simp add: sample_url_def)

theorem cookies_stay_home_witness:
  "fst (cookie_header sample_uris 6 sample_url sample_jar) = ''a=1'' \<and> u_scheme sample_url = ''https'' \<and>
   jar_key ''h.x'' = jar_key (canonical_host sample_uris sample_url)"
proof -
  have h: "jar_history sample_uris sample_cookie_lib {''h.x''} sample_jar"
    using jar_history.stored [OF jar_history.fresh, of sample_uris sample_cookie_lib sample_url 5 "[''a=1'']"]
    by (simp add: sample_jar_def sample_canonical)
  have "selected_cookies sample_uris 6 sample_url sample_jar = cj_entries sample_jar"
    by (simp add: selected_cookies_def sample_jar_entries bt_retain_def unexpired_def cookie_matches_def sample_canonical)
      (simp add: sample_url_def)
  then have "fst (cookie_header sample_uris 6 sample_url sample_jar) = ''a=1''"
    by (simp add: cookie_header_def sample_jar_entries)
  moreover have "u_scheme sample_url = ''https''"
    using cookies_stay_home [OF h sample_selected, THEN conjunct2, THEN conjunct1] by (rule mp) simp
  moreover have "jar_key ''h.x'' = jar_key (canonical_host sample_uris sample_url)"
    by (simp only: sample_canonical)
  ultimately show ?thesis by blast
qed

end
