(* ===== verification/Client.thy ===== *)
theory Client
  imports Policy Cookies
begin

text \<open>
  A request of a network session (rust\_backend/crates/network/src/client.rs): the check of the target,
  the headers that go out, redirects, and the headers that are dropped on the way.  The transport is a
  function of the number of the request and the request itself; the header map of the crate \<^verbatim>\<open>http\<close> is a
  map from lower-case names to the values of a name.
\<close>

section \<open>Headers and messages\<close>

type_synonym header_map = "bytes \<rightharpoonup> bytes list"

definition hm_get :: "header_map \<Rightarrow> bytes \<Rightarrow> bytes option" where
  "hm_get m n = (case m n of Some (v # _) \<Rightarrow> Some v | _ \<Rightarrow> None)"

definition hm_insert :: "bytes \<Rightarrow> bytes \<Rightarrow> header_map \<Rightarrow> header_map" where
  "hm_insert n v m = m(n \<mapsto> [v])"

definition hm_remove :: "bytes list \<Rightarrow> header_map \<Rightarrow> header_map" where
  "hm_remove names m = (\<lambda>n. if n \<in> set names then None else m n)"

definition hm_all :: "header_map \<Rightarrow> bytes \<Rightarrow> bytes list" where
  "hm_all m n = (case m n of Some vs \<Rightarrow> vs | None \<Rightarrow> [])"

definition hm_blank :: "header_map \<Rightarrow> bytes \<Rightarrow> bool" where
  "hm_blank m n \<longleftrightarrow> (case hm_get m n of None \<Rightarrow> True | Some v \<Rightarrow> v = [])"

record http_request =
  hr_url :: bytes
  hr_method :: bytes
  hr_body :: bytes
  hr_headers :: "(bytes, bytes) btree"
  hr_default_json :: bool
  hr_user_agent :: bytes

record http_lib =
  hl_name :: "bytes \<Rightarrow> bytes res"
  hl_value :: "bytes \<Rightarrow> bytes res"
  hl_text :: "bytes \<Rightarrow> bytes res"
  hl_method_ok :: "bytes \<Rightarrow> bool"
  hl_debug :: "bytes \<Rightarrow> bytes"

record 'u sent =
  sn_url :: url_parts
  sn_uri :: 'u
  sn_method :: bytes
  sn_headers :: header_map
  sn_body :: bytes

text \<open>The bytes of a body, and the error that follows them if there is one.\<close>

type_synonym body = "bytes \<times> bytes option"

record answer =
  an_status :: nat
  an_headers :: header_map
  an_body :: body

record 'u client_lib =
  kl_net :: "'u net_lib"
  kl_http :: http_lib
  kl_cookies :: cookie_lib
  kl_reason :: "nat \<Rightarrow> bytes option"
  kl_gunzip :: "body \<Rightarrow> body"

record pool =
  po_allow_private :: bool
  po_allow_http_fallback :: bool

record session =
  ss_permissions :: "permissions option"
  ss_native_media :: bool
  ss_cookies :: cookie_jar

text \<open>The answers of the transport and the times before and after the request of a number.\<close>

record 'u transport =
  tr_serve :: "nat \<Rightarrow> 'u sent \<Rightarrow> answer res"
  tr_now :: "nat \<Rightarrow> int"
  tr_later :: "nat \<Rightarrow> int"

section \<open>The first request\<close>

definition validate_target :: "'u net_lib \<Rightarrow> session \<Rightarrow> bytes \<Rightarrow> bool \<Rightarrow> bool \<Rightarrow> url_parts res" where
  "validate_target N S input allow_private redirect =
     (case ss_permissions S of
        Some P \<Rightarrow> validate N P input allow_private redirect
      | None \<Rightarrow>
          (case parse_url (nl_tables N) (nl_sigma N) input of
             None \<Rightarrow> Inl ''invalid URL''
           | Some u \<Rightarrow> validate N \<lparr>pm_domains = [u_hostname u], pm_allow_http = ss_native_media S\<rparr> input allow_private redirect))"

fun add_headers :: "http_lib \<Rightarrow> (bytes \<times> bytes) list \<Rightarrow> header_map \<Rightarrow> header_map res" where
  "add_headers H [] m = Inr m"
| "add_headers H ((name, text) # hs) m =
     bind_res (hl_name H name) (\<lambda>n.
       if n \<in> {''host'', ''content-length'', ''transfer-encoding''} then add_headers H hs m
       else bind_res (hl_value H text) (\<lambda>v. add_headers H hs (hm_insert n v m)))"

definition request_headers_of :: "http_lib \<Rightarrow> http_request \<Rightarrow> header_map res" where
  "request_headers_of H r =
     bind_res (add_headers H (hr_headers r) Map.empty) (\<lambda>m.
     bind_res (if hm_blank m ''user-agent'' then bind_res (hl_value H (hr_user_agent r)) (\<lambda>v. Inr (hm_insert ''user-agent'' v m)) else Inr m)
       (\<lambda>m. Inr (if hr_default_json r \<and> hm_blank m ''content-type'' then hm_insert ''content-type'' ''application/json'' m else m)))"

definition request_method :: "http_lib \<Rightarrow> http_request \<Rightarrow> bytes res" where
  "request_method H r =
     (let m = (if hr_method r = [] then ''GET'' else hr_method r)
      in if hl_method_ok H m then Inr m else Inl (''net/http: invalid method '' @ hl_debug H (hr_method r)))"

section \<open>One round\<close>

record round_state =
  rs_url :: url_parts
  rs_method :: bytes
  rs_body :: bytes
  rs_headers :: header_map

text \<open>The cookies of the jar follow those the caller gave.\<close>

definition with_cookies :: "http_lib \<Rightarrow> bytes \<Rightarrow> header_map \<Rightarrow> header_map res" where
  "with_cookies H cookies m =
     (if cookies = [] then Inr m
      else let own = (case hm_get m ''cookie'' of None \<Rightarrow> [] | Some v \<Rightarrow> (case hl_text H v of Inl _ \<Rightarrow> [] | Inr t \<Rightarrow> t))
        in bind_res (hl_value H (if own = [] then cookies else own @ ''; '' @ cookies)) (\<lambda>v. Inr (hm_insert ''cookie'' v m)))"

definition wants_gzip :: "bool \<Rightarrow> bytes \<Rightarrow> header_map \<Rightarrow> bool" where
  "wants_gzip compression method m \<longleftrightarrow>
     compression \<and> hm_blank m ''accept-encoding'' \<and> hm_blank m ''range'' \<and> method \<noteq> ''HEAD''"

definition can_replay :: "bytes \<Rightarrow> bytes \<Rightarrow> bool" where
  "can_replay method body \<longleftrightarrow> method \<in> {''GET'', ''HEAD'', ''OPTIONS'', ''DELETE''} \<or> body \<noteq> []"

definition update_explicit_cookies :: "http_lib \<Rightarrow> cookie_lib \<Rightarrow> header_map \<Rightarrow> header_map \<Rightarrow> header_map" where
  "update_explicit_cookies H C headers response =
     (case Option.bind (hm_get headers ''cookie'') (\<lambda>v. case hl_text H v of Inl _ \<Rightarrow> None | Inr t \<Rightarrow> Some t) of
        None \<Rightarrow> headers
      | Some original \<Rightarrow>
          (let names = List.map_filter (\<lambda>v. case hl_text H v of Inl _ \<Rightarrow> None | Inr t \<Rightarrow> map_option pc_name (cl_parse C t))
                 (hm_all response ''set-cookie'');
               pairs = map trim (split_on CHR '';'' original);
               remove = (\<lambda>p. case split_once CHR ''='' p of None \<Rightarrow> False | Some (n, _) \<Rightarrow> n \<in> set names)
           in if list_ex remove pairs
              then hm_insert ''cookie'' (join ''; '' (sort (filter (\<lambda>p. \<not> remove p) pairs))) headers
              else headers))"

definition forward_sensitive_headers :: "'u net_lib \<Rightarrow> bytes \<Rightarrow> bytes \<Rightarrow> bool" where
  "forward_sensitive_headers N original0 target0 \<longleftrightarrow>
     (let original = lower_of N original0; target = lower_of N target0
      in original = target \<or>
         CHR '':'' \<notin> set target \<and> CHR ''%'' \<notin> set target \<and> ends_with target (CHR ''.'' # original))"

definition sensitive_headers :: "bytes list" where
  "sensitive_headers =
     [''authorization'', ''www-authenticate'', ''cookie'', ''proxy-authorization'', ''proxy-authenticate'', ''cookie2'']"

definition follow_redirect :: "'u client_lib \<Rightarrow> url_parts \<Rightarrow> bytes option \<Rightarrow> url_parts \<Rightarrow> answer \<Rightarrow> round_state \<Rightarrow> round_state" where
  "follow_redirect K original referer target a st =
     (let H = kl_http K;
          headers = update_explicit_cookies H (kl_cookies K) (rs_headers st) (an_headers a);
          see_other = (301 \<le> an_status a \<and> an_status a \<le> 303);
          headers = (if see_other
            then hm_remove [''content-encoding'', ''content-language'', ''content-location'', ''content-type''] headers else headers);
          headers = (if forward_sensitive_headers (kl_net K) (u_hostname original) (u_hostname target) then headers
            else hm_remove sensitive_headers headers);
          headers = (if u_scheme (rs_url st) = ''https'' \<and> u_scheme target = ''http'' then hm_remove [''referer''] headers
            else case referer of
                Some v \<Rightarrow> hm_insert ''referer'' v headers
              | None \<Rightarrow> (case hl_value H (display_url (rs_url st)) of Inl _ \<Rightarrow> headers | Inr v \<Rightarrow> hm_insert ''referer'' v headers))
      in \<lparr>rs_url = target,
          rs_method = (if see_other \<and> rs_method st \<noteq> ''GET'' \<and> rs_method st \<noteq> ''HEAD'' then ''GET'' else rs_method st),
          rs_body = (if see_other then [] else rs_body st), rs_headers = headers\<rparr>)"

section \<open>The exchange of one round\<close>

record ('u, 'r) exchange =
  ex_result :: "'r res"
  ex_session :: session
  ex_sent :: "'u sent list"

type_synonym 'u round_exchange = "('u, answer \<times> url_parts \<times> bool) exchange"

text \<open>A request that fails may be repeated over plain HTTP, if that is allowed.\<close>

definition transmit :: "'u uri_lib \<Rightarrow> 'u transport \<Rightarrow> bool \<Rightarrow> nat \<Rightarrow> 'u sent \<Rightarrow> (answer \<times> url_parts) res \<times> 'u sent list" where
  "transmit L T fallback i req =
     (case tr_serve T i req of
        Inr a \<Rightarrow> (Inr (a, sn_url req), [req])
      | Inl e \<Rightarrow>
          if fallback then
            (let v = (sn_url req)\<lparr>u_scheme := ''http''\<rparr>
             in case request_uri L v of Inl e \<Rightarrow> (Inl e, [req]) | Inr uri2 \<Rightarrow>
               (let again = req\<lparr>sn_url := v, sn_uri := uri2\<rparr>
                in case tr_serve T (i + 1) again of
                     Inl e \<Rightarrow> (Inl e, [req, again])
                   | Inr a \<Rightarrow> (Inr (a, v), [req, again])))
          else (Inl e, [req]))"

definition send_round :: "'u client_lib \<Rightarrow> 'u transport \<Rightarrow> pool \<Rightarrow> bool \<Rightarrow> nat \<Rightarrow> round_state \<Rightarrow> session \<Rightarrow> 'u round_exchange" where
  "send_round K T po compression i st S =
     (let N = kl_net K; L = nl_uris N; H = kl_http K; u = rs_url st
      in case request_uri L u of Inl e \<Rightarrow> \<lparr>ex_result = Inl e, ex_session = S, ex_sent = []\<rparr> | Inr uri \<Rightarrow>
        (let (cookies, jar) = (if ss_native_media S then ([], ss_cookies S) else cookie_header L (tr_now T i) u (ss_cookies S));
             S1 = S\<lparr>ss_cookies := jar\<rparr>
         in case with_cookies H cookies (rs_headers st) of Inl e \<Rightarrow> \<lparr>ex_result = Inl e, ex_session = S1, ex_sent = []\<rparr> | Inr m \<Rightarrow>
           (let gzip = wants_gzip compression (rs_method st) m;
                req = \<lparr>sn_url = u, sn_uri = uri, sn_method = rs_method st,
                       sn_headers = (if gzip then hm_insert ''accept-encoding'' ''gzip'' m else m), sn_body = rs_body st\<rparr>;
                (result, sent) = transmit L T (po_allow_http_fallback po \<and> ss_permissions S = None \<and> u_scheme u = ''https'' \<and>
                   can_replay (rs_method st) (rs_body st)) i req
            in case result of
                 Inl e \<Rightarrow> \<lparr>ex_result = Inl e, ex_session = S1, ex_sent = sent\<rparr>
               | Inr (a, v) \<Rightarrow>
                   \<lparr>ex_result = Inr (a, v, gzip),
                    ex_session = (if ss_native_media S then S1
                      else S1\<lparr>ss_cookies := store_cookies L (kl_cookies K) (tr_later T i) u (hm_all (an_headers a) ''set-cookie'') jar\<rparr>),
                    ex_sent = sent\<rparr>)))"

section \<open>The call\<close>

text \<open>
  \<open>left\<close> rounds are still allowed; the last one returns its response even if that is a redirect,
  after the target of the redirect has been checked.
\<close>

definition redirect_location :: "answer \<Rightarrow> bytes option" where
  "redirect_location a =
     (if an_status a \<in> {301, 302, 303, 307, 308}
      then (case hm_get (an_headers a) ''location'' of Some v \<Rightarrow> if v \<noteq> [] then Some v else None | None \<Rightarrow> None)
      else None)"

definition redirect_target :: "'u client_lib \<Rightarrow> pool \<Rightarrow> session \<Rightarrow> url_parts \<Rightarrow> bytes \<Rightarrow> url_parts res" where
  "redirect_target K po S u location =
     (let N = kl_net K
      in bind_res (hl_text (kl_http K) location) (\<lambda>text.
         bind_res (ok_or (resolve_url (nl_tables N) (nl_sigma N) u text) ''invalid redirect URL'') (\<lambda>target.
           if u_has_credentials target then Inl ''invalid URL: embedded credentials are not allowed''
           else bind_res (validate_target N S (display_url target) (po_allow_private po) True) (\<lambda>_. Inr target))))"

fun execute_rounds :: "'u client_lib \<Rightarrow> 'u transport \<Rightarrow> pool \<Rightarrow> bool \<Rightarrow> url_parts \<Rightarrow> bytes option \<Rightarrow> nat \<Rightarrow> nat \<Rightarrow> round_state \<Rightarrow> session \<Rightarrow>
    'u round_exchange" where
  "execute_rounds K T po compression original referer 0 i st S =
     \<lparr>ex_result = Inl ''last redirect returns its response'', ex_session = S, ex_sent = []\<rparr>"
| "execute_rounds K T po compression original referer (Suc left) i st S =
     (let x = send_round K T po compression i st S
      in case ex_result x of Inl e \<Rightarrow> x | Inr (a, url, gzip) \<Rightarrow>
        (case redirect_location a of None \<Rightarrow> x | Some location \<Rightarrow>
          (case redirect_target K po (ex_session x) (rs_url st) location of
             Inl e \<Rightarrow> x\<lparr>ex_result := Inl e\<rparr>
           | Inr target \<Rightarrow>
               if left = 0 then x
               else (let y = execute_rounds K T po compression original referer left (i + length (ex_sent x))
                        (follow_redirect K original referer target a st) (ex_session x)
                     in y\<lparr>ex_sent := ex_sent x @ ex_sent y\<rparr>))))"

text \<open>The names of the headers of a response are those of the map with their words capitalised.\<close>

definition canonical_header :: "bytes \<Rightarrow> bytes" where
  "canonical_header name = join ''-'' (map (\<lambda>w. case w of [] \<Rightarrow> [] | b # r \<Rightarrow> ascii_upper b # r) (split_on CHR ''-'' name))"

definition canonical_headers :: "header_map \<Rightarrow> header_map" where
  "canonical_headers m =
     (\<lambda>c. let n = map ascii_lower c in if canonical_header n = c then map_option (map from_utf8_lossy) (m n) else None)"

record http_response =
  hp_status :: nat
  hp_status_text :: bytes
  hp_url :: bytes
  hp_headers :: header_map
  hp_body :: bytes

definition respond :: "'u client_lib \<Rightarrow> answer \<times> url_parts \<times> bool \<Rightarrow> http_response \<times> body" where
  "respond K = (\<lambda>(a, url, gzip).
     let decompress = (gzip \<and> (case hm_get (an_headers a) ''content-encoding'' of None \<Rightarrow> False
           | Some v \<Rightarrow> eq_ignore_ascii_case v ''gzip''));
         m = (if decompress then hm_remove [''content-encoding'', ''content-length''] (an_headers a) else an_headers a)
     in (\<lparr>hp_status = an_status a, hp_status_text = (case kl_reason K (an_status a) of None \<Rightarrow> [] | Some t \<Rightarrow> t),
          hp_url = display_url url, hp_headers = canonical_headers m, hp_body = []\<rparr>,
         if decompress then kl_gunzip K (an_body a) else an_body a))"

definition execute_stream :: "'u client_lib \<Rightarrow> 'u transport \<Rightarrow> pool \<Rightarrow> bool \<Rightarrow> http_request \<Rightarrow> session \<Rightarrow>
    ('u, http_response \<times> body) exchange" where
  "execute_stream K T po compression r S =
     (let fail = (\<lambda>e. \<lparr>ex_result = Inl e, ex_session = S, ex_sent = []\<rparr>)
      in case validate_target (kl_net K) S (hr_url r) (po_allow_private po) False of Inl e \<Rightarrow> fail e | Inr u \<Rightarrow>
        (case request_method (kl_http K) r of Inl e \<Rightarrow> fail e | Inr method \<Rightarrow>
        (case request_headers_of (kl_http K) r of Inl e \<Rightarrow> fail e | Inr m \<Rightarrow>
          (let x = execute_rounds K T po compression u (case hm_get m ''referer'' of Some v \<Rightarrow> if v \<noteq> [] then Some v else None | None \<Rightarrow> None)
                 10 0 \<lparr>rs_url = u, rs_method = method, rs_body = hr_body r, rs_headers = m\<rparr> S
           in \<lparr>ex_result = bind_res (ex_result x) (\<lambda>y. Inr (respond K y)), ex_session = ex_session x, ex_sent = ex_sent x\<rparr>))))"

text \<open>A buffered call takes at most one byte more than the limit from the body.\<close>

definition max_response_bytes :: nat where
  "max_response_bytes = 16 * 2 ^ 20"

definition collect_body :: "http_response \<times> body \<Rightarrow> http_response res" where
  "collect_body = (\<lambda>(p, (data, broken)).
     if max_response_bytes < length data then
       Inl (''response body exceeds '' @ show_nat max_response_bytes @ '' byte limit; use file.download for large media'')
     else case broken of Some e \<Rightarrow> Inl e | None \<Rightarrow> Inr (p\<lparr>hp_body := data\<rparr>))"

definition execute_call :: "'u client_lib \<Rightarrow> 'u transport \<Rightarrow> pool \<Rightarrow> http_request \<Rightarrow> session \<Rightarrow> ('u, http_response) exchange" where
  "execute_call K T po r S =
     (let x = execute_stream K T po True r S
      in \<lparr>ex_result = bind_res (ex_result x) collect_body, ex_session = ex_session x, ex_sent = ex_sent x\<rparr>)"

section \<open>Other checks of a session\<close>

text \<open>\<open>live\<close> is the caller's check, \<open>private_name\<close> tells whether the lookup of a name gives a private address.\<close>

definition validate_auth_url :: "'u net_lib \<Rightarrow> pool \<Rightarrow> unit res \<Rightarrow> (bytes \<Rightarrow> bool res) \<Rightarrow> bytes \<Rightarrow> url_parts res" where
  "validate_auth_url N po live private_name input =
     bind_res live (\<lambda>_. case parse_url (nl_tables N) (nl_sigma N) input of
        None \<Rightarrow> Inl ''invalid auth URL''
      | Some u \<Rightarrow>
          if u_scheme u \<noteq> ''https'' then Inl ''invalid auth URL: only https is allowed''
          else if u_hostname u = [] then Inl ''invalid auth URL: hostname is required''
          else if u_has_credentials u then Inl ''invalid auth URL: embedded credentials are not allowed''
          else if po_allow_private po then Inr u
          else bind_res (request_uri (nl_uris N) u) (\<lambda>uri.
            bind_res
              (if private_literal_or_local N (u_hostname u) \<or>
                  (case ul_host (nl_uris N) uri of None \<Rightarrow> False | Some h \<Rightarrow> private_literal_or_local N h)
               then Inr True else private_name (u_hostname u))
              (\<lambda>private. if private then Inl ''invalid auth URL: private/local network is not allowed'' else Inr u)))"

definition validate_url :: "'u net_lib \<Rightarrow> session \<Rightarrow> pool \<Rightarrow> bytes \<Rightarrow> unit res" where
  "validate_url N S po url = bind_res (validate_target N S url (po_allow_private po) False) (\<lambda>_. Inr ())"

definition clear_cookies :: "session \<Rightarrow> session" where
  "clear_cookies S = S\<lparr>ss_cookies := clear_jar (ss_cookies S)\<rparr>"

section \<open>Where requests go\<close>

text \<open>The host of a built URI is decided by its authority.\<close>

definition authority_decides :: "'u uri_lib \<Rightarrow> bool" where
  "authority_decides L \<longleftrightarrow>
     (\<forall>s1 s2 a p1 p2 x y. ul_build L s1 a p1 = Inr x \<longrightarrow> ul_build L s2 a p2 = Inr y \<longrightarrow> ul_host L x = ul_host L y)"

definition allowed_sent :: "'u net_lib \<Rightarrow> permissions \<Rightarrow> bool \<Rightarrow> 'u sent \<Rightarrow> bool" where
  "allowed_sent N P allow_private s \<longleftrightarrow>
     safe_host N P allow_private (sn_url s) \<and> request_uri (nl_uris N) (sn_url s) = Inr (sn_uri s) \<and>
     public_uri N allow_private (sn_uri s)"

definition round_ok :: "'u net_lib \<Rightarrow> permissions \<Rightarrow> bool \<Rightarrow> url_parts \<Rightarrow> bool" where
  "round_ok N P allow_private u \<longleftrightarrow>
     url_ok u \<and> safe_host N P allow_private u \<and>
     (\<forall>uri. request_uri (nl_uris N) u = Inr uri \<longrightarrow> public_uri N allow_private uri)"

lemma request_uri_host:
  assumes "authority_decides L" "request_uri L u = Inr x" "request_uri L v = Inr y"
    and "u_hostname u = u_hostname v" "given_port u = given_port v"
  shows "ul_host L x = ul_host L y"
proof -
  have parts: "\<exists>host s p. request_host L w = Inr host \<and>
      ul_build L s (case given_port w of Some p \<Rightarrow> host @ CHR '':'' # p | None \<Rightarrow> host) p = Inr z"
    if "request_uri L w = Inr z" for w z
    using that unfolding request_uri_def by (auto simp: bind_res_Inr split: if_splits)
  have "request_host L u = request_host L v" using assms(4) by (simp add: request_host_def)
  then show ?thesis
    using parts [OF assms(2)] parts [OF assms(3)] assms(1) unfolding assms(5) authority_decides_def by (metis sum.inject(2))
qed

lemma safe_scheme: "safe_host N P allow u \<Longrightarrow> u_scheme u \<noteq> []"
  by (auto simp: safe_host_def)

lemma redirect_target_ok:
  assumes "authority_decides (nl_uris (kl_net K))" "ss_permissions S = Some P" "round_ok (kl_net K) P (po_allow_private po) u"
    and "redirect_target K po S u location = Inr target"
  shows "round_ok (kl_net K) P (po_allow_private po) target"
proof -
  let ?N = "kl_net K" let ?p = "po_allow_private po"
  obtain loc u' where t: "resolve_url (nl_tables ?N) (nl_sigma ?N) u loc = Some target" "\<not> u_has_credentials target"
      "validate ?N P (display_url target) ?p True = Inr u'"
    using assms(2,4) by (auto simp: redirect_target_def Let_def bind_res_Inr ok_or_Inr validate_target_def split: if_splits)
  have u: "url_ok u" "u_scheme u \<noteq> []" using assms(3) safe_scheme by (auto simp: round_ok_def)
  note r = resolve_url_ok [OF u t(1)]
  obtain uri' where v: "parse_url (nl_tables ?N) (nl_sigma ?N) (display_url target) = Some u'" "safe_host ?N P ?p u'"
      "request_uri (nl_uris ?N) u' = Inr uri'" "public_uri ?N ?p uri'"
    using validate_safe [OF t(3)] by blast
  have same: "u_scheme u' = u_scheme target" "u_hostname u' = u_hostname target" "given_port u' = given_port target"
    using display_back [of target, OF _ _ _ v(1)] r by blast+
  have "safe_host ?N P ?p target" using v(2) same t(2) by (simp add: safe_host_def)
  moreover have "public_uri ?N ?p uri" if "request_uri (nl_uris ?N) target = Inr uri" for uri
    using request_uri_host [OF assms(1) that v(3)] same v(4) by (simp add: public_uri_def)
  ultimately show ?thesis using r by (simp add: round_ok_def)
qed

text \<open>A round sends one request, or the same again to the URL with the scheme \<^verbatim>\<open>http\<close>.\<close>

lemma transmit_sent:
  assumes "transmit L T fallback i req = (result, sent)"
  shows "sent = [req] \<or> fallback \<and> (\<exists>uri2. sent = [req, req\<lparr>sn_url := (sn_url req)\<lparr>u_scheme := ''http''\<rparr>, sn_uri := uri2\<rparr>])"
  using assms unfolding transmit_def Let_def by (auto split: sum.splits if_splits)

lemma send_round_sent:
  assumes "send_round K T po compression i st S = x"
  shows "ss_permissions (ex_session x) = ss_permissions S \<and>
    (ex_sent x = [] \<or> (\<exists>uri m cookies req.
       request_uri (nl_uris (kl_net K)) (rs_url st) = Inr uri \<and>
       (cookies = [] \<or> cookies = fst (cookie_header (nl_uris (kl_net K)) (tr_now T i) (rs_url st) (ss_cookies S))) \<and>
       with_cookies (kl_http K) cookies (rs_headers st) = Inr m \<and>
       sn_url req = rs_url st \<and> sn_uri req = uri \<and>
       sn_headers req = (if wants_gzip compression (rs_method st) m then hm_insert ''accept-encoding'' ''gzip'' m else m) \<and>
       (ex_sent x = [req] \<or> ss_permissions S = None \<and>
          (\<exists>uri2. ex_sent x = [req, req\<lparr>sn_url := (rs_url st)\<lparr>u_scheme := ''http''\<rparr>, sn_uri := uri2\<rparr>]))))"
proof (cases "request_uri (nl_uris (kl_net K)) (rs_url st)")
  case (Inl e)
  then show ?thesis using assms by (auto simp: send_round_def)
next
  case (Inr uri)
  define cj where "cj = (if ss_native_media S then ([], ss_cookies S)
    else cookie_header (nl_uris (kl_net K)) (tr_now T i) (rs_url st) (ss_cookies S))"
  obtain cookies jar where cj: "cj = (cookies, jar)" by (cases cj)
  have c: "cookies = [] \<or> cookies = fst (cookie_header (nl_uris (kl_net K)) (tr_now T i) (rs_url st) (ss_cookies S))"
    using cj by (auto simp: cj_def split: if_splits)
  show ?thesis
  proof (cases "with_cookies (kl_http K) cookies (rs_headers st)")
    case (Inl e)
    then show ?thesis using assms Inr cj by (auto simp: send_round_def cj_def [symmetric] Let_def)
  next
    case m: (Inr m)
    define req where "req = \<lparr>sn_url = rs_url st, sn_uri = uri, sn_method = rs_method st,
      sn_headers = (if wants_gzip compression (rs_method st) m then hm_insert ''accept-encoding'' ''gzip'' m else m), sn_body = rs_body st\<rparr>"
    define fallback where "fallback \<longleftrightarrow> po_allow_http_fallback po \<and> ss_permissions S = None \<and> u_scheme (rs_url st) = ''https'' \<and>
      can_replay (rs_method st) (rs_body st)"
    obtain result sent where tr: "transmit (nl_uris (kl_net K)) T fallback i req = (result, sent)" by (metis surj_pair)
    have x: "ex_sent x = sent \<and> ss_permissions (ex_session x) = ss_permissions S"
      using assms Inr cj m tr unfolding send_round_def Let_def cj_def [symmetric]
      by (auto simp: req_def [symmetric] fallback_def [symmetric] split: sum.splits)
    have "sn_url req = rs_url st" "sn_uri req = uri"
        "sn_headers req = (if wants_gzip compression (rs_method st) m then hm_insert ''accept-encoding'' ''gzip'' m else m)"
      by (simp_all add: req_def)
    then show ?thesis using transmit_sent [OF tr] x c m Inr unfolding fallback_def by metis
  qed
qed

lemma send_round_permitted:
  assumes "ss_permissions S = Some P" "round_ok (kl_net K) P (po_allow_private po) (rs_url st)"
    and "send_round K T po compression i st S = x"
  shows "(\<forall>s \<in> set (ex_sent x). allowed_sent (kl_net K) P (po_allow_private po) s) \<and> length (ex_sent x) \<le> 1 \<and>
    ss_permissions (ex_session x) = Some P"
  using send_round_sent [OF assms(3)] assms(1,2) by (auto simp: round_ok_def allowed_sent_def)

lemma follow_redirect_url [simp]: "rs_url (follow_redirect K original referer target a st) = target"
  by (simp add: follow_redirect_def Let_def)

lemma execute_rounds_permitted:
  assumes "authority_decides (nl_uris (kl_net K))" "ss_permissions S = Some P"
    and "round_ok (kl_net K) P (po_allow_private po) (rs_url st)"
    and "execute_rounds K T po compression original referer left i st S = x"
  shows "(\<forall>s \<in> set (ex_sent x). allowed_sent (kl_net K) P (po_allow_private po) s) \<and> length (ex_sent x) \<le> left"
  using assms(2-)
proof (induction left arbitrary: i st S x)
  case 0
  then show ?case by auto
next
  case (Suc left)
  obtain y where y: "send_round K T po compression i st S = y" by simp
  note sr = send_round_permitted [OF Suc.prems(1,2) y]
  show ?case
  proof (cases "\<exists>a url gzip location target. ex_result y = Inr (a, url, gzip) \<and> redirect_location a = Some location \<and>
      redirect_target K po (ex_session y) (rs_url st) location = Inr target \<and> left \<noteq> 0")
    case False
    then have "x = y \<or> (\<exists>e. x = y\<lparr>ex_result := Inl e\<rparr>)"
      using Suc.prems(3) y by (auto simp: Let_def split: sum.splits option.splits if_splits)
    then show ?thesis using sr by auto
  next
    case True
    then obtain a url gzip location target where t: "ex_result y = Inr (a, url, gzip)" "redirect_location a = Some location"
        "redirect_target K po (ex_session y) (rs_url st) location = Inr target" "left \<noteq> 0" by blast
    obtain z where z: "execute_rounds K T po compression original referer left (i + length (ex_sent y))
        (follow_redirect K original referer target a st) (ex_session y) = z" by simp
    have x: "x = z\<lparr>ex_sent := ex_sent y @ ex_sent z\<rparr>" using Suc.prems(3) y t z by (simp add: Let_def)
    have "round_ok (kl_net K) P (po_allow_private po) target"
      using redirect_target_ok [OF assms(1) _ Suc.prems(2) t(3)] sr by blast
    then have "(\<forall>s \<in> set (ex_sent z). allowed_sent (kl_net K) P (po_allow_private po) s) \<and> length (ex_sent z) \<le> left"
      using Suc.IH [OF _ _ z] sr by simp
    then show ?thesis using sr x by auto
  qed
qed

text \<open>
  C3. Whatever an extension requests and the servers answer, each of the at most ten requests that are
  sent goes to an allowed domain over an allowed scheme, without credentials, and, unless private
  networks are allowed, neither the host of its URL nor the host of the URI that is dialled is a
  private literal or a local name: the check of the displayed redirect target is the check of the
  target itself.
\<close>

theorem requests_stay_allowed:
  assumes "ss_permissions S = Some P" "authority_decides (nl_uris (kl_net K))"
    and "execute_stream K T po compression r S = x"
  shows "(\<forall>s \<in> set (ex_sent x). allowed_sent (kl_net K) P (po_allow_private po) s) \<and> length (ex_sent x) \<le> 10"
proof (cases "ex_sent x = []")
  case False
  then obtain u meth m referer where u: "validate (kl_net K) P (hr_url r) (po_allow_private po) False = Inr u"
      "ex_sent x = ex_sent (execute_rounds K T po compression u referer 10 0
         \<lparr>rs_url = u, rs_method = meth, rs_body = hr_body r, rs_headers = m\<rparr> S)"
    using assms(1,3) by (auto simp: execute_stream_def validate_target_def Let_def split: sum.splits)
  have "round_ok (kl_net K) P (po_allow_private po) u"
    using validate_safe [OF u(1)] parse_url_ok by (auto simp: round_ok_def)
  then show ?thesis unfolding u(2) by (intro execute_rounds_permitted [OF assms(2,1) _ refl]) simp
qed simp

text \<open>Where a user is sent to sign in: over TLS, to a public host, as far as names tell.\<close>

lemma validate_auth_url_safe:
  assumes "validate_auth_url N po live private_name input = Inr u"
  shows "u_scheme u = ''https'' \<and> u_hostname u \<noteq> [] \<and> \<not> u_has_credentials u \<and>
    (\<not> po_allow_private po \<longrightarrow> \<not> private_literal_or_local N (u_hostname u) \<and> private_name (u_hostname u) = Inr False \<and>
       (\<exists>uri. request_uri (nl_uris N) u = Inr uri \<and> public_uri N False uri))"
  using assms unfolding validate_auth_url_def public_uri_def
  by (auto simp: bind_res_Inr split: option.splits if_splits)

section \<open>What other hosts are told\<close>

definition stripped :: "'u client_lib \<Rightarrow> header_map \<Rightarrow> url_parts \<Rightarrow> bool" where
  "stripped K m u \<longleftrightarrow>
     (\<forall>n \<in> set sensitive_headers. m n = None \<or>
        n = ''cookie'' \<and> (\<exists>now H jar v. jar_history (nl_uris (kl_net K)) (kl_cookies K) H jar \<and>
          hl_value (kl_http K) (fst (cookie_header (nl_uris (kl_net K)) now u jar)) = Inr v \<and> m n = Some [v]))"

definition guarded :: "'u client_lib \<Rightarrow> url_parts \<Rightarrow> round_state \<Rightarrow> bool" where
  "guarded K original st \<longleftrightarrow>
     (\<not> forward_sensitive_headers (kl_net K) (u_hostname original) (u_hostname (rs_url st)) \<longrightarrow>
        (\<forall>n \<in> set sensitive_headers. rs_headers st n = None))"

lemma follow_redirect_guarded: "guarded K original (follow_redirect K original referer target a st)"
proof -
  have "\<not> forward_sensitive_headers (kl_net K) (u_hostname original) (u_hostname target) \<Longrightarrow> n \<in> set sensitive_headers \<Longrightarrow>
      rs_headers (follow_redirect K original referer target a st) n = None" for n
    unfolding follow_redirect_def Let_def
    by (auto simp: hm_insert_def hm_remove_def sensitive_headers_def split: option.split sum.split)
  then show ?thesis by (simp add: guarded_def)
qed

lemma with_cookies_stripped:
  assumes "\<forall>n \<in> set sensitive_headers. m n = None"
    and "with_cookies (kl_http K) cookies m = Inr m'"
    and "cookies = [] \<or> cookies = fst (cookie_header (nl_uris (kl_net K)) now u jar)" "jar_history (nl_uris (kl_net K)) (kl_cookies K) H jar"
  shows "stripped K m' u"
proof (cases "cookies = []")
  case True
  then show ?thesis using assms by (auto simp: with_cookies_def stripped_def)
next
  case False
  have "hm_get m ''cookie'' = None" using assms(1) by (simp add: hm_get_def sensitive_headers_def)
  then obtain v where "hl_value (kl_http K) cookies = Inr v" "m' = hm_insert ''cookie'' v m"
    using assms(2) False by (auto simp: with_cookies_def bind_res_Inr)
  then show ?thesis using assms(1,3,4) False unfolding stripped_def hm_insert_def by auto
qed

lemma send_round_history:
  assumes "jar_history (nl_uris (kl_net K)) (kl_cookies K) H (ss_cookies S)" "send_round K T po compression i st S = x"
  shows "\<exists>H'. jar_history (nl_uris (kl_net K)) (kl_cookies K) H' (ss_cookies (ex_session x))"
proof -
  let ?L = "nl_uris (kl_net K)" let ?C = "kl_cookies K"
  define cj where "cj = (if ss_native_media S then ([], ss_cookies S) else cookie_header ?L (tr_now T i) (rs_url st) (ss_cookies S))"
  obtain cookies jar where cj: "cj = (cookies, jar)" by (cases cj)
  have j: "jar_history ?L ?C H jar"
    using assms(1) jar_history.sent [OF assms(1), of "tr_now T i" "rs_url st"] cj by (auto simp: cj_def split: if_splits)
  have "ss_cookies (ex_session x) \<in> {ss_cookies S, jar} \<or>
      (\<exists>headers. ss_cookies (ex_session x) = store_cookies ?L ?C (tr_later T i) (rs_url st) headers jar)"
    using assms(2) cj unfolding send_round_def Let_def cj_def [symmetric] by (auto split: sum.splits prod.splits if_splits)
  then show ?thesis using j assms(1) jar_history.stored [OF j] by (metis insert_iff singletonD)
qed

lemma send_round_guarded:
  assumes "guarded K original st" "send_round K T po compression i st S = x" "s \<in> set (ex_sent x)"
    and "\<not> forward_sensitive_headers (kl_net K) (u_hostname original) (u_hostname (sn_url s))"
    and "jar_history (nl_uris (kl_net K)) (kl_cookies K) H (ss_cookies S)"
  shows "stripped K (sn_headers s) (rs_url st) \<and> (sn_url s = rs_url st \<or> sn_url s = (rs_url st)\<lparr>u_scheme := ''http''\<rparr>)"
proof -
  have "ex_sent x \<noteq> []" using assms(3) by auto
  then obtain m cookies where c: "cookies = [] \<or> cookies = fst (cookie_header (nl_uris (kl_net K)) (tr_now T i) (rs_url st) (ss_cookies S))"
    and m: "with_cookies (kl_http K) cookies (rs_headers st) = Inr m"
      "sn_url s = rs_url st \<or> sn_url s = (rs_url st)\<lparr>u_scheme := ''http''\<rparr>"
      "sn_headers s = (if wants_gzip compression (rs_method st) m then hm_insert ''accept-encoding'' ''gzip'' m else m)"
    using send_round_sent [OF assms(2)] assms(3) by fastforce
  have "u_hostname (sn_url s) = u_hostname (rs_url st)" using m(2) by auto
  then have "\<forall>n \<in> set sensitive_headers. rs_headers st n = None" using assms(1,4) by (simp add: guarded_def)
  then have "stripped K m (rs_url st)" using with_cookies_stripped [OF _ m(1) c assms(5)] by blast
  moreover have "''accept-encoding'' \<notin> set sensitive_headers" by (simp add: sensitive_headers_def)
  ultimately show ?thesis using m(2,3) by (auto simp: stripped_def hm_insert_def)
qed

lemma execute_rounds_stripped:
  assumes "guarded K original st" "execute_rounds K T po compression original referer left i st S = x" "s \<in> set (ex_sent x)"
    and "\<not> forward_sensitive_headers (kl_net K) (u_hostname original) (u_hostname (sn_url s))"
    and "jar_history (nl_uris (kl_net K)) (kl_cookies K) H (ss_cookies S)"
  shows "\<exists>u. (sn_url s = u \<or> sn_url s = u\<lparr>u_scheme := ''http''\<rparr>) \<and> stripped K (sn_headers s) u"
  using assms(1-3,5)
proof (induction left arbitrary: i st S x H)
  case 0
  then show ?case by auto
next
  case (Suc left)
  obtain y where y: "send_round K T po compression i st S = y" by simp
  have sent: ?case if "s \<in> set (ex_sent y)"
    using send_round_guarded [OF Suc.prems(1) y that assms(4) Suc.prems(4)] by blast
  show ?case
  proof (cases "\<exists>a url gzip location target. ex_result y = Inr (a, url, gzip) \<and> redirect_location a = Some location \<and>
      redirect_target K po (ex_session y) (rs_url st) location = Inr target \<and> left \<noteq> 0")
    case False
    then have "x = y \<or> (\<exists>e. x = y\<lparr>ex_result := Inl e\<rparr>)"
      using Suc.prems(2) y by (auto simp: Let_def split: sum.splits option.splits if_splits)
    then show ?thesis using sent Suc.prems(3) by auto
  next
    case True
    then obtain a url gzip location target where t: "ex_result y = Inr (a, url, gzip)" "redirect_location a = Some location"
        "redirect_target K po (ex_session y) (rs_url st) location = Inr target" "left \<noteq> 0" by blast
    obtain z where z: "execute_rounds K T po compression original referer left (i + length (ex_sent y))
        (follow_redirect K original referer target a st) (ex_session y) = z" by simp
    have x: "x = z\<lparr>ex_sent := ex_sent y @ ex_sent z\<rparr>" using Suc.prems(2) y t z by (simp add: Let_def)
    show ?thesis
    proof (cases "s \<in> set (ex_sent y)")
      case False
      then have "s \<in> set (ex_sent z)" using Suc.prems(3) x by simp
      moreover obtain H' where "jar_history (nl_uris (kl_net K)) (kl_cookies K) H' (ss_cookies (ex_session y))"
        using send_round_history [OF Suc.prems(4) y] by blast
      ultimately show ?thesis using Suc.IH [OF follow_redirect_guarded z] by blast
    qed (rule sent)
  qed
qed

text \<open>
  C10. A request that a redirect takes to a host that is neither the host first asked for nor below it
  carries none of the caller's authorization, authentication and cookie headers; a cookie header it
  may have was composed for its URL from a jar of the history of the session.
\<close>

theorem redirects_strip_secrets:
  assumes "validate_target (kl_net K) S (hr_url r) (po_allow_private po) False = Inr original"
    and "execute_stream K T po compression r S = x" "s \<in> set (ex_sent x)"
    and "\<not> forward_sensitive_headers (kl_net K) (u_hostname original) (u_hostname (sn_url s))"
    and "jar_history (nl_uris (kl_net K)) (kl_cookies K) H (ss_cookies S)"
  shows "\<exists>u. (sn_url s = u \<or> sn_url s = u\<lparr>u_scheme := ''http''\<rparr>) \<and> stripped K (sn_headers s) u"
proof -
  obtain meth m referer where x: "s \<in> set (ex_sent (execute_rounds K T po compression original referer 10 0
      \<lparr>rs_url = original, rs_method = meth, rs_body = hr_body r, rs_headers = m\<rparr> S))"
    using assms(1-3) by (auto simp: execute_stream_def Let_def split: sum.splits)
  have "guarded K original \<lparr>rs_url = original, rs_method = meth, rs_body = hr_body r, rs_headers = m\<rparr>"
    by (simp add: guarded_def forward_sensitive_headers_def)
  from execute_rounds_stripped [OF this refl x assms(4,5)] show ?thesis .
qed

section \<open>A sample redirect\<close>

definition sample_net :: "bytes net_lib" where
  "sample_net = \<lparr>nl_tables = \<lparr>to_lower = (\<lambda>c. [c]), to_upper = (\<lambda>c. [c])\<rparr>, nl_sigma = (\<lambda>_ _. False), nl_uris = sample_uris\<rparr>"

definition sample_client :: "bytes client_lib" where
  "sample_client = \<lparr>kl_net = sample_net, kl_http = \<lparr>hl_name = (\<lambda>n. Inr (map ascii_lower n)), hl_value = Inr, hl_text = Inr,
     hl_method_ok = (\<lambda>_. True), hl_debug = id\<rparr>, kl_cookies = sample_cookie_lib, kl_reason = (\<lambda>_. None), kl_gunzip = id\<rparr>"

definition sample_permissions :: permissions where
  "sample_permissions = \<lparr>pm_domains = [''a.x'', ''b.x''], pm_allow_http = False\<rparr>"

definition sample_session :: session where
  "sample_session = \<lparr>ss_permissions = Some sample_permissions, ss_native_media = False, ss_cookies = empty_jar\<rparr>"

definition sample_pool :: pool where
  "sample_pool = \<lparr>po_allow_private = False, po_allow_http_fallback = True\<rparr>"

definition sample_request :: http_request where
  "sample_request = \<lparr>hr_url = ''https://a.x/'', hr_method = [], hr_body = [], hr_headers = [(''Authorization'', ''t'')],
     hr_default_json = False, hr_user_agent = ''u''\<rparr>"

text \<open>The server of \<^verbatim>\<open>a.x\<close> sends everybody to \<^verbatim>\<open>b.x\<close>.\<close>

definition sample_transport :: "bytes transport" where
  "sample_transport = \<lparr>tr_serve = (\<lambda>_ s. Inr (if u_hostname (sn_url s) = ''a.x''
       then \<lparr>an_status = 302, an_headers = Map.empty(''location'' \<mapsto> [''https://b.x/'']), an_body = ([], None)\<rparr> else \<lparr>an_status = 200, an_headers = Map.empty, an_body = ([], None)\<rparr>)),
     tr_now = int, tr_later = int\<rparr>"

definition site :: "byte \<Rightarrow> url_parts" where
  "site c = \<lparr>u_scheme = ''https'', u_hostname = c # ''.x'', u_path = ''/'', u_raw_path = ''/'', u_raw_query = [], u_force_query = False,
     u_fragment = [], u_port = None, u_has_credentials = False, u_host = c # ''.x'', u_username = [], u_password = None, u_opaque = [],
     u_omit_host = False\<rparr>"

lemma decode_plain: "\<forall>b \<in> set s. b \<noteq> CHR ''%'' \<and> valid_host_byte b \<Longrightarrow> decode_url mode s = Some s"
  by (induction s) simp_all

lemma sample_host_bytes: "valid_host_byte CHR ''a''" "valid_host_byte CHR ''b''" "valid_host_byte CHR ''.''" "valid_host_byte CHR ''x''"
  by (simp_all add: valid_host_byte_def is_alnum_def)

lemma parse_site_authority:
  assumes "c \<in> {CHR ''a'', CHR ''b''}"
  shows "parse_authority ''https'' (c # ''.x'') =
    Some \<lparr>a_hostname = c # ''.x'', a_port = None, a_has_credentials = False, a_host = c # ''.x'', a_username = [], a_password = None\<rparr>"
proof -
  have "from_utf8_lossy (c # ''.x'') = c # ''.x''"
    using assms by (auto intro!: from_utf8_lossy_valid ascii_utf8 simp: ascii_str_def)
  moreover have d: "decode_url m (c # ''.x'') = Some (c # ''.x'')" for m
    using assms by (intro decode_plain) (auto simp: sample_host_bytes)
  ultimately have "parse_host (c # ''.x'') ''https'' = Some (c # ''.x'')"
    using assms by (auto simp: parse_host_def rposition_def)
  moreover have "rsplit_once CHR ''@'' (c # ''.x'') = None" "port_part (c # ''.x'') = Some []"
    using assms by (auto simp: rsplit_once_def port_part_def rposition_def starts_with_def)
  ultimately show ?thesis using d [of PathMode]
    by (simp only: parse_authority_def Let_def prod.case option.case) (simp add: strip_prefix_def starts_with_def)
qed

lemma parse_site:
  assumes "c \<in> {CHR ''a'', CHR ''b''}"
  shows "parse_url T sigma (''https://'' @ c # ''.x/'') = Some (site c)"
proof -
  let ?i = "''https://'' @ c # ''.x/''"
  have low: "str_lower T sigma ''https'' = ''https''" by (simp add: str_lower_ascii ascii_str_def ascii_lower_def)
  have split: "split_or_all CHR ''#'' ?i = (?i, [])" "split_or_all CHR ''?'' (''//'' @ c # ''.x/'') = (''//'' @ c # ''.x/'', [])"
    using assms by (auto simp: split_or_all_def split_once_def)
  have ctl: "\<not> list_ex (\<lambda>b. u8 b < 32 \<or> u8 b = 127) ?i" using assms by auto
  have sch: "scan_scheme 0 ?i = Inr (Some 5)" by (simp add: is_alpha_def)
  have no: "\<not> ends_with (''//'' @ c # ''.x/'') ''?''" using assms by (auto simp: ends_with_def)
  have cut: "position (\<lambda>b. b = CHR ''/'') (c # ''.x/'') = Some 3" using assms by auto
  have pieces: "drop 2 (''//'' @ c # ''.x/'') = c # ''.x/''" "take 3 (c # ''.x/'') = c # ''.x''" "drop 3 (c # ''.x/'') = ''/''"
    by simp_all
  have "parse_rest ''https'' ''https'' (''//'' @ c # ''.x/'') [] False [] = Some (site c)"
    using assms by (auto simp: parse_rest_def Let_def pieces [simplified] cut parse_site_authority [OF assms] starts_with_def site_def)
  then show ?thesis
    by (simp only: parse_url_def Let_def split ctl sch prod.case sum.case option.case)
      (simp add: low split [simplified] no [simplified] starts_with_def)
qed

lemma sample_lower:
  assumes "c \<in> {CHR ''a'', CHR ''b''}"
  shows "lower_of N (c # ''.x'') = c # ''.x''" "trim (c # ''.x'') = c # ''.x''"
proof -
  have "ascii_str (c # ''.x'')" using assms by (auto simp: ascii_str_def)
  moreover have "map ascii_lower (c # ''.x'') = c # ''.x''" using assms by (auto simp: ascii_lower_def)
  ultimately show "lower_of N (c # ''.x'') = c # ''.x''" by (simp add: str_lower_ascii)
  show "trim (c # ''.x'') = c # ''.x''"
    using \<open>ascii_str (c # ''.x'')\<close> assms by (auto simp: trim_ascii is_white_def intro!: trim_list_id)
qed

lemma sample_no_ipv4:
  assumes "c \<in> {CHR ''a'', CHR ''b''}"
  shows "read_ipv4 (c # ''.x'') = None"
proof -
  have "digit_value 10 c = None" using assms by (auto simp: digit_value_def hex_value_def)
  then have "read_number 10 3 False 255 (c # ''.x'') = None" by (simp add: read_number_def)
  then have "read_octets (Suc 3) 0 (c # ''.x'') = None" by (simp only: read_octets.simps after_separator_def option.case simp_thms if_True)
  then show ?thesis by (simp add: read_ipv4_def)
qed

lemma sample_public: "c \<in> {CHR ''a'', CHR ''b''} \<Longrightarrow> \<not> private_literal_or_local N (c # ''.x'')"
proof -
  assume c: "c \<in> {CHR ''a'', CHR ''b''}"
  have t: "trim_end_bytes (\<lambda>b. b = CHR '']'') (dropWhile (\<lambda>b. b = CHR ''['') (c # ''.x'')) = c # ''.x''"
    "hd (split_on CHR ''%'' (c # ''.x'')) = c # ''.x''"
    using c by (auto simp: trim_end_bytes_def)
  have "parse_ipv6 (c # ''.x'') = None"
  proof (cases "parse_ipv6 (c # ''.x'')")
    case (Some w)
    then have "CHR '':'' \<in> set (c # ''.x'')" by (rule parse_ipv6_colon)
    then show ?thesis using c by auto
  qed
  then have "parse_ip (c # ''.x'') = None" using sample_no_ipv4 [OF c] by (simp add: parse_ip_def)
  moreover have "\<not> ends_with (c # ''.x'') ''.local''" by (simp add: ends_with_def)
  ultimately show ?thesis
    unfolding private_literal_or_local_def Let_def sample_lower [OF c] t by simp
qed

lemma sample_allowed: "c \<in> {CHR ''a'', CHR ''b''} \<Longrightarrow> allows_domain N sample_permissions (c # ''.x'')"
  using sample_lower [of "CHR ''a''"] sample_lower [of "CHR ''b''"]
  by (auto simp: allows_domain_def sample_permissions_def Let_def)

lemma request_uri_site: "c \<in> {CHR ''a'', CHR ''b''} \<Longrightarrow> request_uri sample_uris (site c) = Inr (c # ''.x'')"
  by (auto simp: request_uri_def site_def given_port_def request_host_def sample_uris_def)

lemma validate_site:
  assumes "c \<in> {CHR ''a'', CHR ''b''}"
  shows "validate sample_net sample_permissions (''https://'' @ c # ''.x/'') False redirect = Inr (site c)"
proof -
  have n: "nl_uris sample_net = sample_uris" "ul_host sample_uris = Some" by (simp_all add: sample_net_def sample_uris_def)
  have u: "u_scheme (site c) = ''https''" "\<not> u_has_credentials (site c)" "u_hostname (site c) = c # ''.x''" by (simp_all add: site_def)
  show ?thesis unfolding validate_def parse_site [OF assms] option.case u n request_uri_site [OF assms]
    using u(2) sample_public [OF assms, of sample_net] sample_allowed [OF assms, of sample_net] by simp
qed

lemma resolve_site: "resolve_url T sigma (site CHR ''a'') ''https://b.x/'' = Some (site CHR ''b'')"
proof -
  have "escaped_path (site CHR ''b'') = ''/''" by (simp add: escaped_path_def path_ok_def site_def)
  moreover have "resolve_path ''/'' [] = ''/''"
    by (simp add: resolve_path_def full_path_def resolve_step_def starts_with_def Let_def)
  ultimately have "(site CHR ''b'')\<lparr>u_raw_path := resolve_path (escaped_path (site CHR ''b'')) []\<rparr> = site CHR ''b''"
    by (simp add: site_def)
  then show ?thesis using parse_site [of "CHR ''b''" T sigma]
    by (simp add: resolve_url_def Let_def) (simp add: site_def)
qed

lemma sample_send:
  assumes "rs_url st = site c" "c \<in> {CHR ''a'', CHR ''b''}"
  shows "send_round sample_client sample_transport sample_pool False i st sample_session =
    (let req = \<lparr>sn_url = site c, sn_uri = c # ''.x'', sn_method = rs_method st, sn_headers = rs_headers st, sn_body = rs_body st\<rparr>
     in \<lparr>ex_result = Inr (if c = CHR ''a'' then \<lparr>an_status = 302, an_headers = Map.empty(''location'' \<mapsto> [''https://b.x/'']), an_body = ([], None)\<rparr>
             else \<lparr>an_status = 200, an_headers = Map.empty, an_body = ([], None)\<rparr>, site c, False),
         ex_session = sample_session, ex_sent = [req]\<rparr>)"
proof -
  have k: "nl_uris (kl_net sample_client) = sample_uris" by (simp add: sample_client_def sample_net_def)
  have c: "cookie_header L now u empty_jar = ([], empty_jar)" for L :: "bytes uri_lib" and now u
    by (simp add: cookie_header_def selected_cookies_def empty_jar_def bt_retain_def)
  have s: "ss_native_media sample_session = False" "ss_cookies sample_session = empty_jar" "ss_permissions sample_session = Some sample_permissions"
      "sample_session\<lparr>ss_cookies := empty_jar\<rparr> = sample_session"
    by (simp_all add: sample_session_def)
  have h: "u_hostname (site c) = c # ''.x''" by (simp add: site_def)
  have n: "hm_all m ''set-cookie'' = []" if "m \<in> {Map.empty, Map.empty(''location'' \<mapsto> [''https://b.x/''])}" for m
    using that by (auto simp: hm_all_def)
  have e: "store_cookies L C now u [] jar = jar" for L :: "bytes uri_lib" and C now u jar by (simp add: store_cookies_def)
  show ?thesis unfolding send_round_def Let_def k assms(1) request_uri_site [OF assms(2)] s c
    by (simp add: with_cookies_def wants_gzip_def transmit_def sample_transport_def h s n e)
qed

lemma sample_first: "validate_target (kl_net sample_client) sample_session (hr_url sample_request) (po_allow_private sample_pool) False =
    Inr (site CHR ''a'')"
  using validate_site [of "CHR ''a''"] by (simp add: validate_target_def sample_client_def sample_session_def sample_request_def sample_pool_def)

lemma sample_redirect: "redirect_target sample_client sample_pool sample_session (site CHR ''a'') ''https://b.x/'' = Inr (site CHR ''b'')"
proof -
  have "display_url (site CHR ''b'') = ''https://b.x/''"
    by (simp add: display_url_def site_def authority_of_def escape_url_def percent_encode_def escape_ok_def is_alnum_def escaped_path_def
        path_ok_def query_text_def)
  then show ?thesis
    using validate_site [of "CHR ''b''" True] resolve_site
    by (simp add: redirect_target_def Let_def sample_client_def sample_session_def sample_pool_def validate_target_def ok_or_def)
      (simp add: site_def)
qed

definition sample_headers :: header_map where
  "sample_headers = Map.empty(''authorization'' \<mapsto> [''t''], ''user-agent'' \<mapsto> [''u''])"

lemma sample_exchange:
  "\<exists>s1 s2. ex_sent (execute_stream sample_client sample_transport sample_pool False sample_request sample_session) = [s1, s2] \<and>
     sn_headers s1 = sample_headers \<and> sn_url s1 = site CHR ''a'' \<and> sn_url s2 = site CHR ''b''"
proof -
  define st where "st = \<lparr>rs_url = site CHR ''a'', rs_method = ''GET'', rs_body = [], rs_headers = sample_headers\<rparr>"
  have low: "map ascii_lower ''Authorization'' = ''authorization''" by (simp add: ascii_lower_def char_of_def bit_iff_odd)
  have h: "request_headers_of (kl_http sample_client) sample_request = Inr sample_headers"
    unfolding request_headers_of_def sample_request_def sample_client_def
    by (simp add: low [simplified] sample_headers_def hm_insert_def hm_blank_def hm_get_def bind_res_def)
  have m: "request_method (kl_http sample_client) sample_request = Inr ''GET''"
    by (simp add: request_method_def sample_request_def sample_client_def)
  have r: "hm_get sample_headers ''referer'' = None" by (simp add: hm_get_def sample_headers_def)
  have b: "hr_body sample_request = []" by (simp add: sample_request_def)
  have start: "ex_sent (execute_stream sample_client sample_transport sample_pool False sample_request sample_session) =
      ex_sent (execute_rounds sample_client sample_transport sample_pool False (site CHR ''a'') None (Suc 9) 0 st sample_session)"
    by (simp add: execute_stream_def sample_first h m r b st_def Let_def)
  define st' where "st' = follow_redirect sample_client (site CHR ''a'') None (site CHR ''b'')
      \<lparr>an_status = 302, an_headers = Map.empty(''location'' \<mapsto> [''https://b.x/'']), an_body = ([], None)\<rparr> st"
  have loc: "redirect_location \<lparr>an_status = 302, an_headers = Map.empty(''location'' \<mapsto> [''https://b.x/'']), an_body = ([], None)\<rparr> = Some ''https://b.x/''"
      "redirect_location \<lparr>an_status = 200, an_headers = Map.empty, an_body = ([], None)\<rparr> = None"
    by (simp_all add: redirect_location_def hm_get_def)
  note one = sample_send [of st "CHR ''a''"] and two = sample_send [of st' "CHR ''b''"]
  have u: "rs_url st = site CHR ''a''" "rs_url st' = site CHR ''b''" by (simp_all add: st_def st'_def)
  have last: "\<exists>s2. ex_sent (execute_rounds sample_client sample_transport sample_pool False (site CHR ''a'') None (Suc 8) 1 st' sample_session) = [s2] \<and>
      sn_url s2 = site CHR ''b''"
    unfolding execute_rounds.simps Let_def two [OF u(2), simplified] by (simp add: loc)
  then obtain s2 where s2: "ex_sent (execute_rounds sample_client sample_transport sample_pool False (site CHR ''a'') None (Suc 8) 1 st' sample_session) = [s2]"
      "sn_url s2 = site CHR ''b''" by blast
  have nine: "Suc 8 = (9::nat)" by simp
  have "\<exists>s1. ex_sent (execute_rounds sample_client sample_transport sample_pool False (site CHR ''a'') None (Suc 9) 0 st sample_session) = [s1, s2] \<and>
      sn_headers s1 = sample_headers \<and> sn_url s1 = site CHR ''a''"
    unfolding execute_rounds.simps(2) [of _ _ _ _ _ _ 9] Let_def one [OF u(1), simplified]
    using s2(1) [unfolded nine] by (simp add: loc u sample_redirect st'_def [symmetric] del: execute_rounds.simps) (simp add: st_def)
  then show ?thesis using start s2(2) by auto
qed

lemma sample_authority: "authority_decides (nl_uris (kl_net sample_client))"
  by (simp add: authority_decides_def sample_client_def sample_net_def sample_uris_def)

theorem requests_stay_allowed_witness:
  "\<exists>s \<in> set (ex_sent (execute_stream sample_client sample_transport sample_pool False sample_request sample_session)).
     allowed_sent sample_net sample_permissions False s \<and> u_hostname (sn_url s) = ''b.x''"
proof -
  have "ss_permissions sample_session = Some sample_permissions" "kl_net sample_client = sample_net" "po_allow_private sample_pool = False"
    by (simp_all add: sample_session_def sample_client_def sample_pool_def)
  then show ?thesis
    using sample_exchange requests_stay_allowed [OF _ sample_authority refl, of sample_session sample_permissions sample_transport sample_pool False sample_request]
    by (auto simp: site_def)
qed

theorem redirects_strip_secrets_witness:
  "\<exists>s1 s2. ex_sent (execute_stream sample_client sample_transport sample_pool False sample_request sample_session) = [s1, s2] \<and>
     sn_headers s1 ''authorization'' = Some [''t''] \<and> sn_headers s2 ''authorization'' = None"
proof -
  obtain s1 s2 where s: "ex_sent (execute_stream sample_client sample_transport sample_pool False sample_request sample_session) = [s1, s2]"
      "sn_headers s1 = sample_headers" "sn_url s2 = site CHR ''b''" using sample_exchange by blast
  have k: "kl_net sample_client = sample_net" by (simp add: sample_client_def)
  have "\<not> forward_sensitive_headers (kl_net sample_client) (u_hostname (site CHR ''a'')) (u_hostname (sn_url s2))"
    using sample_lower(1) [where c = "CHR ''a''" and N = sample_net] sample_lower(1) [where c = "CHR ''b''" and N = sample_net]
    by (simp add: k s forward_sensitive_headers_def Let_def site_def ends_with_def)
  then obtain u where "stripped sample_client (sn_headers s2) u"
    using redirects_strip_secrets [OF sample_first refl, of s2 sample_transport False "{}"] s(1) jar_history.fresh
    by (auto simp: sample_session_def)
  then have "sn_headers s2 ''authorization'' = None" by (auto simp: stripped_def sensitive_headers_def)
  then show ?thesis using s by (simp add: sample_headers_def)
qed



end
