(* ===== verification/Dns.thy ===== *)
theory Dns
  imports Policy BTree
begin

text \<open>
  Names of hosts (rust\_backend/crates/network/src/dns.rs): the lookup of the platform, the fallback to
  DNS over HTTPS with its cache, and the filter for private addresses.  The lookup, the transport of a
  query and the codec of the messages are parameters; time is a number of nanoseconds.
\<close>

section \<open>One query\<close>

datatype record_type = RecordA | RecordAAAA

datatype rdata = DataA "32 word" | DataAAAA "128 word" | OtherData

record dns_message =
  dm_no_error :: bool
  dm_is_response :: bool
  dm_answers :: "(rdata \<times> nat) list"

text \<open>
  \<open>dl_question\<close> is the bytes of a query for a name, \<open>dl_message\<close> the message that bytes hold; an
  answer of an upstream is whether its status is a success, its body and the error that cut it off.
\<close>

record dns_lib =
  dl_question :: "bytes \<Rightarrow> record_type \<Rightarrow> bytes res"
  dl_message :: "bytes \<Rightarrow> dns_message res"

type_synonym doh_answer = "bool \<times> bytes \<times> bytes option"

fun address_of :: "rdata \<Rightarrow> ip_addr option" where
  "address_of (DataA a) = Some (V4 a)"
| "address_of (DataAAAA a) = Some (V6 a)"
| "address_of OtherData = None"

definition read_answers :: "(rdata \<times> nat) list \<Rightarrow> ip_addr list \<times> nat" where
  "read_answers rs = fold (\<lambda>(d, t) (addresses, ttl). case address_of d of
     Some a \<Rightarrow> (addresses @ [a], min ttl t) | None \<Rightarrow> (addresses, ttl)) rs ([], 2 ^ 32 - 1)"

definition dns_query :: "dns_lib \<Rightarrow> (bytes \<Rightarrow> doh_answer res) \<Rightarrow> bytes \<Rightarrow> record_type \<Rightarrow> (ip_addr list \<times> nat) res" where
  "dns_query D upstream host kind =
     bind_res (dl_question D host kind) (\<lambda>question.
     bind_res (upstream question) (\<lambda>(success, data, broken).
       if \<not> success then Inl ''DoH HTTP failure''
       else if 65536 < length data then Inl ''length limit exceeded''
       else case broken of Some e \<Rightarrow> Inl e | None \<Rightarrow>
         bind_res (dl_message D data) (\<lambda>m.
           if \<not> dm_no_error m \<or> \<not> dm_is_response m then Inl ''DoH DNS failure''
           else Inr (read_answers (dm_answers m)))))"

section \<open>The upstreams\<close>

text \<open>\<open>trim_matches\<close> with the brackets.\<close>

definition trim_brackets :: "bytes \<Rightarrow> bytes" where
  "trim_brackets = trim_list (\<lambda>b. b \<in> {CHR ''['', CHR '']''})"

text \<open>\<open>parse\<close> gives the scheme and the host of a URI.\<close>

definition upstream_ok :: "(bytes \<Rightarrow> (bytes option \<times> bytes option) res) \<Rightarrow> bytes \<Rightarrow> bytes res" where
  "upstream_ok parse url =
     bind_res (parse url) (\<lambda>(scheme, host).
       if scheme \<noteq> Some ''https'' \<or> Option.bind host (\<lambda>h. parse_ip (trim_brackets h)) = None
       then Inl ''DoH upstream must use HTTPS and an IP literal'' else Inr url)"

fun new_upstreams :: "(bytes \<Rightarrow> (bytes option \<times> bytes option) res) \<Rightarrow> bytes list \<Rightarrow> bytes list res" where
  "new_upstreams parse [] = Inr []"
| "new_upstreams parse (u # us) =
     bind_res (upstream_ok parse u) (\<lambda>v. bind_res (new_upstreams parse us) (\<lambda>vs. Inr (v # vs)))"

text \<open>\<open>net n u\<close> is the answer of the upstream \<open>u\<close> to the request of number \<open>n\<close>.\<close>

type_synonym doh_net = "nat \<Rightarrow> bytes \<Rightarrow> bytes \<Rightarrow> doh_answer res"

fun ask_upstreams :: "dns_lib \<Rightarrow> doh_net \<Rightarrow> nat \<Rightarrow> bytes \<Rightarrow> bytes list \<Rightarrow> (ip_addr list \<times> nat) res \<Rightarrow> (ip_addr list \<times> nat) res" where
  "ask_upstreams D net n host [] result = result"
| "ask_upstreams D net n host (u # us) result =
     (let r = dns_query D (net n u) host RecordA;
          r' = (case r of Inr ([], _) \<Rightarrow> dns_query D (net (n + 1) u) host RecordAAAA | _ \<Rightarrow> r)
      in case r' of Inr (_ # _, _) \<Rightarrow> r' | _ \<Rightarrow> ask_upstreams D net (n + 2) host us r')"

section \<open>The cache\<close>

record dns_entry =
  de_addresses :: "ip_addr list"
  de_expires :: int

type_synonym dns_cache = "(bytes, dns_entry) btree"

definition seconds :: "nat \<Rightarrow> int" where
  "seconds n = int n * 10 ^ 9"

definition cache_hit :: "int \<Rightarrow> bytes \<Rightarrow> dns_cache \<Rightarrow> ip_addr list res option" where
  "cache_hit now key c =
     (case bt_get c key of
        None \<Rightarrow> None
      | Some e \<Rightarrow>
          if now < de_expires e then
            Some (if de_addresses e = [] then Inl ''cached DNS lookup failure'' else Inr (de_addresses e))
          else None)"

definition cached_answer :: "(ip_addr list \<times> nat) res \<Rightarrow> ip_addr list \<times> nat" where
  "cached_answer result =
     (case result of Inr (a # as, ttl) \<Rightarrow> (a # as, max 60 (min ttl 1800)) | _ \<Rightarrow> ([], 30))"

text \<open>The clock is read once more for every entry that may have expired.\<close>

definition cache_put :: "(bytes \<Rightarrow> int) \<Rightarrow> int \<Rightarrow> bytes \<Rightarrow> ip_addr list \<times> nat \<Rightarrow> dns_cache \<Rightarrow> dns_cache" where
  "cache_put clock now key = (\<lambda>(addresses, ttl) c.
     let c1 = (if 256 \<le> length c then bt_retain (\<lambda>k e. clock k < de_expires e) c else c);
         c2 = (if 256 \<le> length c \<and> 256 \<le> length c1 then [] else c1)
     in bt_insert key \<lparr>de_addresses = addresses, de_expires = now + seconds ttl\<rparr> c2)"

text \<open>
  The lock is not held while the upstreams are asked, so the cache that is written may be another one
  than the cache that was read; \<open>c\<close> is the former, \<open>c'\<close> the latter.
\<close>

record dns_clock =
  dc_read :: int
  dc_retain :: "bytes \<Rightarrow> int"
  dc_write :: int

definition fallback :: "'u net_lib \<Rightarrow> dns_lib \<Rightarrow> doh_net \<Rightarrow> dns_clock \<Rightarrow> bytes list \<Rightarrow> bytes \<Rightarrow> dns_cache \<Rightarrow> dns_cache \<Rightarrow>
    ip_addr list res \<times> dns_cache" where
  "fallback N D net clock upstreams host c c' =
     (let key = lower_of N host
      in case cache_hit (dc_read clock) key c of
           Some r \<Rightarrow> (r, c')
         | None \<Rightarrow>
             (let answer = cached_answer (ask_upstreams D net 0 host upstreams (Inl ''DNS-over-HTTPS lookup failed''))
              in (if fst answer = [] then Inl ''DNS-over-HTTPS returned no addresses'' else Inr (fst answer),
                  cache_put (dc_retain clock) (dc_write clock) key answer c')))"

definition resolve_name :: "'u net_lib \<Rightarrow> dns_lib \<Rightarrow> (bytes \<Rightarrow> ip_addr list res) \<Rightarrow> doh_net \<Rightarrow> dns_clock \<Rightarrow> bytes list \<Rightarrow>
    bytes \<Rightarrow> bool \<Rightarrow> dns_cache \<Rightarrow> dns_cache \<Rightarrow> ip_addr list res \<times> dns_cache" where
  "resolve_name N D lookup net clock upstreams host allow_private c c' =
     (let (found, c'') = (case lookup host of
            Inr addresses \<Rightarrow> (Inr addresses, c')
          | Inl original \<Rightarrow>
              if upstreams = [] then (Inl original, c') else fallback N D net clock upstreams host c c')
      in (bind_res found (\<lambda>addresses.
            let permitted = filter (\<lambda>a. allow_private \<or> \<not> is_private_ip a) addresses
            in if permitted = [] then Inl (''network access denied: no permitted DNS addresses for '' @ quoted host)
               else Inr permitted), c''))"

definition has_private_address :: "(bytes \<Rightarrow> ip_addr list res) \<Rightarrow> bytes \<Rightarrow> bool" where
  "has_private_address lookup host = (case lookup host of Inl _ \<Rightarrow> False | Inr addresses \<Rightarrow> list_ex is_private_ip addresses)"

section \<open>Where addresses come from\<close>

text \<open>An upstream said, in a good answer to a query for the host, that these are its addresses.\<close>

definition told :: "dns_lib \<Rightarrow> bytes list \<Rightarrow> doh_net \<Rightarrow> bytes \<Rightarrow> ip_addr list \<Rightarrow> nat \<Rightarrow> bool" where
  "told D upstreams net host addresses ttl \<longleftrightarrow>
     (\<exists>u \<in> set upstreams. \<exists>n kind question data m.
        dl_question D host kind = Inr question \<and> net n u question = Inr (True, data, None) \<and> length data \<le> 65536 \<and>
        dl_message D data = Inr m \<and> dm_no_error m \<and> dm_is_response m \<and>
        addresses = List.map_filter (\<lambda>(d, _). address_of d) (dm_answers m) \<and>
        (\<forall>(d, t) \<in> set (dm_answers m). address_of d \<noteq> None \<longrightarrow> ttl \<le> t))"

text \<open>The calls that wrote to the cache, with the times of the writing.\<close>

inductive dns_history :: "'u net_lib \<Rightarrow> dns_lib \<Rightarrow> bytes list \<Rightarrow> (int \<times> bytes \<times> doh_net) set \<Rightarrow> dns_cache \<Rightarrow> bool"
  for N D upstreams where
  unused: "dns_history N D upstreams {} []"
| asked: "dns_history N D upstreams H c \<Longrightarrow>
    dns_history N D upstreams (insert (now, host, net) H)
      (cache_put clock now (lower_of N host) (cached_answer (ask_upstreams D net 0 host upstreams (Inl ''DNS-over-HTTPS lookup failed''))) c)"

lemma read_answers_spec:
  "fold (\<lambda>(d, t) (addresses, ttl). case address_of d of Some a \<Rightarrow> (addresses @ [a], min ttl t) | None \<Rightarrow> (addresses, ttl)) rs (as0, ttl0 :: nat) =
     (as, ttl) \<Longrightarrow>
   as = as0 @ List.map_filter (\<lambda>(d, _). address_of d) rs \<and> ttl \<le> ttl0 \<and> (\<forall>(d, t) \<in> set rs. address_of d \<noteq> None \<longrightarrow> ttl \<le> t)"
proof (induction rs arbitrary: as0 ttl0)
  case Nil
  then show ?case by (simp add: map_filter_simps)
next
  case (Cons r rs)
  obtain d t where r: "r = (d, t)" by fastforce
  show ?case
  proof (cases "address_of d")
    case None
    then show ?thesis using Cons.IH [of as0 ttl0] Cons.prems r by (simp add: map_filter_simps)
  next
    case (Some a)
    then show ?thesis using Cons.IH [of "as0 @ [a]" "min ttl0 t"] Cons.prems r by (auto simp: map_filter_simps)
  qed
qed

lemma dns_query_told:
  assumes "dns_query D (net n u) host kind = Inr (as, ttl)" "u \<in> set upstreams"
  shows "told D upstreams net host as ttl"
proof -
  obtain question data m where m: "dl_question D host kind = Inr question" "net n u question = Inr (True, data, None)"
      "length data \<le> 65536" "dl_message D data = Inr m" "dm_no_error m" "dm_is_response m" "read_answers (dm_answers m) = (as, ttl)"
    using assms(1) by (auto simp: dns_query_def bind_res_Inr split: if_splits option.splits)
  from read_answers_spec [OF m(7) [unfolded read_answers_def]]
  have "as = List.map_filter (\<lambda>(d, _). address_of d) (dm_answers m)" "\<forall>(d, t) \<in> set (dm_answers m). address_of d \<noteq> None \<longrightarrow> ttl \<le> t"
    by simp_all
  then show ?thesis using m assms(2) unfolding told_def by blast
qed

lemma told_more: "told D us net host as ttl \<Longrightarrow> set us \<subseteq> set us' \<Longrightarrow> told D us' net host as ttl"
  unfolding told_def by blast

lemma ask_upstreams_told:
  assumes "ask_upstreams D net n host us r = Inr (as, ttl)" "as \<noteq> []" "\<And>as ttl. r = Inr (as, ttl) \<Longrightarrow> as = []"
  shows "told D us net host as ttl"
  using assms
proof (induction us arbitrary: n r)
  case Nil
  then show ?case by simp
next
  case (Cons u us)
  define q where "q = dns_query D (net n u) host RecordA"
  define q' where "q' = (case q of Inr ([], _) \<Rightarrow> dns_query D (net (n + 1) u) host RecordAAAA | _ \<Rightarrow> q)"
  have q': "told D (u # us) net host as ttl" if "q' = Inr (as, ttl)" for as ttl
  proof (cases "\<exists>t. q = Inr ([], t)")
    case True
    then have "dns_query D (net (n + 1) u) host RecordAAAA = Inr (as, ttl)" using that by (auto simp: q'_def)
    then show ?thesis by (rule dns_query_told) simp
  next
    case False
    then have "q' = q" by (auto simp: q'_def split: sum.split list.split prod.split)
    then have "dns_query D (net n u) host RecordA = Inr (as, ttl)" using that by (simp add: q_def)
    then show ?thesis by (rule dns_query_told) simp
  qed
  have step: "ask_upstreams D net n host (u # us) r = (case q' of Inr (_ # _, _) \<Rightarrow> q' | _ \<Rightarrow> ask_upstreams D net (n + 2) host us q')"
    by (simp only: ask_upstreams.simps Let_def q_def q'_def)
  show ?case
  proof (cases "\<exists>b bs t. q' = Inr (b # bs, t)")
    case True
    then have "q' = Inr (as, ttl)" using Cons.prems(1) by (auto simp only: step sum.case prod.case list.case)
    then show ?thesis by (rule q')
  next
    case False
    then have "ask_upstreams D net (n + 2) host us q' = Inr (as, ttl)"
      using Cons.prems(1) unfolding step by (auto split: sum.splits list.splits)
    moreover have "\<And>as ttl. q' = Inr (as, ttl) \<Longrightarrow> as = []" using False by (metis neq_Nil_conv)
    ultimately have "told D us net host as ttl" by (rule Cons.IH [OF _ Cons.prems(2)])
    then show ?thesis by (rule told_more) auto
  qed
qed

lemma cached_answer_told:
  assumes "cached_answer (ask_upstreams D net 0 host us (Inl e)) = (as, ttl)" "as \<noteq> []"
  shows "\<exists>t. told D us net host as t \<and> ttl = max 60 (min t 1800)"
proof -
  obtain t where "ask_upstreams D net 0 host us (Inl e) = Inr (as, t)" "ttl = max 60 (min t 1800)"
    using assms by (auto simp: cached_answer_def split: sum.splits list.splits prod.splits)
  then show ?thesis using ask_upstreams_told assms(2) by blast
qed

definition dns_ok :: "'u net_lib \<Rightarrow> dns_lib \<Rightarrow> bytes list \<Rightarrow> (int \<times> bytes \<times> doh_net) set \<Rightarrow> dns_cache \<Rightarrow> bool" where
  "dns_ok N D upstreams H c \<longleftrightarrow> bt_ok c \<and> length c \<le> 256 \<and>
     (\<forall>(k, e) \<in> set c. \<exists>(t, host, net) \<in> H. k = lower_of N host \<and>
        (de_addresses e \<noteq> [] \<longrightarrow> (\<exists>ttl. told D upstreams net host (de_addresses e) ttl \<and>
           de_expires e = t + seconds (max 60 (min ttl 1800)))))"

lemma set_bt_insert_subset: "set (bt_insert k v m) \<subseteq> insert (k, v) (set m)"
  by (induction k v m rule: bt_insert.induct) auto

lemma bt_insert_length: "length (bt_insert k v m) \<le> Suc (length m)"
  by (induction k v m rule: bt_insert.induct) auto

lemma cache_put_frame:
  assumes "bt_ok c" "length c \<le> 256"
  shows "bt_ok (cache_put clock now key a c) \<and> length (cache_put clock now key a c) \<le> 256 \<and>
    set (cache_put clock now key a c) \<subseteq> insert (key, \<lparr>de_addresses = fst a, de_expires = now + seconds (snd a)\<rparr>) (set c)"
proof -
  obtain as ttl where a: "a = (as, ttl)" by fastforce
  define c1 where "c1 = (if 256 \<le> length c then bt_retain (\<lambda>k e. clock k < de_expires e) c else c)"
  define c2 where "c2 = (if 256 \<le> length c \<and> 256 \<le> length c1 then [] else c1)"
  have c: "bt_ok c2" "length c2 \<le> 255" "set c2 \<subseteq> set c"
    using assms by (auto simp: c1_def c2_def bt_ok_filter bt_retain_def)
  show ?thesis unfolding a cache_put_def Let_def prod.case c1_def [symmetric] c2_def [symmetric]
    using bt_ok_insert [OF c(1)] set_bt_insert_subset [of key _ c2] bt_insert_length [of key _ c2] c(2,3)
    by (fastforce intro: order_trans)
qed

lemma dns_history_ok: "dns_history N D upstreams H c \<Longrightarrow> dns_ok N D upstreams H c"
proof (induction rule: dns_history.induct)
  case unused
  then show ?case by (simp add: dns_ok_def)
next
  case (asked H c now host net clock)
  define a where "a = cached_answer (ask_upstreams D net 0 host upstreams (Inl ''DNS-over-HTTPS lookup failed''))"
  have ok: "bt_ok c" "length c \<le> 256" using asked.IH by (simp_all add: dns_ok_def)
  note f = cache_put_frame [OF ok, of clock now "lower_of N host" a]
  have new: "fst a \<noteq> [] \<Longrightarrow> \<exists>t. told D upstreams net host (fst a) t \<and> snd a = max 60 (min t 1800)"
    using cached_answer_told [of D net host upstreams _ "fst a" "snd a"] by (simp add: a_def)
  have "\<exists>(t, host', net') \<in> insert (now, host, net) H. k = lower_of N host' \<and>
      (de_addresses e \<noteq> [] \<longrightarrow> (\<exists>ttl. told D upstreams net' host' (de_addresses e) ttl \<and>
         de_expires e = t + seconds (max 60 (min ttl 1800))))"
    if "(k, e) \<in> set (cache_put clock now (lower_of N host) a c)" for k e
  proof (cases "(k, e) \<in> set c")
    case True
    then show ?thesis using asked.IH unfolding dns_ok_def by blast
  next
    case False
    then have "k = lower_of N host" "e = \<lparr>de_addresses = fst a, de_expires = now + seconds (snd a)\<rparr>" using f that by blast+
    then have "de_addresses e = fst a" "de_expires e = now + seconds (snd a)" "k = lower_of N host" by simp_all
    then have "de_addresses e \<noteq> [] \<longrightarrow> (\<exists>ttl. told D upstreams net host (de_addresses e) ttl \<and>
        de_expires e = now + seconds (max 60 (min ttl 1800)))" "k = lower_of N host"
      using new by metis+
    then show ?thesis by blast
  qed
  then show ?case using f unfolding dns_ok_def a_def [symmetric] by blast
qed

lemma resolve_name_history:
  assumes "dns_history N D upstreams H' c'" "resolve_name N D lookup net clock upstreams host allow c c' = (r, c'')"
  shows "c'' = c' \<or> dns_history N D upstreams (insert (dc_write clock, host, net) H') c''"
  using assms(2) dns_history.asked [OF assms(1), of "dc_write clock" host net "dc_retain clock"]
  by (auto simp: resolve_name_def fallback_def Let_def split: sum.splits option.splits if_splits)

lemma fallback_told:
  assumes "dns_ok N D upstreams H c" "fallback N D net clock upstreams host c c' = (Inr as, c'')"
  shows "as \<noteq> [] \<and> (\<exists>ttl. told D upstreams net host as ttl \<or>
    (\<exists>(t, host', net') \<in> H. lower_of N host' = lower_of N host \<and> told D upstreams net' host' as ttl \<and>
       dc_read clock < t + seconds (max 60 (min ttl 1800))))"
proof (cases "cache_hit (dc_read clock) (lower_of N host) c")
  case None
  then obtain ttl where "cached_answer (ask_upstreams D net 0 host upstreams (Inl ''DNS-over-HTTPS lookup failed'')) = (as, ttl)" "as \<noteq> []"
    using assms(2) by (auto simp: fallback_def Let_def split: if_splits intro: prod.collapse [symmetric])
  then show ?thesis using cached_answer_told by blast
next
  case (Some r)
  then have "cache_hit (dc_read clock) (lower_of N host) c = Some (Inr as)" using assms(2) by (simp add: fallback_def Let_def)
  then obtain e where e: "bt_get c (lower_of N host) = Some e" "dc_read clock < de_expires e" "de_addresses e = as" "as \<noteq> []"
    by (auto simp: cache_hit_def split: option.splits if_splits)
  then have "(lower_of N host, e) \<in> set c" by (simp add: map_of_SomeD)
  then obtain t host' net' ttl where "(t, host', net') \<in> H" "lower_of N host = lower_of N host'" "told D upstreams net' host' as ttl"
      "de_expires e = t + seconds (max 60 (min ttl 1800))"
    using assms(1) e(3,4) unfolding dns_ok_def by blast
  then show ?thesis using e(2,4) by (metis (mono_tags, lifting) case_prodI)
qed

text \<open>
  C39. Whatever the other calls wrote to the cache in between, the addresses a name resolves to are,
  unless private networks are allowed, none of them private; they are what the lookup of the platform
  gave or, if that failed, what an upstream answered for the name, now or in a call whose answer has
  not expired: after its shortest time to live, taken between one minute and half an hour.  The cache
  never holds more than 256 names.
\<close>

theorem resolved_addresses_are_permitted:
  assumes "dns_history N D upstreams H c" "dns_history N D upstreams H' c'"
    and "resolve_name N D lookup net clock upstreams host allow_private c c' = (Inr addresses, c'')"
  shows "addresses \<noteq> [] \<and> (\<not> allow_private \<longrightarrow> (\<forall>a \<in> set addresses. \<not> is_private_ip a)) \<and> length c'' \<le> 256 \<and>
    (\<exists>found. addresses = filter (\<lambda>a. allow_private \<or> \<not> is_private_ip a) found \<and>
       (lookup host = Inr found \<or>
        (\<exists>e ttl. lookup host = Inl e \<and>
          (told D upstreams net host found ttl \<or>
           (\<exists>(t, host', net') \<in> H. lower_of N host' = lower_of N host \<and> told D upstreams net' host' found ttl \<and>
              dc_read clock < t + seconds (max 60 (min ttl 1800)))))))"
proof -
  have "length c'' \<le> 256"
    using resolve_name_history [OF assms(2,3)] dns_history_ok assms(2) unfolding dns_ok_def by blast
  moreover obtain found where f: "addresses = filter (\<lambda>a. allow_private \<or> \<not> is_private_ip a) found" "addresses \<noteq> []"
      "lookup host = Inr found \<or> (\<exists>e c''. lookup host = Inl e \<and> fallback N D net clock upstreams host c c' = (Inr found, c''))"
    using assms(3) by (auto simp: resolve_name_def bind_res_Inr Let_def split: sum.splits prod.splits if_splits)
  moreover have "\<forall>a \<in> set addresses. \<not> is_private_ip a" if "\<not> allow_private" using that f(1) by simp
  moreover have "\<exists>ttl. told D upstreams net host found ttl \<or>
      (\<exists>(t, host', net') \<in> H. lower_of N host' = lower_of N host \<and> told D upstreams net' host' found ttl \<and>
        dc_read clock < t + seconds (max 60 (min ttl 1800)))" if "lookup host = Inl e" for e
    using that f(3) fallback_told [OF dns_history_ok [OF assms(1)]] by fastforce
  ultimately show ?thesis by blast
qed

text \<open>A cached answer with a public and a private address, whose time to live is shorter than a minute.\<close>

definition sample_names :: "unit net_lib" where
  "sample_names = \<lparr>nl_tables = \<lparr>to_lower = (\<lambda>c. [c]), to_upper = (\<lambda>c. [c])\<rparr>, nl_sigma = (\<lambda>_ _. False),
     nl_uris = \<lparr>ul_domain = Inr, ul_build = (\<lambda>_ _ _. Inr ()), ul_host = (\<lambda>_. None)\<rparr>\<rparr>"

definition sample_dns :: dns_lib where
  "sample_dns = \<lparr>dl_question = (\<lambda>h _. Inr h), dl_message = (\<lambda>_. Inr \<lparr>dm_no_error = True, dm_is_response = True,
     dm_answers = [(DataA 0x01020304, 5), (OtherData, 1), (DataA 0x0A000001, 9)]\<rparr>)\<rparr>"

definition sample_doh :: doh_net where
  "sample_doh = (\<lambda>_ _ _. Inr (True, [], None))"

definition sample_cache :: dns_cache where
  "sample_cache = cache_put (\<lambda>_. 0) 0 (lower_of sample_names ''h'')
     (cached_answer (ask_upstreams sample_dns sample_doh 0 ''h'' [''u''] (Inl ''DNS-over-HTTPS lookup failed''))) []"

lemma sample_cache_eq:
  "sample_cache = [(lower_of sample_names ''h'', \<lparr>de_addresses = [V4 0x01020304, V4 0x0A000001], de_expires = seconds 60\<rparr>)]"
  by (simp add: sample_cache_def cache_put_def cached_answer_def sample_dns_def sample_doh_def dns_query_def read_answers_def)

theorem resolved_addresses_are_permitted_witness:
  "resolve_name sample_names sample_dns (\<lambda>_. Inl ''offline'') (\<lambda>_ _ _. Inl ''offline'') \<lparr>dc_read = seconds 59, dc_retain = (\<lambda>_. 0), dc_write = 0\<rparr>
     [''u''] ''h'' False sample_cache [] = (Inr [V4 0x01020304], []) \<and> \<not> is_private_ip (V4 0x01020304)"
proof -
  have r: "resolve_name sample_names sample_dns (\<lambda>_. Inl ''offline'') (\<lambda>_ _ _. Inl ''offline'') \<lparr>dc_read = seconds 59, dc_retain = (\<lambda>_. 0), dc_write = 0\<rparr>
     [''u''] ''h'' False sample_cache [] = (Inr [V4 0x01020304], [])"
    by (simp add: resolve_name_def fallback_def cache_hit_def sample_cache_eq seconds_def private_v4_def octet_def)
  have h: "dns_history sample_names sample_dns [''u''] {(0, ''h'', sample_doh)} sample_cache"
    unfolding sample_cache_def by (rule dns_history.asked [OF dns_history.unused])
  show ?thesis using r resolved_addresses_are_permitted [OF h dns_history.unused r] by simp
qed

end
