(* ===== verification/Streams.thy ===== *)
theory Streams
  imports Prelude "HOL-Library.Word"
begin

text \<open>
  The network service and its response streams (rust\_backend/crates/network/src/client.rs): the policy
  with its generation, the loop that waits for an operation, and the reads of a stream.  Times are
  numbers of nanoseconds.
\<close>

section \<open>The service\<close>

record service =
  sv_allow_private :: bool
  sv_http_fallback :: bool
  sv_generation :: "64 word"

definition new_service :: service where
  "new_service = \<lparr>sv_allow_private = False, sv_http_fallback = False, sv_generation = 0\<rparr>"

definition set_allow_private_network :: "bool \<Rightarrow> service \<Rightarrow> service" where
  "set_allow_private_network allow s =
     (if sv_allow_private s = allow then s
      else s\<lparr>sv_allow_private := allow, sv_generation := sv_generation s + 1\<rparr>)"

definition set_network_compatibility_options :: "bool \<Rightarrow> service \<Rightarrow> service" where
  "set_network_compatibility_options allow_http s =
     (if sv_http_fallback s = allow_http then s else s\<lparr>sv_http_fallback := allow_http\<rparr>)"

section \<open>Waiting for an operation\<close>

text \<open>
  A round of the loop sees the result of the caller's check and the generation, then it is woken up,
  the time is over, or the operation is done and the check is asked once more.
\<close>

datatype 'a outcome = Woken | TimedOut | Finished "'a res" "unit res"

type_synonym 'a run_round = "unit res \<times> 64 word \<times> 'a outcome"

fun run_rounds :: "64 word \<Rightarrow> 'a run_round list \<Rightarrow> 'a res option" where
  "run_rounds generation [] = None"
| "run_rounds generation ((check, current, event) # rounds) =
     (case check of Inl e \<Rightarrow> Some (Inl e) | Inr _ \<Rightarrow>
        if current \<noteq> generation then Some (Inl ''network policy changed'')
        else case event of
            Woken \<Rightarrow> run_rounds generation rounds
          | TimedOut \<Rightarrow> Some (Inl ''HTTP request timeout exceeded'')
          | Finished r after \<Rightarrow> Some (case after of Inl e \<Rightarrow> Inl e | Inr _ \<Rightarrow> r))"

definition run_blocking :: "64 word \<Rightarrow> unit res \<Rightarrow> bool \<Rightarrow> 'a run_round list \<Rightarrow> 'a res option" where
  "run_blocking generation check in_executor rounds =
     (case check of Inl e \<Rightarrow> Some (Inl e) | Inr _ \<Rightarrow>
        if in_executor then Some (Inl ''blocking HTTP host called from async executor'')
        else run_rounds generation rounds)"

section \<open>Streams\<close>

record http_stream =
  hs_open :: bool
  hs_generation :: "64 word"
  hs_started :: int
  hs_last_progress :: int
  hs_timeout :: int
  hs_stall_timeout :: int
  hs_failure :: "bytes option"

definition new_stream :: "service \<Rightarrow> int \<Rightarrow> int \<Rightarrow> int \<Rightarrow> http_stream" where
  "new_stream s now timeout stall_timeout =
     \<lparr>hs_open = True, hs_generation = sv_generation s, hs_started = now, hs_last_progress = now,
      hs_timeout = timeout, hs_stall_timeout = stall_timeout, hs_failure = None\<rparr>"

definition stall_message :: "(nat \<Rightarrow> bytes) \<Rightarrow> http_stream \<Rightarrow> bytes" where
  "stall_message dec s =
     ''download stalled: no data received for '' @ dec (nat (hs_stall_timeout s div 10 ^ 9)) @ ''s (network timeout)''"

text \<open>The circumstances of a read: the check, the generation, the clock, and what \<open>run\<close> gives for a size and a time.\<close>

record reading =
  rd_check :: "unit res"
  rd_generation :: "64 word"
  rd_elapsed :: int
  rd_idle :: int
  rd_after :: int
  rd_run :: "nat \<Rightarrow> int \<Rightarrow> bytes res"

definition try_read :: "(nat \<Rightarrow> bytes) \<Rightarrow> reading \<Rightarrow> nat \<Rightarrow> http_stream \<Rightarrow> bytes res \<times> http_stream" where
  "try_read dec R n s =
     (case rd_check R of Inl e \<Rightarrow> (Inl e, s) | Inr _ \<Rightarrow>
        if rd_generation R \<noteq> hs_generation s then (Inl ''network policy changed'', s)
        else if \<not> hs_open s \<or> n = 0 then (Inr [], s)
        else
          (let overall = max 0 (hs_timeout s - max 0 (rd_elapsed R - hs_started s));
               idle = max 0 (hs_stall_timeout s - max 0 (rd_idle R - hs_last_progress s))
           in if overall = 0 then (Inl ''HTTP request timeout exceeded'', s)
              else if idle = 0 then (Inl (stall_message dec s), s)
              else case rd_run R (min n 65536) (min overall idle) of
                  Inl e \<Rightarrow>
                    (Inl (if e = ''HTTP request timeout exceeded'' \<and> idle \<le> overall then stall_message dec s else e), s)
                | Inr data \<Rightarrow> (Inr data, if data = [] then s else s\<lparr>hs_last_progress := rd_after R\<rparr>)))"

definition read_stream :: "(nat \<Rightarrow> bytes) \<Rightarrow> reading \<Rightarrow> nat \<Rightarrow> http_stream \<Rightarrow> bytes res \<times> http_stream" where
  "read_stream dec R n s =
     (case hs_failure s of
        Some e \<Rightarrow> (Inl e, s)
      | None \<Rightarrow>
          (let (r, s') = try_read dec R n s
           in (r, case r of
                 Inl e \<Rightarrow> s'\<lparr>hs_open := False, hs_failure := Some e\<rparr>
               | Inr data \<Rightarrow> if data = [] \<and> n \<noteq> 0 then s'\<lparr>hs_open := False\<rparr> else s')))"

section \<open>Streams and the policy\<close>

text \<open>
  The history of a stream that was opened while private networks were allowed or not (\<open>a\<close>), with the
  sizes of the buffers and the results of its reads.
\<close>

inductive stream_history :: "(nat \<Rightarrow> bytes) \<Rightarrow> bool \<Rightarrow> service \<Rightarrow> http_stream \<Rightarrow> (nat \<times> bytes res) list \<Rightarrow> bool"
  for dec a where
  opened: "sv_allow_private sv = a \<Longrightarrow> stream_history dec a sv (new_stream sv now timeout stall) []"
| policy: "stream_history dec a sv s rs \<Longrightarrow> stream_history dec a (set_allow_private_network allow sv) s rs"
| options: "stream_history dec a sv s rs \<Longrightarrow> stream_history dec a (set_network_compatibility_options allow sv) s rs"
| reads: "stream_history dec a sv s rs \<Longrightarrow> rd_generation R = sv_generation sv \<Longrightarrow> read_stream dec R n s = (r, s') \<Longrightarrow>
    stream_history dec a sv s' (rs @ [(n, r)])"

text \<open>
  The flag flips with every generation, so that even a generation that comes back after \<open>2^64\<close> changes
  comes with the flag it had.
\<close>

definition stream_inv :: "bool \<Rightarrow> service \<Rightarrow> http_stream \<Rightarrow> (nat \<times> bytes res) list \<Rightarrow> bool" where
  "stream_inv a sv s rs \<longleftrightarrow>
     (odd (sv_generation sv) = odd (hs_generation s) \<longleftrightarrow> sv_allow_private sv = a) \<and>
     (case hs_failure s of
        Some e \<Rightarrow> (\<exists>n. (n, Inl e) \<in> set rs) \<and> (\<forall>n e'. (n, Inl e') \<in> set rs \<longrightarrow> e' = e)
      | None \<Rightarrow> \<forall>n e'. (n, Inl e') \<notin> set rs) \<and>
     (hs_open s \<longleftrightarrow> hs_failure s = None \<and> (\<forall>n. n \<noteq> 0 \<longrightarrow> (n, Inr []) \<notin> set rs))"

lemma try_read_frame:
  assumes "try_read dec R n s = (r, s')"
  shows "hs_open s' = hs_open s \<and> hs_failure s' = hs_failure s \<and> hs_generation s' = hs_generation s"
  using assms by (auto simp: try_read_def Let_def split: sum.splits if_splits)

lemma try_read_data:
  assumes "try_read dec R n s = (Inr data, s')" "data \<noteq> []"
  shows "rd_generation R = hs_generation s \<and> hs_open s \<and> n \<noteq> 0 \<and> (\<exists>limit. rd_run R (min n 65536) limit = Inr data)"
  using assms by (auto simp: try_read_def Let_def split: sum.splits if_splits)

lemma stream_history_inv: "stream_history dec a sv s rs \<Longrightarrow> stream_inv a sv s rs"
proof (induction rule: stream_history.induct)
  case (opened sv now timeout stall)
  then show ?case by (simp add: stream_inv_def new_stream_def)
next
  case (policy sv s rs allow)
  then show ?case by (auto simp: stream_inv_def set_allow_private_network_def)
next
  case (options sv s rs allow)
  then show ?case by (auto simp: stream_inv_def set_network_compatibility_options_def)
next
  case (reads sv s rs R n r s')
  show ?case
  proof (cases "hs_failure s")
    case (Some e)
    then show ?thesis using reads by (auto simp: stream_inv_def read_stream_def)
  next
    case None
    obtain r1 s1 where t: "try_read dec R n s = (r1, s1)" by fastforce
    note f = try_read_frame [OF t]
    show ?thesis
    proof (cases r1)
      case (Inl e)
      then have "r = Inl e" "s' = s1\<lparr>hs_open := False, hs_failure := Some e\<rparr>" using reads(3) None t by (auto simp: read_stream_def)
      then show ?thesis using reads.IH f None by (auto simp: stream_inv_def)
    next
      case (Inr data)
      then have "r = Inr data" "s' = (if data = [] \<and> n \<noteq> 0 then s1\<lparr>hs_open := False\<rparr> else s1)"
        using reads(3) None t by (auto simp: read_stream_def)
      then show ?thesis using reads.IH f None by (auto simp: stream_inv_def)
    qed
  qed
qed

text \<open>An operation delivers only after checks that passed, all of them under its own generation.\<close>

lemma run_rounds_Inr:
  "run_rounds generation rounds = Some (Inr x) \<Longrightarrow>
   \<exists>before last rest. rounds = before @ last # rest \<and> last = (Inr (), generation, Finished (Inr x) (Inr ())) \<and>
     (\<forall>y \<in> set before. y = (Inr (), generation, Woken))"
proof (induction rounds)
  case (Cons y rounds)
  obtain check current event where y: "y = (check, current, event)" by (cases y)
  have ok: "check = Inr ()" "current = generation" using Cons.prems y by (auto split: sum.splits if_splits)
  show ?case
  proof (cases event)
    case Woken
    then obtain before last rest where "rounds = before @ last # rest" "last = (Inr (), generation, Finished (Inr x) (Inr ()))"
        "\<forall>y \<in> set before. y = (Inr (), generation, Woken)"
      using Cons y ok by auto
    then have "y # rounds = (y # before) @ last # rest" "\<forall>z \<in> set (y # before). z = (Inr (), generation, Woken)"
      using y ok Woken by auto
    then show ?thesis using \<open>last = _\<close> by blast
  next
    case TimedOut
    then show ?thesis using Cons.prems y ok by simp
  next
    case (Finished r after)
    then have "y = (Inr (), generation, Finished (Inr x) (Inr ()))" using Cons.prems y ok by (simp split: sum.splits)
    then show ?thesis by (intro exI [of _ "[]"]) auto
  qed
qed simp

lemma run_rounds_None: "run_rounds generation rounds = None \<longleftrightarrow> (\<forall>y \<in> set rounds. y = (Inr (), generation, Woken))"
proof (induction rounds)
  case (Cons y rounds)
  obtain check current event where y: "y = (check, current, event)" by (cases y)
  show ?case using Cons.IH unfolding y by (cases event) (auto split: sum.splits)
qed simp

text \<open>
  C40. A read delivers at most 64 KiB and no more than asked for, only while the policy about private
  networks is the one the stream was opened under, even if the policy was switched back and forth in
  between, and never after an error or the end; once a read has failed, every later one fails in the
  same way.
\<close>

theorem streams_follow_policy:
  assumes "stream_history dec a sv s rs" "rd_generation R = sv_generation sv" "read_stream dec R n s = (r, s')"
    and "\<And>size limit data. rd_run R size limit = Inr data \<Longrightarrow> length data \<le> size"
  shows "(\<forall>data. r = Inr data \<and> data \<noteq> [] \<longrightarrow> sv_allow_private sv = a \<and> length data \<le> n \<and> length data \<le> 65536 \<and>
       (\<forall>(m, x) \<in> set rs. (\<exists>d. x = Inr d \<and> (d = [] \<longrightarrow> m = 0)))) \<and>
    (\<forall>m e. (m, Inl e) \<in> set rs \<longrightarrow> r = Inl e)"
proof -
  note inv = stream_history_inv [OF assms(1), unfolded stream_inv_def]
  show ?thesis
  proof (cases "hs_failure s")
    case (Some e)
    then show ?thesis using inv assms(3) by (auto simp: read_stream_def)
  next
    case None
    then have none: "\<forall>m e. (m, Inl e) \<notin> set rs" using inv by simp
    have "\<forall>data. r = Inr data \<and> data \<noteq> [] \<longrightarrow> sv_allow_private sv = a \<and> length data \<le> n \<and> length data \<le> 65536 \<and>
        (\<forall>(m, x) \<in> set rs. (\<exists>d. x = Inr d \<and> (d = [] \<longrightarrow> m = 0)))"
    proof (intro allI impI)
      fix data
      assume that: "r = Inr data \<and> data \<noteq> []"
      have "\<exists>s1. try_read dec R n s = (Inr data, s1)" using assms(3) None that by (auto simp: read_stream_def split: prod.splits)
      then obtain s1 where "try_read dec R n s = (Inr data, s1)" by blast
      note t = try_read_data [OF this conjunct2 [OF that]]
      then have "length data \<le> min n 65536" using assms(4) by blast
      moreover have "sv_allow_private sv = a" using t inv assms(2) by simp
      moreover have "\<exists>d. x = Inr d \<and> (d = [] \<longrightarrow> m = 0)" if "(m, x) \<in> set rs" for m x
        using that none t inv by (cases x) auto
      ultimately show "sv_allow_private sv = a \<and> length data \<le> n \<and> length data \<le> 65536 \<and>
          (\<forall>(m, x) \<in> set rs. (\<exists>d. x = Inr d \<and> (d = [] \<longrightarrow> m = 0)))" by auto
    qed
    then show ?thesis by (rule conjI) (use none in simp)
  qed
qed

definition sample_service :: service where
  "sample_service = set_allow_private_network True (set_allow_private_network False (set_allow_private_network True new_service))"

definition sample_reading :: reading where
  "sample_reading = \<lparr>rd_check = Inr (), rd_generation = 3, rd_elapsed = 1, rd_idle = 1, rd_after = 2, rd_run = (\<lambda>k _. Inr (take k ''abc''))\<rparr>"

text \<open>After two more changes the policy is the same again, but a stream that was opened before them is closed.\<close>

theorem streams_follow_policy_witness:
  "fst (read_stream (\<lambda>_. []) sample_reading 2 (new_stream sample_service 0 9 9)) = Inr ''ab'' \<and> sv_allow_private sample_service \<and>
   fst (read_stream (\<lambda>_. []) sample_reading 2 (new_stream (set_allow_private_network True new_service) 0 9 9)) = Inl ''network policy changed''"
proof -
  have g: "sv_generation sample_service = 3" by (simp add: sample_service_def set_allow_private_network_def new_service_def)
  obtain s' where r: "read_stream (\<lambda>_. []) sample_reading 2 (new_stream sample_service 0 9 9) = (Inr ''ab'', s')"
    by (simp add: read_stream_def try_read_def sample_reading_def new_stream_def g Let_def)
  have "sv_allow_private sample_service = True"
    using streams_follow_policy [OF stream_history.opened [of sample_service True] _ r]
    by (simp add: g sample_reading_def sample_service_def set_allow_private_network_def)
  moreover have "fst (read_stream (\<lambda>_. []) sample_reading 2 (new_stream (set_allow_private_network True new_service) 0 9 9)) =
      Inl ''network policy changed''"
    by (simp add: read_stream_def try_read_def sample_reading_def new_stream_def set_allow_private_network_def new_service_def)
  ultimately show ?thesis using r by simp
qed

end
