(* ===== verification/Spec2Isabelle.thy ===== *)
theory Spec2Isabelle
  imports Strings BTree Downloads Usb Text Matching UsbVolume OggEdit Ape Filename TransferPolicy Segments PlainDownload
    Chunked Query Client Dns Streams
begin

text \<open>
  Verification development for the native backend of SpotiFLAC Mobile, the Rust workspace under
  src/rust\_backend/crates.  The application searches tracks, downloads them through extensions
  (JavaScript programs hosted by the backend), writes their tags and plays them.  Modelled is the
  logic that decides what ends up in a user's file, which download a click cancels, what a client
  sees of the progress, where requests may go, and what is sent to a USB converter.

  The parts and how they interact.  A download starts with a lease of the cancellation registry and
  an item of the progress registry; both are kept by the download state, whose cancellation acts on
  both.  The extension downloads the file with the limits of its transfer policy, in one stream,
  range by range, or in segments fetched by worker threads; what is written reports its progress through a
  coalescing reporter.  The name of the file is sanitised first.  The finished file gets its tags by
  rewriting it, section by section, in the format of its container; the library reads them back.
  The player sends the samples to a USB device, whose descriptors say which formats it takes and
  which unit holds its volume.

  Theories and sources (paths under src/rust\_backend/crates):

  \<^item> Prelude, Strings, Utf8, F64, BTree, Reader: bytes, results, text as UTF-8 with character tables as
    parameters, 64-bit floats by value, ordered maps, bounded reads.  Shared by the rest.
  \<^item> RequestCancellation (core/src/cancellation.rs): the registry of requests with its leases and
    reference counts; operations are functions on an explicit state, an inductive relation gives the
    reachable states.
  \<^item> Progress (core/src/progress/mod.rs, subscription.rs), Downloads (core/src/downloads.rs,
    core/src/progress/reporter.rs): items with revisions and tombstones, deltas for clients, bounded
    waits; the pairing with the cancellation registry; reporter and byte-counting writer.
    Lifecycle holds the contract of an operation that is refused after a shutdown.
  \<^item> Filename (core/src/filename.rs): sanitised names.
  \<^item> TransferPolicy (extensions/src/transfer\_policy.rs, extensions/src/download/mod.rs): the policy an
    extension declares, response headers, failures, waits between attempts.
  \<^item> SegmentFetch, Segments (extensions/src/download/segments.rs, segment\_store.rs): one segment with
    its retries, the assembled file with its checkpoint, and the interleaving of the workers with the
    coordinator as a step relation over two bounded channels.
  \<^item> PartFile, PlainDownload, Chunked (extensions/src/download/store.rs, mod.rs, chunked.rs): the staged
    file with its checkpoint, the download that resumes one stream with Range and If-Range, and the one
    that asks for range after range.
  \<^item> Percent, Query, Address, Url, Policy, Cookies, Client (network/src/query.rs, url.rs, policy.rs,
    cookies.rs, client.rs): the requests of an extension.  Url parses, prints and resolves references as
    the code does; Address holds the literal addresses of the standard library and the private ones;
    Policy is the check of a URL against the permissions; Cookies is the jar; Client sends the requests
    of one call, at most ten with the redirects, and assembles the response.
  \<^item> Dns (network/src/dns.rs), Streams (network/src/client.rs): names of hosts with the fallback to DNS
    over HTTPS and its cache; the policy of the service, the loop that waits for an operation, and the
    reads of a response stream.
  \<^item> Text (core/src/text.rs), Matching (core/src/matching.rs): repair of text from outside, titles.
  \<^item> Metadata, Vorbis, Sections (core/src/tags/comments.rs, core/src/tags/write.rs): the tag record, the
    comment format and its editing, the copier that splices a file.
  \<^item> Flac, Ogg, OggEdit, Ape (core/src/tags/containers.rs, core/src/tags/write.rs, write/ogg.rs,
    write/ape.rs): reading and rewriting of each container.
  \<^item> Usb, UsbVolume (mobile/src/usb\_audio): descriptors, choice of the format, framing of transfers
    with DoP markers, search of the feature unit and the volume.

  What the lemmas show.  For the registries: invariants of every reachable state (reference counts
  are the live leases; revisions and tombstones are consistent and bounded) and, over them, that
  cancelling hits exactly the named request and that a client which applies deltas shows what the
  registry shows.  For the segmented download: the assembled file is a concatenation of the first
  segments at every moment and under every interleaving and failure, it can be resumed after a crash,
  no run deadlocks or goes on forever, and the number of segments in flight is bounded.  For the plain
  and the chunked download: whatever is resumed, restarted, cut off or refused, a call that succeeds
  has published one resource as it was served, and one that fails leaves the target alone and a part
  that a later call may resume; both end.  For the
  policy: its values and every wait are within their limits whatever the extension or the server
  says.  For the network: whatever an extension asks for and the servers answer, each request stays
  within its permissions (the check of a redirect looks at the displayed form of the target, so this
  rests on parsing back what display prints), secrets do not follow a redirect to a foreign host, a
  cookie goes only where it was rightfully set, names resolve to permitted addresses that were told for
  them, a stream ends with the policy it was opened under, and the masks for private addresses are exactly the
  blocks of the standards.  For tags: what an edit writes is what the reader finds, audio and foreign items are kept,
  and whatever input or output fails, only a prefix of the spliced file has been written.  For USB:
  the parser accepts exactly the well-formed descriptors, the framing is exact byte by byte and the
  volume never rises when the control is opened.  For text: optimised loops equal their reference
  definitions.

  Conventions.  Bytes and strings are lists of characters; a result is a sum, the error on the left.
  A machine integer is a word where its wrap-around is used and a number with its bounds otherwise.
  Files are byte lists with a position; every call of the operating system that can fail takes its
  outcome from an argument, so that a theorem holds for every pattern of failures.  Time, randomness,
  the characters tables of the standard library, serde\_json and the network are parameters; what is
  assumed of them is a hypothesis with its name (a codec is a round trip, a server that answers
  successfully with a whole body sends the segment; the host of a built URI depends on its authority
  only).  The crates url (IDNA), http (URIs and header values) and cookie are parameters as well.  Threads are interleaved in atomic steps, one
  per operation on a lock or channel; polling rounds that change nothing are no steps.

  Bounds and fuel.  Loops are structural or have a termination proof.  The fetch loop counts down the
  attempts of the policy, at least one and at most eight, so that the value for no attempts left is
  never reached; so do the attempts of the plain download, of the probe and of one chunk.  The loop over
  the chunks has fuel: when the length is known, more fuel than the resource has bytes is enough, since
  every round that goes on has received at least one byte.  The container readers walk over the file and stop with it; their limits (64 MiB of
  tags, 1000 items, 100 comments, 1 MiB packets) are those of the code.

  Not modelled: ID3, RIFF and MP4 tags, lyrics, metadata catalogs and cue sheets; the JavaScript
  runtime of the extensions, their sessions and repositories; of the
  network client TLS, the permits of the connection pool and timeouts other than those of a stream; the analysis of audio, whose floating-point results have no exact contract; the
  bridge to the frontends and the frontends; vendored code.  In the modelled parts: panics of worker
  threads, progress callbacks, the guards that charge time to a budget and locks on files are left out; memory is unbounded.
\<close>

end
